(* ===== verification/LHJ_Prelude.thy ===== *)
theory LHJ_Prelude
  imports Main "HOL-Library.Word"
begin

text \<open>
  Shared vocabulary of the chat server development: machine integers, memory cells, the faults
  that C++ leaves undefined or throws, the error monad over them, and the block operations
  (\<open>CopyMemory\<close>, C strings, little-endian fields) that several components use.

  A memory cell is a \<open>byte option\<close>: \<open>None\<close> is an indeterminate byte (storage that
  \<open>new char[n]\<close> or an uninitialised local left as it was). Copying an indeterminate cell is
  allowed, branching on one is the fault \<open>UninitRead\<close>.
\<close>

named_theorems bindr_simps \<open>evaluation and inversion of the fault monad\<close>
named_theorems mem_simps \<open>lengths and contents of memory blocks\<close>
named_theorems wire_simps \<open>little-endian fields\<close>

section \<open>Integers and memory\<close>

type_synonym u8 = "8 word"
type_synonym u16 = "16 word"
type_synonym u32 = "32 word"
type_synonym u64 = "64 word"
type_synonym bytes = "u8 list"
type_synonym cell = "u8 option"

text \<open>
  What the C++ standard leaves undefined, and the exception a call of an empty
  \<open>std::function\<close> throws; \<open>StdTerminate\<close> is the end of the process when a \<open>std::thread\<close> is destroyed that was
  not joined; \<open>NoReturn\<close> stands for a loop over an external result set that does
  not end. Every one of them ends a run of the model.
\<close>

datatype fault =
    NullDeref
  | OutOfRange
  | OutOfBoundsRead
  | OutOfBoundsWrite
  | OverlappingCopy
  | UninitRead
  | BadFunctionCall
  | EmptyFront
  | DoubleFree
  | StdTerminate
  | NoReturn

type_synonym 'a result = "fault + 'a"

fun bindr :: "'a result \<Rightarrow> ('a \<Rightarrow> 'b result) \<Rightarrow> 'b result" where
  "bindr (Inl e) f = Inl e"
| "bindr (Inr x) f = f x"

lemma bindr_Inr_iff [bindr_simps]: "bindr m f = Inr y \<longleftrightarrow> (\<exists>x. m = Inr x \<and> f x = Inr y)"
  by (cases m) auto

lemma bindr_Inl_iff [bindr_simps]:
  "bindr m f = Inl e \<longleftrightarrow> m = Inl e \<or> (\<exists>x. m = Inr x \<and> f x = Inl e)"
  by (cases m) auto

lemma bindr_split: "P (bindr m f) \<longleftrightarrow> (\<forall>e. m = Inl e \<longrightarrow> P (Inl e)) \<and> (\<forall>x. m = Inr x \<longrightarrow> P (f x))"
  by (cases m) auto

lemma bindr_Inr_right [simp]: "bindr m Inr = m"
  by (cases m) auto

lemma bindr_assoc: "bindr (bindr m f) g = bindr m (\<lambda>x. bindr (f x) g)"
  by (cases m) auto

lemma bindr_cong [fundef_cong]: "m = m' \<Longrightarrow> (\<And>x. m' = Inr x \<Longrightarrow> f x = f' x) \<Longrightarrow> bindr m f = bindr m' f'"
  by (cases m') auto

definition ok :: "'a result \<Rightarrow> bool" where
  "ok r \<longleftrightarrow> (\<exists>x. r = Inr x)"

lemma ok_simps [simp]: "ok (Inr x)" "\<not> ok (Inl e)"
  by (auto simp: ok_def)

section \<open>Blocks of memory\<close>

text \<open>\<open>block off n xs\<close> is the block of \<open>n\<close> elements at \<open>off\<close>; \<open>blit off src dst\<close> is
  \<open>dst\<close> after \<open>src\<close> was copied to \<open>off\<close>.\<close>

definition block :: "nat \<Rightarrow> nat \<Rightarrow> 'a list \<Rightarrow> 'a list" where
  "block off n xs = take n (drop off xs)"

definition blit :: "nat \<Rightarrow> 'a list \<Rightarrow> 'a list \<Rightarrow> 'a list" where
  "blit off src dst = take off dst @ src @ drop (off + length src) dst"

lemma length_block [mem_simps]: "off + n \<le> length xs \<Longrightarrow> length (block off n xs) = n"
  by (simp add: block_def)

lemma block_0 [simp]: "block off 0 xs = []"
  by (simp add: block_def)

lemma length_blit [mem_simps]: "off + length src \<le> length dst \<Longrightarrow> length (blit off src dst) = length dst"
  by (simp add: blit_def)

lemma block_block: "i + n \<le> m \<Longrightarrow> block i n (block off m xs) = block (off + i) n xs"
  by (simp add: block_def drop_take min_def add.commute)

lemma block_append_split: "block off (n + m) xs = block off n xs @ block (off + n) m xs"
  unfolding block_def take_add by (simp add: add.commute)

lemma block_blit_before:
  "off + n \<le> p \<Longrightarrow> p + length src \<le> length dst \<Longrightarrow> block off n (blit p src dst) = block off n dst"
  by (simp add: block_def blit_def drop_take min_absorb1)

lemma block_blit_same: "p + length src \<le> length dst \<Longrightarrow> block p (length src) (blit p src dst) = src"
  by (simp add: block_def blit_def)

lemma block_blit_extend:
  assumes "off + n = p" and "p + length src \<le> length dst"
  shows "block off (n + length src) (blit p src dst) = block off n dst @ src"
  using assms block_blit_before[of off n p src dst] block_blit_same[of p src dst]
  by (simp add: block_append_split)

lemma block_map: "block off n (map f xs) = map f (block off n xs)"
  by (simp add: block_def take_map drop_map)

text \<open>Bounds-checked block reads and writes: what \<open>CopyMemory\<close> and a field access may touch.\<close>

definition read_cells :: "nat \<Rightarrow> nat \<Rightarrow> cell list \<Rightarrow> cell list result" where
  "read_cells off n mem =
     (if off + n \<le> length mem then Inr (block off n mem) else Inl OutOfBoundsRead)"

definition write_cells :: "nat \<Rightarrow> cell list \<Rightarrow> cell list \<Rightarrow> cell list result" where
  "write_cells off src mem =
     (if off + length src \<le> length mem then Inr (blit off src mem) else Inl OutOfBoundsWrite)"

text \<open>Using the value of cells: every one must hold a byte.\<close>

fun load :: "cell list \<Rightarrow> bytes result" where
  "load [] = Inr []"
| "load (None # cs) = Inl UninitRead"
| "load (Some b # cs) = bindr (load cs) (\<lambda>bs. Inr (b # bs))"

lemma load_map_Some [simp]: "load (map Some bs) = Inr bs"
  by (induction bs) auto

lemma load_Inr_iff: "load cs = Inr bs \<longleftrightarrow> cs = map Some bs"
  by (induction cs arbitrary: bs rule: load.induct) (auto simp: bindr_simps)

text \<open>\<open>std::string s(p)\<close>: the bytes from \<open>p\<close> up to the first NUL.\<close>

fun cstr :: "cell list \<Rightarrow> bytes result" where
  "cstr [] = Inl OutOfBoundsRead"
| "cstr (None # cs) = Inl UninitRead"
| "cstr (Some b # cs) = (if b = 0 then Inr [] else bindr (cstr cs) (\<lambda>s. Inr (b # s)))"

lemma cstr_terminated: "0 \<notin> set s \<Longrightarrow> cstr (map Some s @ Some 0 # cs) = Inr s"
  by (induction s) auto

lemma cstr_prefix: "0 \<notin> set s \<Longrightarrow> cstr (map Some s @ cs) = bindr (cstr cs) (\<lambda>t. Inr (s @ t))"
  by (induction s) (auto simp: bindr_assoc)

lemma cstr_no_NUL: "cstr cs = Inr s \<Longrightarrow> 0 \<notin> set s"
  by (induction cs arbitrary: s rule: cstr.induct) (auto simp: bindr_simps split: if_splits)

lemma cstr_length: "cstr cs = Inr s \<Longrightarrow> length s < length cs"
  by (induction cs arbitrary: s rule: cstr.induct) (auto simp: bindr_simps split: if_splits)

section \<open>Little-endian fields\<close>

definition le16 :: "u16 \<Rightarrow> bytes" where
  "le16 w = [ucast w, ucast (drop_bit 8 w)]"

fun of_le16 :: "bytes \<Rightarrow> u16" where
  "of_le16 (a # b # _) = or (ucast a) (push_bit 8 (ucast b))"
| "of_le16 _ = 0"

definition le32 :: "u32 \<Rightarrow> bytes" where
  "le32 w = [ucast w, ucast (drop_bit 8 w), ucast (drop_bit 16 w), ucast (drop_bit 24 w)]"

fun of_le32 :: "bytes \<Rightarrow> u32" where
  "of_le32 (a # b # c # d # _) =
     or (or (ucast a) (push_bit 8 (ucast b))) (or (push_bit 16 (ucast c)) (push_bit 24 (ucast d)))"
| "of_le32 _ = 0"

lemma length_le16 [simp]: "length (le16 w) = 2"
  by (simp add: le16_def)

lemma length_le32 [simp]: "length (le32 w) = 4"
  by (simp add: le32_def)

lemma of_le16_le16 [wire_simps]: "of_le16 (le16 w @ rest) = w"
proof (rule bit_word_eqI)
  fix n assume "n < LENGTH(16)"
  then show "bit (of_le16 (le16 w @ rest)) n = bit w n"
    by (auto simp: le16_def bit_simps)
qed

lemma of_le32_le32 [wire_simps]: "of_le32 (le32 w @ rest) = w"
proof (rule bit_word_eqI)
  fix n assume n: "n < LENGTH(32)"
  then consider "n < 8" | "8 \<le> n \<and> n < 16" | "16 \<le> n \<and> n < 24" | "24 \<le> n \<and> n < 32"
    by fastforce
  then show "bit (of_le32 (le32 w @ rest)) n = bit w n"
    by cases (auto simp: le32_def bit_simps)
qed

lemma of_le16_le16_Nil [wire_simps]: "of_le16 (le16 w) = w"
  using of_le16_le16[of w "[]"] by simp

lemma of_le32_le32_Nil [wire_simps]: "of_le32 (le32 w) = w"
  using of_le32_le32[of w "[]"] by simp

text \<open>Reading a field of a packed struct through a pointer into a buffer.\<close>

definition read_u16 :: "nat \<Rightarrow> cell list \<Rightarrow> u16 result" where
  "read_u16 off mem = bindr (read_cells off 2 mem) (\<lambda>cs. bindr (load cs) (\<lambda>bs. Inr (of_le16 bs)))"

definition read_u32 :: "nat \<Rightarrow> cell list \<Rightarrow> u32 result" where
  "read_u32 off mem = bindr (read_cells off 4 mem) (\<lambda>cs. bindr (load cs) (\<lambda>bs. Inr (of_le32 bs)))"

lemma read_u16_block:
  "off + 2 \<le> length mem \<Longrightarrow> block off 2 mem = map Some bs \<Longrightarrow> read_u16 off mem = Inr (of_le16 bs)"
  by (simp add: read_u16_def read_cells_def)

lemma read_u32_block:
  "off + 4 \<le> length mem \<Longrightarrow> block off 4 mem = map Some bs \<Longrightarrow> read_u32 off mem = Inr (of_le32 bs)"
  by (simp add: read_u32_def read_cells_def)

text \<open>A read through a pointer into a buffer is a read of the memory from that pointer on.\<close>

lemma read_cells_drop: "0 < n \<Longrightarrow> read_cells (p + off) n mem = read_cells off n (drop p mem)"
  by (auto simp: read_cells_def block_def add.commute)

lemma read_u32_drop: "read_u32 (p + off) mem = read_u32 off (drop p mem)"
  by (simp add: read_u32_def read_cells_drop)

section \<open>Word arithmetic without wrap-around\<close>

lemma unat_add_u32 [mem_simps]: "unat (a::u32) + unat b < 2 ^ 32 \<Longrightarrow> unat (a + b) = unat a + unat b"
  by (simp add: unat_word_ariths)

lemma unat_sub_u32 [mem_simps]: "unat (b::u32) \<le> unat a \<Longrightarrow> unat (a - b) = unat a - unat b"
  by (simp add: unat_sub_if')

lemma unat_u16_less [simp]: "unat (w::u16) < 65536"
  using unsigned_less[of w] by simp

lemma unat_ucast_u16_u32 [mem_simps]: "unat (ucast (w::u16) :: u32) = unat w"
proof -
  have "unat w < 2 ^ 32"
    by (rule order_less_trans[OF unat_u16_less]) simp
  then show ?thesis
    by (simp add: unsigned_ucast_eq take_bit_nat_eq_self)
qed

lemma unat_of_nat_u32 [mem_simps]: "n < 2 ^ 32 \<Longrightarrow> unat (of_nat n :: u32) = n"
  by (simp add: unat_of_nat)

lemma unat_of_nat_u16 [mem_simps]: "n < 2 ^ 16 \<Longrightarrow> unat (of_nat n :: u16) = n"
  by (simp add: unat_of_nat)

lemma unat_ucast_u32_u16: "n < 65536 \<Longrightarrow> unat (ucast (of_nat n :: u32) :: u16) = n"
proof -
  assume n: "n < 65536"
  then have "unat (of_nat n :: u32) = n"
    by (intro unat_of_nat_u32) simp
  then show "unat (ucast (of_nat n :: u32) :: u16) = n"
    using n by (simp add: unsigned_ucast_eq take_bit_nat_eq_self)
qed

lemma uint_inc_u16: "uint (w::u16) < m \<Longrightarrow> m < 65536 \<Longrightarrow> uint (w + 1) = uint w + 1"
  by (simp add: uint_word_ariths)

lemma unat_inc_u16: "uint (w::u16) < m \<Longrightarrow> m < 65536 \<Longrightarrow> unat (w + 1) = Suc (unat w)"
proof -
  assume "uint w < m" and "m < 65536"
  then have "int (unat (w + 1)) = int (Suc (unat w))"
    by (simp add: uint_inc_u16)
  then show "unat (w + 1) = Suc (unat w)"
    by (simp only: of_nat_eq_iff)
qed

end
