(* ===== verification/Packets.thy ===== *)
theory Packets
  imports LHJ_Prelude
begin

text \<open>
  The wire protocol: \<open>Packet.h\<close> and \<open>ResultCode.h\<close>. The enumerations with their
  numbers, the sizes and field offsets of the packed structs (\<open>#pragma pack(push,1)\<close>), and the
  byte image of every packet the server builds. The images are lists of cells: the byte of
  \<open>PACKET_HEADER::Type\<close> is never assigned by the server, so it is \<open>None\<close> unless the
  struct was cleared with \<open>ZeroMemory\<close>.
\<close>

section \<open>Enumerations\<close>

datatype PACKET_ID =
    SYS_USER_CONNECT | SYS_USER_DISCONNECT | SYS_END
  | DB_END
  | REQ_CREATE_ACCOUNT | ACK_CREATE_ACCOUNT
  | REQ_LOGIN | ACK_LOGIN
  | REQ_LOBBY_INFO | ACK_LOBBY_INFO | NOTIFY_LOBBY_INFO
  | REQ_ROOM_ENTER | ACK_ROOM_ENTER
  | REQ_ROOM_LEAVE | ACK_ROOM_LEAVE | NOTIFY_ROOM_LEAVE
  | REQ_ROOM_CHAT | ACK_ROOM_CHAT | NOTIFY_ROOM_CHAT
  | REQ_ROOM_INFO | ACK_ROOM_INFO | NOTIFY_ROOM_INFO

fun packet_id :: "PACKET_ID \<Rightarrow> int" where
  "packet_id SYS_USER_CONNECT = 11"
| "packet_id SYS_USER_DISCONNECT = 12"
| "packet_id SYS_END = 30"
| "packet_id DB_END = 199"
| "packet_id REQ_CREATE_ACCOUNT = 200"
| "packet_id ACK_CREATE_ACCOUNT = 201"
| "packet_id REQ_LOGIN = 210"
| "packet_id ACK_LOGIN = 211"
| "packet_id REQ_LOBBY_INFO = 300"
| "packet_id ACK_LOBBY_INFO = 301"
| "packet_id NOTIFY_LOBBY_INFO = 302"
| "packet_id REQ_ROOM_ENTER = 400"
| "packet_id ACK_ROOM_ENTER = 401"
| "packet_id REQ_ROOM_LEAVE = 410"
| "packet_id ACK_ROOM_LEAVE = 411"
| "packet_id NOTIFY_ROOM_LEAVE = 412"
| "packet_id REQ_ROOM_CHAT = 420"
| "packet_id ACK_ROOM_CHAT = 421"
| "packet_id NOTIFY_ROOM_CHAT = 422"
| "packet_id REQ_ROOM_INFO = 430"
| "packet_id ACK_ROOM_INFO = 431"
| "packet_id NOTIFY_ROOM_INFO = 432"

text \<open>\<open>(UINT16)PACKET_ID::X\<close>, the value stored in a header.\<close>

definition pid16 :: "PACKET_ID \<Rightarrow> u16" where
  "pid16 p = word_of_int (packet_id p)"

datatype RESULT_CODE =
    NONE
  | USER_MGR_INVALID_USER_INDEX | USER_MGR_INVALID_USER_UNIQUEID
  | CREATE_ACCOUNT_FAIL
  | LOGIN_SUCCESS | LOGIN_USER_ALREADY | LOGIN_USER_USED_ALL_OBJ | LOGIN_USER_INVALID_PW
  | NEW_ROOM_USED_ALL_OBJ | NEW_ROOM_FAIL_ENTER
  | ENTER_ROOM_SUCCESS | ENTER_ROOM_NOT_FINDE_USER | ENTER_ROOM_INVALID_USER_STATUS
  | ENTER_ROOM_NOT_USED_STATUS | ENTER_ROOM_FULL_USER
  | ROOM_INVALID_INDEX | ROOM_NOT_USED | ROOM_TOO_MANY_PACKET | ROOM_FULL
  | LEAVE_ROOM_SUCCESS | LEAVE_ROOM_FAIL
  | CHAT_ROOM_INVALID_ROOM_NUMBER
  | LOBBY_INFO_SUCCESS
  | CHAT_ROOM_SUCCESS

fun result_code :: "RESULT_CODE \<Rightarrow> u16" where
  "result_code NONE = 0"
| "result_code USER_MGR_INVALID_USER_INDEX = 10"
| "result_code USER_MGR_INVALID_USER_UNIQUEID = 11"
| "result_code CREATE_ACCOUNT_FAIL = 20"
| "result_code LOGIN_SUCCESS = 30"
| "result_code LOGIN_USER_ALREADY = 31"
| "result_code LOGIN_USER_USED_ALL_OBJ = 32"
| "result_code LOGIN_USER_INVALID_PW = 33"
| "result_code NEW_ROOM_USED_ALL_OBJ = 40"
| "result_code NEW_ROOM_FAIL_ENTER = 41"
| "result_code ENTER_ROOM_SUCCESS = 50"
| "result_code ENTER_ROOM_NOT_FINDE_USER = 51"
| "result_code ENTER_ROOM_INVALID_USER_STATUS = 52"
| "result_code ENTER_ROOM_NOT_USED_STATUS = 53"
| "result_code ENTER_ROOM_FULL_USER = 54"
| "result_code ROOM_INVALID_INDEX = 60"
| "result_code ROOM_NOT_USED = 61"
| "result_code ROOM_TOO_MANY_PACKET = 62"
| "result_code ROOM_FULL = 63"
| "result_code LEAVE_ROOM_SUCCESS = 70"
| "result_code LEAVE_ROOM_FAIL = 71"
| "result_code CHAT_ROOM_INVALID_ROOM_NUMBER = 80"
| "result_code LOBBY_INFO_SUCCESS = 90"
| "result_code CHAT_ROOM_SUCCESS = 100"

lemma packet_id_inj: "packet_id p = packet_id q \<Longrightarrow> p = q"
  by (cases p; cases q; simp)

lemma packet_id_range: "11 \<le> packet_id p \<and> packet_id p \<le> 432"
  by (cases p) auto

lemma result_code_inj: "result_code r = result_code s \<Longrightarrow> r = s"
  by (cases r; cases s; simp)

lemma uint_pid16 [simp]: "uint (pid16 p) = packet_id p"
proof -
  have "0 \<le> packet_id p" and "packet_id p < 2 ^ 16"
    using packet_id_range[of p] by simp_all
  then show ?thesis
    by (simp add: pid16_def uint_word_of_int)
qed

lemma pid16_inj: "pid16 p = pid16 q \<longleftrightarrow> p = q"
  by (metis packet_id_inj uint_pid16)

section \<open>Struct sizes and field offsets\<close>

definition PACKET_HEADER_LENGTH :: nat where
  "PACKET_HEADER_LENGTH = 2 + 2 + 1"

definition MAX_USER_ID_LEN :: nat where
  "MAX_USER_ID_LEN = 10"

definition MAX_USER_PW_LEN :: nat where
  "MAX_USER_PW_LEN = 10"

definition MAX_CHAT_MSG_SIZE :: nat where
  "MAX_CHAT_MSG_SIZE = 256"

definition REQ_CREATE_ACCOUNT_PACKET_SIZE :: nat where
  "REQ_CREATE_ACCOUNT_PACKET_SIZE =
     PACKET_HEADER_LENGTH + (MAX_USER_ID_LEN + 1) + (MAX_USER_PW_LEN + 1)"

definition REQ_LOGIN_PACKET_SIZE :: nat where
  "REQ_LOGIN_PACKET_SIZE =
     PACKET_HEADER_LENGTH + (MAX_USER_ID_LEN + 1) + (MAX_USER_PW_LEN + 1)"

text \<open>\<open>sizeof\<close> of the acknowledgements (header and a 16-bit result) and of the notifications.\<close>

definition ACK_PACKET_SIZE :: nat where
  "ACK_PACKET_SIZE = PACKET_HEADER_LENGTH + 2"

definition NOTIFY_ROOM_INFO_PACKET_SIZE :: nat where
  "NOTIFY_ROOM_INFO_PACKET_SIZE = PACKET_HEADER_LENGTH + (MAX_USER_ID_LEN + 1)"

definition NOTIFY_ROOM_LEAVE_PACKET_SIZE :: nat where
  "NOTIFY_ROOM_LEAVE_PACKET_SIZE = PACKET_HEADER_LENGTH + (MAX_USER_ID_LEN + 1)"

definition NOTIFY_ROOM_CHAT_PACKET_SIZE :: nat where
  "NOTIFY_ROOM_CHAT_PACKET_SIZE =
     PACKET_HEADER_LENGTH + (MAX_USER_ID_LEN + 1) + (MAX_CHAT_MSG_SIZE + 1)"

lemmas packet_sizes =
  PACKET_HEADER_LENGTH_def MAX_USER_ID_LEN_def MAX_USER_PW_LEN_def MAX_CHAT_MSG_SIZE_def
  REQ_CREATE_ACCOUNT_PACKET_SIZE_def REQ_LOGIN_PACKET_SIZE_def ACK_PACKET_SIZE_def
  NOTIFY_ROOM_INFO_PACKET_SIZE_def NOTIFY_ROOM_LEAVE_PACKET_SIZE_def
  NOTIFY_ROOM_CHAT_PACKET_SIZE_def

text \<open>\<open>PacketInfo\<close>: a packet handed to the handlers. \<open>pDataPtr\<close> is an offset into the
  packet buffer of the user \<open>ClientIndex\<close>, \<open>None\<close> for \<open>nullptr\<close>.\<close>

record PacketInfo =
  ClientIndex :: u32
  PacketId :: u16
  DataSize :: u16
  pDataPtr :: "nat option"

definition empty_PacketInfo :: PacketInfo where
  "empty_PacketInfo = \<lparr>ClientIndex = 0, PacketId = 0, DataSize = 0, pDataPtr = None\<rparr>"

section \<open>Packets the server builds\<close>

definition header_cells :: "nat \<Rightarrow> PACKET_ID \<Rightarrow> cell \<Rightarrow> cell list" where
  "header_cells len p type = map Some (le16 (of_nat len) @ le16 (pid16 p)) @ [type]"

lemma length_header_cells [simp]: "length (header_cells len p t) = 5"
  by (simp add: header_cells_def)

text \<open>
  \<open>ACK_CREATE_ACCOUNT_PACKET\<close>, \<open>ACK_LOGIN_PACKET\<close>, \<open>ACK_LOBBY_INFO\<close>,
  \<open>ACK_ROOM_ENTER_PACKET\<close>, \<open>ACK_ROOM_LEAVE_PACKET\<close> and \<open>ACK_ROOM_CHAT_PACKET\<close>
  all are a header and a 16-bit result; \<open>Type\<close> stays indeterminate.
\<close>

definition ack_cells :: "PACKET_ID \<Rightarrow> u16 \<Rightarrow> cell list" where
  "ack_cells p res = header_cells ACK_PACKET_SIZE p None @ map Some (le16 res)"

lemma length_ack_cells [simp]: "length (ack_cells p res) = ACK_PACKET_SIZE"
  by (simp add: ack_cells_def packet_sizes)

text \<open>
  A string copied byte by byte into the zeroed \<open>char[MAX_USER_ID_LEN + 1]\<close> that ends
  \<open>NOTIFY_ROOM_INFO_PACKET\<close> and \<open>NOTIFY_ROOM_LEAVE_PACKET\<close>: the loop has no bound
  but the length of the string, so a longer one writes outside the struct.
\<close>

definition id_field :: "bytes \<Rightarrow> cell list result" where
  "id_field s = write_cells 0 (map Some s) (replicate (MAX_USER_ID_LEN + 1) (Some 0))"

definition notify_id_cells :: "nat \<Rightarrow> PACKET_ID \<Rightarrow> bytes \<Rightarrow> cell list result" where
  "notify_id_cells len p s =
     bindr (id_field s) (\<lambda>f. Inr (header_cells len p (Some 0) @ f))"

lemma id_field_ok: "length s \<le> 11 \<Longrightarrow> id_field s = Inr (map Some s @ replicate (11 - length s) (Some 0))"
  by (simp add: id_field_def write_cells_def blit_def packet_sizes)

lemma id_field_overflow: "11 < length s \<Longrightarrow> id_field s = Inl OutOfBoundsWrite"
  by (simp add: id_field_def write_cells_def packet_sizes)

text \<open>
  The storage behind \<open>std::string::c_str()\<close>: the bytes, the terminating NUL, then whatever
  the small-string buffer (16 bytes in the implementations the project builds with) holds.
\<close>

definition c_str_cells :: "nat \<Rightarrow> bytes \<Rightarrow> cell list" where
  "c_str_cells n s = take n (map Some s @ [Some 0] @ replicate n None)"

lemma length_c_str_cells [simp]: "length (c_str_cells n s) = n"
  by (simp add: c_str_cells_def)

definition notify_chat_cells :: "cell list \<Rightarrow> cell list \<Rightarrow> cell list" where
  "notify_chat_cells uid msg =
     header_cells NOTIFY_ROOM_CHAT_PACKET_SIZE NOTIFY_ROOM_CHAT None @ uid @ msg"

text \<open>\<open>NOTIFY_LOBBY_INFO\<close> as it is sent: the first nine bytes of the struct (header and
  \<open>RoomCount\<close>), then the elements of the vector.\<close>

definition int_cells :: "int \<Rightarrow> cell list" where
  "int_cells n = map Some (le32 (word_of_int n))"

lemma length_int_cells [simp]: "length (int_cells n) = 4"
  by (simp add: int_cells_def)

definition lobby_info_length :: "int list \<Rightarrow> nat" where
  "lobby_info_length rooms = PACKET_HEADER_LENGTH + 4 + length rooms * 4"

definition notify_lobby_cells :: "int list \<Rightarrow> cell list" where
  "notify_lobby_cells rooms =
     header_cells (lobby_info_length rooms) NOTIFY_LOBBY_INFO None
       @ int_cells (int (length rooms)) @ concat (map int_cells rooms)"

lemma length_concat_int_cells [simp]: "length (concat (map int_cells rooms)) = 4 * length rooms"
  by (induction rooms) auto

lemma length_notify_lobby_cells: "length (notify_lobby_cells rooms) = lobby_info_length rooms"
  by (simp add: notify_lobby_cells_def lobby_info_length_def packet_sizes)

text \<open>\<open>ACK_ROOM_INFO_PACKET\<close> as it is sent: the first eleven bytes of the struct (header,
  result, \<open>UserCount\<close>), then the user ids, each with a NUL.\<close>

definition member_cells :: "bytes list \<Rightarrow> cell list" where
  "member_cells ids = concat (map (\<lambda>s. map Some s @ [Some 0]) ids)"

definition room_info_length :: "bytes list \<Rightarrow> nat" where
  "room_info_length ids = PACKET_HEADER_LENGTH + 2 + 4 + sum_list (map (\<lambda>s. length s + 1) ids)"

definition ack_room_info_cells :: "RESULT_CODE \<Rightarrow> bytes list \<Rightarrow> cell list" where
  "ack_room_info_cells rc ids =
     header_cells (room_info_length ids) ACK_ROOM_INFO None
       @ map Some (le16 (result_code rc)) @ int_cells (int (length ids)) @ member_cells ids"

lemma length_member_cells: "length (member_cells ids) = sum_list (map (\<lambda>s. length s + 1) ids)"
  by (induction ids) (auto simp: member_cells_def)

lemma length_ack_room_info_cells: "length (ack_room_info_cells rc ids) = room_info_length ids"
  by (simp add: ack_room_info_cells_def room_info_length_def packet_sizes length_member_cells)

section \<open>Reading requests\<close>

text \<open>Field offsets in the request structs, relative to the start of the packet.\<close>

definition off_UserID :: nat where
  "off_UserID = PACKET_HEADER_LENGTH"

definition off_UserPW :: nat where
  "off_UserPW = PACKET_HEADER_LENGTH + (MAX_USER_ID_LEN + 1)"

definition off_RoomNumber :: nat where
  "off_RoomNumber = PACKET_HEADER_LENGTH"

definition off_Message :: nat where
  "off_Message = PACKET_HEADER_LENGTH"

lemmas packet_offsets = off_UserID_def off_UserPW_def off_RoomNumber_def off_Message_def

text \<open>\<open>std::string userID(packet->UserID)\<close> through a pointer into the packet buffer.\<close>

definition read_string :: "nat \<Rightarrow> cell list \<Rightarrow> bytes result" where
  "read_string off mem = cstr (drop off mem)"

lemma read_string_drop: "read_string (p + off) mem = read_string off (drop p mem)"
  by (simp add: read_string_def add.commute)

text \<open>The client's image of a request with two fixed-width string fields.\<close>

definition pad_field :: "nat \<Rightarrow> bytes \<Rightarrow> bytes" where
  "pad_field n s = s @ replicate (n - length s) 0"

definition account_request :: "PACKET_ID \<Rightarrow> u8 \<Rightarrow> bytes \<Rightarrow> bytes \<Rightarrow> bytes" where
  "account_request p type uid pw =
     le16 (of_nat REQ_LOGIN_PACKET_SIZE) @ le16 (pid16 p) @ [type]
       @ pad_field (MAX_USER_ID_LEN + 1) uid @ pad_field (MAX_USER_PW_LEN + 1) pw"

lemma length_account_request:
  "length uid \<le> 11 \<Longrightarrow> length pw \<le> 11 \<Longrightarrow> length (account_request p t uid pw) = REQ_LOGIN_PACKET_SIZE"
  by (simp add: account_request_def pad_field_def packet_sizes)

lemma pad_field_terminated:
  assumes "length s < n"
  shows "\<exists>zs. pad_field n s = s @ 0 # zs"
proof -
  obtain k where "n - length s = Suc k"
    using assms by (cases "n - length s") auto
  then show ?thesis
    by (simp add: pad_field_def)
qed

text \<open>Where a request sits in a buffer, its two strings are read back.\<close>

lemma read_account_request:
  assumes mem: "drop off mem = map Some (account_request p t uid pw) @ rest"
    and uid: "0 \<notin> set uid" "length uid \<le> MAX_USER_ID_LEN"
    and pw: "0 \<notin> set pw" "length pw \<le> MAX_USER_PW_LEN"
  shows "read_string (off + off_UserID) mem = Inr uid"
    and "read_string (off + off_UserPW) mem = Inr pw"
proof -
  obtain zs where zs: "pad_field 11 uid = uid @ 0 # zs"
    using pad_field_terminated[of uid 11] uid(2) by (auto simp: packet_sizes)
  obtain ys where ys: "pad_field 11 pw = pw @ 0 # ys"
    using pad_field_terminated[of pw 11] pw(2) by (auto simp: packet_sizes)
  have len: "length (pad_field 11 uid) = 11"
    using uid(2) by (simp add: pad_field_def packet_sizes)
  have d: "drop (off + k) mem = drop k (drop off mem)" for k
    by (simp add: add.commute)
  have "drop (off + off_UserID) mem = map Some uid @ Some 0 # map Some zs @ map Some (pad_field 11 pw) @ rest"
    unfolding d mem by (simp add: account_request_def packet_sizes packet_offsets zs le16_def)
  then show "read_string (off + off_UserID) mem = Inr uid"
    using uid(1) by (simp add: read_string_def cstr_terminated)
  have "drop (off + off_UserPW) mem = map Some (pad_field 11 pw) @ rest"
    unfolding d mem using len by (simp add: account_request_def packet_sizes packet_offsets le16_def)
  then show "read_string (off + off_UserPW) mem = Inr pw"
    using pw(1) ys by (simp add: read_string_def cstr_terminated)
qed

section \<open>Reading the server's lists\<close>

text \<open>How the receiver of a list packet takes it apart: \<open>n\<close> 32-bit integers, \<open>n\<close> strings that
  end at their NUL.\<close>

fun parse_ints :: "nat \<Rightarrow> cell list \<Rightarrow> int list result" where
  "parse_ints 0 cs = Inr []"
| "parse_ints (Suc n) cs =
     bindr (read_u32 0 cs) (\<lambda>w. bindr (parse_ints n (drop 4 cs)) (\<lambda>ws. Inr (sint w # ws)))"

fun parse_strings :: "nat \<Rightarrow> cell list \<Rightarrow> bytes list result" where
  "parse_strings 0 cs = Inr []"
| "parse_strings (Suc n) cs =
     bindr (cstr cs) (\<lambda>s. bindr (parse_strings n (drop (length s + 1) cs)) (\<lambda>ss. Inr (s # ss)))"

definition parse_lobby :: "cell list \<Rightarrow> int list result" where
  "parse_lobby cs = bindr (read_u32 5 cs) (\<lambda>n. parse_ints (unat n) (drop 9 cs))"

definition parse_room_info :: "cell list \<Rightarrow> bytes list result" where
  "parse_room_info cs = bindr (read_u32 7 cs) (\<lambda>n. parse_strings (unat n) (drop 11 cs))"

definition fits_int :: "int \<Rightarrow> bool" where
  "fits_int n \<longleftrightarrow> - (2 ^ 31) \<le> n \<and> n < 2 ^ 31"

lemma read_u32_int_cells: "read_u32 0 (int_cells n @ cs) = Inr (word_of_int n)"
  using read_u32_block[of 0 "int_cells n @ cs" "le32 (word_of_int n)"]
  by (simp add: int_cells_def block_def wire_simps)

lemma sint_fits: "fits_int n \<Longrightarrow> sint (word_of_int n :: u32) = n"
  by (simp add: fits_int_def signed_of_int signed_take_bit_int_eq_self)

lemma parse_ints_cells:
  "\<forall>n \<in> set ns. fits_int n \<Longrightarrow> parse_ints (length ns) (concat (map int_cells ns) @ cs) = Inr ns"
  by (induction ns) (auto simp: read_u32_int_cells sint_fits)

lemma parse_strings_cells:
  "\<forall>s \<in> set ss. 0 \<notin> set s \<Longrightarrow> parse_strings (length ss) (member_cells ss @ cs) = Inr ss"
  by (induction ss) (auto simp: member_cells_def cstr_terminated)

lemma unat_of_length: "n < 2 ^ 31 \<Longrightarrow> unat (word_of_int (int n) :: u32) = n"
  using unat_of_nat_u32[of n] by simp

lemma read_u32_at: "length pre = k \<Longrightarrow> read_u32 k (pre @ int_cells n @ cs) = Inr (word_of_int n)"
  using read_u32_block[of k "pre @ int_cells n @ cs" "le32 (word_of_int n)"]
  by (simp add: int_cells_def block_def wire_simps)

lemma parse_lobby_cells:
  assumes "\<forall>n \<in> set ns. fits_int n" and "length ns < 2 ^ 31"
  shows "parse_lobby (notify_lobby_cells ns) = Inr ns"
  using parse_ints_cells[OF assms(1), of "[]"] unat_of_length[OF assms(2)]
    read_u32_at[of "header_cells (lobby_info_length ns) NOTIFY_LOBBY_INFO None" 5]
  by (simp add: parse_lobby_def notify_lobby_cells_def)

lemma parse_room_info_cells:
  assumes "\<forall>s \<in> set ss. 0 \<notin> set s" and "length ss < 2 ^ 31"
  shows "parse_room_info (ack_room_info_cells rc ss) = Inr ss"
  using parse_strings_cells[OF assms(1), of "[]"] unat_of_length[OF assms(2)]
    read_u32_at[of "header_cells (room_info_length ss) ACK_ROOM_INFO None @ map Some (le16 (result_code rc))" 7]
  by (simp add: parse_room_info_def ack_room_info_cells_def)

end
