(* ===== verification/Users.thy ===== *)
theory Users
  imports Packets
begin

text \<open>
  The session object of a client: \<open>User\<close> (\<open>User.h\<close>, \<open>User.cpp\<close>) without its packet
  buffer operations, and the state objects \<open>UserState*\<close>. The closures that the state objects
  store in \<open>recvFuntionDictionary\<close> are named by the handler they call (\<open>recv_fun\<close>), the
  handlers themselves are in theory \<open>Handlers\<close>. A function object that was set to the server's
  send lambda is \<open>Some ChatServer_SendMsg\<close>, an empty one \<open>None\<close>.
\<close>

section \<open>Session states\<close>

datatype UserState =
    NoneState | Connected | Disconnect | InLobby | RoomEnter | InRoom | RoomExit

text \<open>The enumerators' values; \<open>std::map<UserState, ...>\<close> orders its keys by them.\<close>

fun UserState_rank :: "UserState \<Rightarrow> nat" where
  "UserState_rank NoneState = 0"
| "UserState_rank Connected = 1"
| "UserState_rank Disconnect = 2"
| "UserState_rank InLobby = 3"
| "UserState_rank RoomEnter = 4"
| "UserState_rank InRoom = 5"
| "UserState_rank RoomExit = 6"

lemma UserState_rank_inj: "UserState_rank s = UserState_rank t \<Longrightarrow> s = t"
  by (cases s; cases t; simp)

instantiation UserState :: linorder
begin

definition less_eq_UserState :: "UserState \<Rightarrow> UserState \<Rightarrow> bool" where
  "less_eq_UserState s t \<longleftrightarrow> UserState_rank s \<le> UserState_rank t"

definition less_UserState :: "UserState \<Rightarrow> UserState \<Rightarrow> bool" where
  "less_UserState s t \<longleftrightarrow> UserState_rank s < UserState_rank t"

instance
  by standard (auto simp: less_eq_UserState_def less_UserState_def dest: UserState_rank_inj)

end

text \<open>The subclasses of \<open>UserStateBase\<close> and the closures they install.\<close>

datatype state_obj =
    UserStateNone | UserStateConnected | UserStateDisConnect | UserStateInLobby | UserStateInRoom

datatype recv_fun =
    RecvNothing
  | Connected_ProcessCreateAccount
  | Connected_ProcessLogin
  | InLobby_ProcessLobbyInfo
  | InLobby_ProcessEnterRoom
  | InRoom_ProcessRoomInfo
  | InRoom_ProcessLeaveRoom
  | InRoom_ProcessRoomChatMessage

datatype sink = ChatServer_SendMsg

section \<open>The session object\<close>

definition PACKET_DATA_BUFFER_SIZE :: nat where
  "PACKET_DATA_BUFFER_SIZE = 8096"

record user =
  mIndex :: int
  mRoomIndex :: int
  mUserID :: bytes
  mIsConfirm :: bool
  mAuthToken :: bytes
  mState :: UserState
  mStates :: "UserState \<rightharpoonup> state_obj"
  recvFuntionDictionary :: "int \<rightharpoonup> recv_fun"
  sendPacketFunc :: "sink option"
  mPacketDataBufferWPos :: u32
  mPacketDataBufferRPos :: u32
  mPacketDataBuffer :: "cell list"

text \<open>\<open>new User()\<close>: the members' initialisers; \<open>mState\<close> has none, but value-initialisation
  of a class whose default constructor is defaulted zeroes it first.\<close>

definition new_User :: user where
  "new_User = \<lparr>mIndex = -1, mRoomIndex = -1, mUserID = [], mIsConfirm = False, mAuthToken = [],
     mState = NoneState, mStates = Map.empty, recvFuntionDictionary = Map.empty,
     sendPacketFunc = None, mPacketDataBufferWPos = 0, mPacketDataBufferRPos = 0,
     mPacketDataBuffer = []\<rparr>"

definition ResetRecvFunction :: "user \<Rightarrow> user" where
  "ResetRecvFunction u = u\<lparr>recvFuntionDictionary := (recvFuntionDictionary u)
     (packet_id REQ_CREATE_ACCOUNT \<mapsto> RecvNothing,
      packet_id REQ_LOGIN \<mapsto> RecvNothing,
      packet_id REQ_LOBBY_INFO \<mapsto> RecvNothing,
      packet_id REQ_ROOM_ENTER \<mapsto> RecvNothing,
      packet_id REQ_ROOM_INFO \<mapsto> RecvNothing,
      packet_id REQ_ROOM_LEAVE \<mapsto> RecvNothing,
      packet_id REQ_ROOM_CHAT \<mapsto> RecvNothing)\<rparr>"

text \<open>The virtual \<open>Enter\<close> and \<open>Exit\<close> of the state objects; \<open>Execute\<close> is empty everywhere
  and never called.\<close>

definition UserStateConnected_Enter :: "user \<Rightarrow> user" where [simp]:
  "UserStateConnected_Enter mUser =
     (let u1 = ResetRecvFunction mUser in
      u1\<lparr>recvFuntionDictionary := (recvFuntionDictionary u1)
        (packet_id REQ_CREATE_ACCOUNT \<mapsto> Connected_ProcessCreateAccount,
         packet_id REQ_LOGIN \<mapsto> Connected_ProcessLogin)\<rparr>)"

definition UserStateInLobby_Enter :: "user \<Rightarrow> user" where [simp]:
  "UserStateInLobby_Enter mUser =
     (let u1 = ResetRecvFunction mUser in
      u1\<lparr>recvFuntionDictionary := (recvFuntionDictionary u1)
        (packet_id REQ_LOBBY_INFO \<mapsto> InLobby_ProcessLobbyInfo,
         packet_id REQ_ROOM_ENTER \<mapsto> InLobby_ProcessEnterRoom)\<rparr>)"

definition UserStateInRoom_Enter :: "user \<Rightarrow> user" where [simp]:
  "UserStateInRoom_Enter mUser =
     (let u1 = ResetRecvFunction mUser in
      u1\<lparr>recvFuntionDictionary := (recvFuntionDictionary u1)
        (packet_id REQ_ROOM_INFO \<mapsto> InRoom_ProcessRoomInfo,
         packet_id REQ_ROOM_LEAVE \<mapsto> InRoom_ProcessLeaveRoom,
         packet_id REQ_ROOM_CHAT \<mapsto> InRoom_ProcessRoomChatMessage)\<rparr>)"

definition UserStateNone_Enter :: "user \<Rightarrow> user" where [simp]:
  "UserStateNone_Enter mUser = mUser"

definition UserStateDisConnect_Enter :: "user \<Rightarrow> user" where [simp]:
  "UserStateDisConnect_Enter mUser = mUser"

fun state_Enter :: "state_obj \<Rightarrow> user \<Rightarrow> user" where
  "state_Enter UserStateNone u = UserStateNone_Enter u"
| "state_Enter UserStateConnected u = UserStateConnected_Enter u"
| "state_Enter UserStateDisConnect u = UserStateDisConnect_Enter u"
| "state_Enter UserStateInLobby u = UserStateInLobby_Enter u"
| "state_Enter UserStateInRoom u = UserStateInRoom_Enter u"

definition UserStateNone_Exit :: "user \<Rightarrow> user" where [simp]:
  "UserStateNone_Exit mUser = mUser"

definition UserStateConnected_Exit :: "user \<Rightarrow> user" where [simp]:
  "UserStateConnected_Exit mUser = mUser"

definition UserStateDisConnect_Exit :: "user \<Rightarrow> user" where [simp]:
  "UserStateDisConnect_Exit mUser = mUser"

definition UserStateInLobby_Exit :: "user \<Rightarrow> user" where [simp]:
  "UserStateInLobby_Exit mUser = mUser"

definition UserStateInRoom_Exit :: "user \<Rightarrow> user" where [simp]:
  "UserStateInRoom_Exit mUser = mUser"

fun state_Exit :: "state_obj \<Rightarrow> user \<Rightarrow> user" where
  "state_Exit UserStateNone u = UserStateNone_Exit u"
| "state_Exit UserStateConnected u = UserStateConnected_Exit u"
| "state_Exit UserStateDisConnect u = UserStateDisConnect_Exit u"
| "state_Exit UserStateInLobby u = UserStateInLobby_Exit u"
| "state_Exit UserStateInRoom u = UserStateInRoom_Exit u"

text \<open>\<open>mStates[s]->...\<close>: a state without an object yields a null pointer.\<close>

definition ChangeState :: "UserState \<Rightarrow> user \<Rightarrow> user result" where
  "ChangeState newState u =
     (if newState = NoneState then Inr u
      else case mStates u (mState u) of
        None \<Rightarrow> Inl NullDeref
      | Some old \<Rightarrow>
          let u1 = (state_Exit old u)\<lparr>mState := newState\<rparr> in
          (case mStates u1 (mState u1) of
             None \<Rightarrow> Inl NullDeref
           | Some new \<Rightarrow> Inr (state_Enter new u1)))"

definition state_table :: "UserState \<rightharpoonup> state_obj" where
  "state_table = [NoneState \<mapsto> UserStateNone, Connected \<mapsto> UserStateConnected,
     Disconnect \<mapsto> UserStateDisConnect, InLobby \<mapsto> UserStateInLobby, InRoom \<mapsto> UserStateInRoom]"

definition User_Init :: "int \<Rightarrow> user \<Rightarrow> user result" where
  "User_Init index u =
     bindr (ChangeState NoneState
       (u\<lparr>mIndex := index, mPacketDataBuffer := replicate PACKET_DATA_BUFFER_SIZE None,
          mStates := mStates u ++ state_table\<rparr>))
     (\<lambda>u1. Inr (ResetRecvFunction u1))"

definition User_Clear :: "user \<Rightarrow> user result" where
  "User_Clear u =
     bindr (ChangeState NoneState (u\<lparr>mRoomIndex := -1, mUserID := [], mIsConfirm := False\<rparr>))
     (\<lambda>u1. Inr ((ResetRecvFunction u1)\<lparr>mPacketDataBufferWPos := 0, mPacketDataBufferRPos := 0\<rparr>))"

definition SetLogin :: "bytes \<Rightarrow> user \<Rightarrow> user result" where
  "SetLogin userID u = bindr (ChangeState InLobby u) (\<lambda>u1. Inr (u1\<lparr>mUserID := userID\<rparr>))"

text \<open>\<open>recvFuntionDictionary[key](...)\<close>: \<open>operator[]\<close> would create an empty function object
  for a missing key, and calling that throws.\<close>

definition recv_lookup :: "PACKET_ID \<Rightarrow> user \<Rightarrow> recv_fun result" where
  "recv_lookup p u = (case recvFuntionDictionary u (packet_id p) of
     None \<Rightarrow> Inl BadFunctionCall | Some f \<Rightarrow> Inr f)"

section \<open>The class invariant\<close>

text \<open>The seven requests a session can be asked to handle.\<close>

definition requests :: "PACKET_ID list" where
  "requests = [REQ_CREATE_ACCOUNT, REQ_LOGIN, REQ_LOBBY_INFO, REQ_ROOM_ENTER, REQ_ROOM_INFO,
     REQ_ROOM_LEAVE, REQ_ROOM_CHAT]"

text \<open>The handler a session in a given state has for a request, as a table of its own.\<close>

fun allowed :: "UserState \<Rightarrow> PACKET_ID \<Rightarrow> recv_fun" where
  "allowed Connected REQ_CREATE_ACCOUNT = Connected_ProcessCreateAccount"
| "allowed Connected REQ_LOGIN = Connected_ProcessLogin"
| "allowed InLobby REQ_LOBBY_INFO = InLobby_ProcessLobbyInfo"
| "allowed InLobby REQ_ROOM_ENTER = InLobby_ProcessEnterRoom"
| "allowed InRoom REQ_ROOM_INFO = InRoom_ProcessRoomInfo"
| "allowed InRoom REQ_ROOM_LEAVE = InRoom_ProcessLeaveRoom"
| "allowed InRoom REQ_ROOM_CHAT = InRoom_ProcessRoomChatMessage"
| "allowed _ _ = RecvNothing"

definition live_states :: "UserState set" where
  "live_states = {NoneState, Connected, InLobby, InRoom}"

text \<open>
  \<open>session_table u\<close>: every request has a function object, which is the one of the current state,
  or, after \<open>Clear\<close> (which resets the table but cannot leave the state), does nothing.
\<close>

definition cleared :: "user \<Rightarrow> bool" where
  "cleared u \<longleftrightarrow> (\<forall>p \<in> set requests. recvFuntionDictionary u (packet_id p) = Some RecvNothing)"

definition in_state :: "user \<Rightarrow> bool" where
  "in_state u \<longleftrightarrow>
     (\<forall>p \<in> set requests. recvFuntionDictionary u (packet_id p) = Some (allowed (mState u) p))"

definition user_ok :: "user \<Rightarrow> bool" where
  "user_ok u \<longleftrightarrow> mStates u = state_table \<and> mState u \<in> live_states \<and> (cleared u \<or> in_state u)
     \<and> length (mPacketDataBuffer u) = PACKET_DATA_BUFFER_SIZE"

lemmas session_defs = cleared_def in_state_def requests_def live_states_def

text \<open>Which fields the operations touch.\<close>

lemma ResetRecvFunction_sel [simp]:
  "mIndex (ResetRecvFunction u) = mIndex u"
  "mRoomIndex (ResetRecvFunction u) = mRoomIndex u"
  "mUserID (ResetRecvFunction u) = mUserID u"
  "mIsConfirm (ResetRecvFunction u) = mIsConfirm u"
  "mState (ResetRecvFunction u) = mState u"
  "mStates (ResetRecvFunction u) = mStates u"
  "sendPacketFunc (ResetRecvFunction u) = sendPacketFunc u"
  "mPacketDataBufferWPos (ResetRecvFunction u) = mPacketDataBufferWPos u"
  "mPacketDataBufferRPos (ResetRecvFunction u) = mPacketDataBufferRPos u"
  "mPacketDataBuffer (ResetRecvFunction u) = mPacketDataBuffer u"
  by (simp_all add: ResetRecvFunction_def)

lemma state_Exit_id [simp]: "state_Exit so u = u"
  by (cases so) auto

lemma state_Enter_sel [simp]:
  "mIndex (state_Enter so u) = mIndex u"
  "mRoomIndex (state_Enter so u) = mRoomIndex u"
  "mUserID (state_Enter so u) = mUserID u"
  "mState (state_Enter so u) = mState u"
  "mStates (state_Enter so u) = mStates u"
  "sendPacketFunc (state_Enter so u) = sendPacketFunc u"
  "mPacketDataBufferWPos (state_Enter so u) = mPacketDataBufferWPos u"
  "mPacketDataBufferRPos (state_Enter so u) = mPacketDataBufferRPos u"
  "mPacketDataBuffer (state_Enter so u) = mPacketDataBuffer u"
  by (cases so; simp add: Let_def)+

lemma cleared_ResetRecvFunction [simp]: "cleared (ResetRecvFunction u)"
  by (simp add: session_defs ResetRecvFunction_def)

lemma in_state_Enter:
  "state_table (mState u) = Some so \<Longrightarrow> mState u \<in> {Connected, InLobby, InRoom} \<Longrightarrow> in_state (state_Enter so u)"
  by (auto simp: session_defs state_table_def ResetRecvFunction_def Let_def)

text \<open>A change of state succeeds in every session that is set up, and installs the table of the
  new state.\<close>

lemma ChangeState_None [simp]: "ChangeState NoneState u = Inr u"
  by (simp add: ChangeState_def)

lemma ChangeState_ok:
  assumes "user_ok u" and "s \<in> {Connected, InLobby, InRoom}"
  obtains u' where "ChangeState s u = Inr u'" and "user_ok u'" and "in_state u'" and "mState u' = s"
    and "mUserID u' = mUserID u" and "mIndex u' = mIndex u" and "mRoomIndex u' = mRoomIndex u"
    and "sendPacketFunc u' = sendPacketFunc u"
    and "mPacketDataBuffer u' = mPacketDataBuffer u"
    and "mPacketDataBufferWPos u' = mPacketDataBufferWPos u"
    and "mPacketDataBufferRPos u' = mPacketDataBufferRPos u"
proof -
  obtain so where so: "mStates u (mState u) = Some so"
    using assms(1) by (auto simp: user_ok_def state_table_def live_states_def)
  obtain so' where so': "state_table s = Some so'"
    using assms(2) by (auto simp: state_table_def)
  let ?u = "state_Enter so' (u\<lparr>mState := s\<rparr>)"
  have "ChangeState s u = Inr ?u"
    using assms so so' by (auto simp: ChangeState_def user_ok_def Let_def)
  moreover have in_st: "in_state ?u"
    using assms(2) so' by (intro in_state_Enter) auto
  moreover have "user_ok ?u"
    using assms in_st by (auto simp: user_ok_def live_states_def)
  ultimately show thesis
    by (intro that[of ?u]) auto
qed

lemma User_Clear_eq:
  "User_Clear u = Inr ((ResetRecvFunction (u\<lparr>mRoomIndex := -1, mUserID := [], mIsConfirm := False\<rparr>))
     \<lparr>mPacketDataBufferWPos := 0, mPacketDataBufferRPos := 0\<rparr>)"
  by (simp add: User_Clear_def)

lemma cleared_buffer_upd [simp]:
  "cleared (u\<lparr>mPacketDataBufferWPos := w, mPacketDataBufferRPos := r\<rparr>) = cleared u"
  by (simp add: cleared_def)

lemma User_Clear_ok:
  assumes "user_ok u" and "User_Clear u = Inr u'"
  shows "user_ok u'" and "cleared u'" and "mUserID u' = []" and "mRoomIndex u' = -1"
    and "mState u' = mState u" and "mIndex u' = mIndex u" and "sendPacketFunc u' = sendPacketFunc u"
    and "mPacketDataBufferWPos u' = 0" and "mPacketDataBufferRPos u' = 0"
  using assms by (auto simp: User_Clear_eq user_ok_def)

lemma User_Init_ok:
  assumes "User_Init i new_User = Inr u"
  shows "user_ok u" and "mIndex u = i" and "mState u = NoneState" and "mUserID u = []"
    and "mPacketDataBufferWPos u = 0" and "mPacketDataBufferRPos u = 0"
  using assms by (auto simp: User_Init_def new_User_def user_ok_def live_states_def)

text \<open>The session object after \<open>new User()\<close> and \<open>Init(i, ...)\<close>.\<close>

definition fresh_session :: "int \<Rightarrow> user" where
  "fresh_session i = ResetRecvFunction (new_User\<lparr>mIndex := i,
     mPacketDataBuffer := replicate PACKET_DATA_BUFFER_SIZE None, mStates := state_table\<rparr>)"

lemma User_Init_fresh: "User_Init i new_User = Inr (fresh_session i)"
  by (simp add: User_Init_def fresh_session_def new_User_def)

lemmas fresh_session_ok = User_Init_ok[OF User_Init_fresh]

lemma fresh_session_sel [simp]:
  "mIndex (fresh_session i) = i" "mRoomIndex (fresh_session i) = -1" "mUserID (fresh_session i) = []"
  "mState (fresh_session i) = NoneState" "sendPacketFunc (fresh_session i) = None"
  "mPacketDataBufferWPos (fresh_session i) = 0" "mPacketDataBufferRPos (fresh_session i) = 0"
  "length (mPacketDataBuffer (fresh_session i)) = PACKET_DATA_BUFFER_SIZE"
  by (simp_all add: fresh_session_def new_User_def)

end
