(* ===== verification/Packet_Buffer.thy ===== *)
theory Packet_Buffer
  imports Users
begin

text \<open>
  The receive buffer of a session: \<open>User::SetPacketData\<close>, which appends what the socket
  delivered, and \<open>User::GetPacket\<close>, which cuts one packet off. Positions are 32-bit words, the
  buffer is 8096 cells, and every copy is bounds-checked, so an overflow is a fault of the model.

  The abstract contract is a stream of bytes: \<open>SetPacketData\<close> appends to it and
  \<open>GetPacket\<close> refines \<open>spec_get\<close>, the split of the first packet. The locale
  \<open>packet_stream\<close> states that contract; what follows from it for any order of the two operations
  is proved there once and interpreted on the two operations of the code.
\<close>

section \<open>The operations\<close>

text \<open>
  \<open>CopyMemory\<close> is \<open>memcpy\<close>: its behaviour is documented for disjoint regions only. A platform
  that copies overlapping regions as \<open>memmove\<close> would is \<open>Tolerates_overlap\<close>.
\<close>

datatype memcpy_mode = Disjoint_only | Tolerates_overlap

definition copy_to_front :: "memcpy_mode \<Rightarrow> nat \<Rightarrow> nat \<Rightarrow> cell list \<Rightarrow> cell list result" where
  "copy_to_front m src n mem =
     (if m = Disjoint_only \<and> src < n then Inl OverlappingCopy
      else bindr (read_cells src n mem) (\<lambda>cs. write_cells 0 cs mem))"

definition SetPacketData :: "memcpy_mode \<Rightarrow> u32 \<Rightarrow> cell list \<Rightarrow> user \<Rightarrow> user result" where
  "SetPacketData m dataSize pData u =
     bindr
       (if mPacketDataBufferWPos u + dataSize \<ge> of_nat PACKET_DATA_BUFFER_SIZE then
          let remainDataSize = mPacketDataBufferWPos u - mPacketDataBufferRPos u in
          bindr
            (if remainDataSize > 0 then
               bindr (copy_to_front m (unat (mPacketDataBufferRPos u)) (unat remainDataSize)
                        (mPacketDataBuffer u))
                 (\<lambda>buf. Inr (u\<lparr>mPacketDataBuffer := buf, mPacketDataBufferWPos := remainDataSize\<rparr>))
             else Inr (u\<lparr>mPacketDataBufferWPos := 0\<rparr>))
            (\<lambda>u1. Inr (u1\<lparr>mPacketDataBufferRPos := 0\<rparr>))
        else Inr u)
       (\<lambda>u1. bindr (read_cells 0 (unat dataSize) pData)
         (\<lambda>cs. bindr (write_cells (unat (mPacketDataBufferWPos u1)) cs (mPacketDataBuffer u1))
           (\<lambda>buf. Inr (u1\<lparr>mPacketDataBuffer := buf,
              mPacketDataBufferWPos := mPacketDataBufferWPos u1 + dataSize\<rparr>))))"

definition GetPacket :: "user \<Rightarrow> (PacketInfo \<times> user) result" where
  "GetPacket u =
     (let remainByte = mPacketDataBufferWPos u - mPacketDataBufferRPos u;
          rpos = unat (mPacketDataBufferRPos u) in
      if remainByte < of_nat PACKET_HEADER_LENGTH then Inr (empty_PacketInfo, u)
      else bindr (read_u16 rpos (mPacketDataBuffer u)) (\<lambda>len.
        if (ucast len :: u32) > remainByte then Inr (empty_PacketInfo, u)
        else bindr (read_u16 (rpos + 2) (mPacketDataBuffer u)) (\<lambda>pid.
          Inr (empty_PacketInfo\<lparr>PacketId := pid, DataSize := len, pDataPtr := Some rpos\<rparr>,
               u\<lparr>mPacketDataBufferRPos := mPacketDataBufferRPos u + ucast len\<rparr>))))"

section \<open>The abstract stream\<close>

text \<open>The unread part of the buffer, and the invariant of the two positions: the unread part lies
  inside the buffer and every cell of it was written.\<close>

definition unread :: "user \<Rightarrow> cell list" where
  "unread u = block (unat (mPacketDataBufferRPos u))
     (unat (mPacketDataBufferWPos u) - unat (mPacketDataBufferRPos u)) (mPacketDataBuffer u)"

definition stream :: "user \<Rightarrow> bytes" where
  "stream u = map the (unread u)"

definition buffer_ok :: "user \<Rightarrow> bool" where
  "buffer_ok u \<longleftrightarrow> length (mPacketDataBuffer u) = PACKET_DATA_BUFFER_SIZE
     \<and> unat (mPacketDataBufferRPos u) \<le> unat (mPacketDataBufferWPos u)
     \<and> unat (mPacketDataBufferWPos u) \<le> PACKET_DATA_BUFFER_SIZE
     \<and> None \<notin> set (unread u)"

text \<open>The bytes a \<open>PacketInfo\<close> points at.\<close>

definition packet_cells :: "user \<Rightarrow> PacketInfo \<Rightarrow> cell list option" where
  "packet_cells u p = map_option (\<lambda>off. block off (unat (DataSize p)) (mPacketDataBuffer u)) (pDataPtr p)"

text \<open>The first packet of a stream: five header bytes must be there, and as many bytes as the
  length field says.\<close>

definition spec_get :: "bytes \<Rightarrow> (bytes \<times> bytes) option" where
  "spec_get s =
     (if length s < PACKET_HEADER_LENGTH then None
      else let n = unat (of_le16 s) in if length s < n then None else Some (take n s, drop n s))"

lemma map_Some_the: "None \<notin> set cs \<Longrightarrow> map Some (map the cs) = cs"
  by (induction cs) auto

lemma unread_stream: "buffer_ok u \<Longrightarrow> unread u = map Some (stream u)"
  by (simp add: stream_def buffer_ok_def map_Some_the del: map_map)

lemma streamI: "unread u = map Some bs \<Longrightarrow> stream u = bs"
  by (simp add: stream_def comp_def)

lemma length_unread:
  "buffer_ok u \<Longrightarrow> length (unread u) = unat (mPacketDataBufferWPos u) - unat (mPacketDataBufferRPos u)"
  by (simp add: unread_def buffer_ok_def mem_simps)

lemma length_stream:
  "buffer_ok u \<Longrightarrow> length (stream u) = unat (mPacketDataBufferWPos u - mPacketDataBufferRPos u)"
  by (simp add: stream_def length_unread) (simp add: buffer_ok_def mem_simps)

subsection \<open>SetPacketData appends\<close>

text \<open>The two ways a session changes: bytes appended at the write position, and unread bytes
  moved to the front.\<close>

definition appended :: "bytes \<Rightarrow> user \<Rightarrow> user" where
  "appended bs u = u\<lparr>
     mPacketDataBuffer := blit (unat (mPacketDataBufferWPos u)) (map Some bs) (mPacketDataBuffer u),
     mPacketDataBufferWPos := mPacketDataBufferWPos u + of_nat (length bs)\<rparr>"

definition compacted :: "user \<Rightarrow> user" where
  "compacted u = u\<lparr>
     mPacketDataBuffer := blit 0 (unread u) (mPacketDataBuffer u),
     mPacketDataBufferWPos := mPacketDataBufferWPos u - mPacketDataBufferRPos u,
     mPacketDataBufferRPos := 0\<rparr>"

lemma appended_ok:
  assumes ok: "buffer_ok u" and fits: "unat (mPacketDataBufferWPos u) + length bs \<le> PACKET_DATA_BUFFER_SIZE"
  shows "buffer_ok (appended bs u)" and "stream (appended bs u) = stream u @ bs"
proof -
  let ?w = "unat (mPacketDataBufferWPos u)" and ?r = "unat (mPacketDataBufferRPos u)"
  let ?u = "appended bs u"
  have len: "length (mPacketDataBuffer u) = PACKET_DATA_BUFFER_SIZE" and rw: "?r \<le> ?w"
    using ok by (auto simp: buffer_ok_def)
  have small: "length bs < 2 ^ 32" "?w + length bs < 2 ^ 32"
    using fits by (auto simp: PACKET_DATA_BUFFER_SIZE_def)
  have w': "unat (mPacketDataBufferWPos u + of_nat (length bs)) = ?w + length bs"
    using small by (simp add: mem_simps)
  have "unread ?u = block ?r ((?w - ?r) + length (map Some bs)) (blit ?w (map Some bs) (mPacketDataBuffer u))"
    unfolding unread_def appended_def using w' rw by simp
  also have "\<dots> = unread u @ map Some bs"
    unfolding unread_def using rw fits len by (intro block_blit_extend) auto
  also have "\<dots> = map Some (stream u @ bs)"
    using ok by (simp add: unread_stream)
  finally have un: "unread ?u = map Some (stream u @ bs)" .
  then show "stream ?u = stream u @ bs"
    by (rule streamI)
  show "buffer_ok ?u"
    unfolding buffer_ok_def un using len rw fits w' by (auto simp: appended_def mem_simps)
qed

lemma remain_unread: "buffer_ok u \<Longrightarrow> unat (mPacketDataBufferWPos u - mPacketDataBufferRPos u) = length (unread u)"
  by (simp add: length_unread) (simp add: buffer_ok_def mem_simps)

lemma unread_in_buffer:
  "buffer_ok u \<Longrightarrow> unat (mPacketDataBufferRPos u) + length (unread u) \<le> PACKET_DATA_BUFFER_SIZE"
  by (simp add: length_unread) (simp add: buffer_ok_def)

lemma compacted_ok:
  assumes ok: "buffer_ok u"
  shows "buffer_ok (compacted u)" and "stream (compacted u) = stream u"
    and "unat (mPacketDataBufferWPos (compacted u)) = length (unread u)"
proof -
  let ?u = "compacted u"
  note len = remain_unread[OF ok]
  have le: "length (unread u) \<le> length (mPacketDataBuffer u)"
    using unread_in_buffer[OF ok] ok by (simp add: buffer_ok_def)
  have "unread ?u = block 0 (length (unread u)) (blit 0 (unread u) (mPacketDataBuffer u))"
    by (subst unread_def) (simp add: compacted_def len)
  then have un: "unread ?u = unread u"
    using block_blit_same[of 0 "unread u" "mPacketDataBuffer u"] le by simp
  then show "stream ?u = stream u"
    by (simp add: stream_def)
  show "buffer_ok ?u"
    unfolding buffer_ok_def un using ok le len by (auto simp: compacted_def mem_simps buffer_ok_def)
  show "unat (mPacketDataBufferWPos ?u) = length (unread u)"
    using len by (simp add: compacted_def)
qed

text \<open>When the copy of the unread bytes to the front is defined.\<close>

definition can_compact :: "memcpy_mode \<Rightarrow> user \<Rightarrow> bool" where
  "can_compact m u \<longleftrightarrow> m = Tolerates_overlap \<or> length (unread u) \<le> unat (mPacketDataBufferRPos u)"

lemma copy_to_front_unread:
  assumes ok: "buffer_ok u"
  shows "copy_to_front m (unat (mPacketDataBufferRPos u)) (length (unread u)) (mPacketDataBuffer u)
     = (if can_compact m u then Inr (blit 0 (unread u) (mPacketDataBuffer u)) else Inl OverlappingCopy)"
proof -
  have len: "length (mPacketDataBuffer u) = PACKET_DATA_BUFFER_SIZE"
    using ok by (simp add: buffer_ok_def)
  have blk: "block (unat (mPacketDataBufferRPos u)) (length (unread u)) (mPacketDataBuffer u) = unread u"
    using ok by (simp add: length_unread) (simp add: unread_def)
  show ?thesis
    using unread_in_buffer[OF ok] len blk
    by (auto simp: copy_to_front_def can_compact_def read_cells_def write_cells_def intro: memcpy_mode.exhaust)
qed

text \<open>The first stage of \<open>SetPacketData\<close>: making space.\<close>

lemma make_space:
  assumes ok: "buffer_ok u"
  shows "(let remainDataSize = mPacketDataBufferWPos u - mPacketDataBufferRPos u in
          bindr
            (if remainDataSize > 0 then
               bindr (copy_to_front m (unat (mPacketDataBufferRPos u)) (unat remainDataSize)
                        (mPacketDataBuffer u))
                 (\<lambda>buf. Inr (u\<lparr>mPacketDataBuffer := buf, mPacketDataBufferWPos := remainDataSize\<rparr>))
             else Inr (u\<lparr>mPacketDataBufferWPos := 0\<rparr>))
            (\<lambda>u1. Inr (u1\<lparr>mPacketDataBufferRPos := 0\<rparr>)))
     = (if can_compact m u then Inr (compacted u) else Inl OverlappingCopy)"
proof (cases "mPacketDataBufferWPos u - mPacketDataBufferRPos u = 0")
  case True
  then have "unread u = []"
    using remain_unread[OF ok] by simp
  then show ?thesis
    using True by (simp add: can_compact_def compacted_def blit_def)
next
  case False
  then have "mPacketDataBufferWPos u - mPacketDataBufferRPos u > 0"
    by (simp add: word_greater_zero_iff)
  then show ?thesis
    using copy_to_front_unread[OF ok, of m] by (simp add: remain_unread[OF ok] compacted_def)
qed

text \<open>The second stage: the bounds-checked write.\<close>

lemma copy_in:
  assumes ok: "buffer_ok u1" and n: "length bs < 2 ^ 31"
  shows "bindr (read_cells 0 (unat (of_nat (length bs) :: u32)) (map Some bs))
         (\<lambda>cs. bindr (write_cells (unat (mPacketDataBufferWPos u1)) cs (mPacketDataBuffer u1))
           (\<lambda>buf. Inr (u1\<lparr>mPacketDataBuffer := buf,
              mPacketDataBufferWPos := mPacketDataBufferWPos u1 + of_nat (length bs)\<rparr>)))
     = (if unat (mPacketDataBufferWPos u1) + length bs \<le> PACKET_DATA_BUFFER_SIZE
        then Inr (appended bs u1) else Inl OutOfBoundsWrite)"
proof -
  have un: "unat (of_nat (length bs) :: u32) = length bs"
    using n by (intro unat_of_nat_u32) simp
  have "length (mPacketDataBuffer u1) = PACKET_DATA_BUFFER_SIZE"
    using ok by (simp add: buffer_ok_def)
  then show ?thesis
    unfolding un by (simp add: read_cells_def write_cells_def block_def appended_def)
qed

lemma wpos_test:
  assumes "buffer_ok u" and "n < 2 ^ 31"
  shows "(mPacketDataBufferWPos u + of_nat n \<ge> of_nat PACKET_DATA_BUFFER_SIZE)
      = (unat (mPacketDataBufferWPos u) + n \<ge> PACKET_DATA_BUFFER_SIZE)"
proof -
  have "unat (mPacketDataBufferWPos u + of_nat n) = unat (mPacketDataBufferWPos u) + n"
    using assms by (simp add: mem_simps buffer_ok_def PACKET_DATA_BUFFER_SIZE_def)
  then show ?thesis
    by (simp add: word_le_nat_alt PACKET_DATA_BUFFER_SIZE_def)
qed

text \<open>What a delivery of bytes does to a session, on every branch.\<close>

lemma SetPacketData_eq:
  assumes ok: "buffer_ok u" and n: "length bs < 2 ^ 31"
  shows "SetPacketData m (of_nat (length bs)) (map Some bs) u =
    (if unat (mPacketDataBufferWPos u) + length bs < PACKET_DATA_BUFFER_SIZE then Inr (appended bs u)
     else if \<not> can_compact m u then Inl OverlappingCopy
     else if length (unread u) + length bs \<le> PACKET_DATA_BUFFER_SIZE
       then Inr (appended bs (compacted u))
     else Inl OutOfBoundsWrite)"
proof (cases "PACKET_DATA_BUFFER_SIZE \<le> unat (mPacketDataBufferWPos u) + length bs")
  case True
  then show ?thesis
    unfolding SetPacketData_def
    using wpos_test[OF ok n] copy_in[OF compacted_ok(1)[OF ok] n]
    by (simp add: make_space[OF ok] compacted_ok(3)[OF ok] del: bindr.simps split: bindr_split)
next
  case False
  then show ?thesis
    unfolding SetPacketData_def using wpos_test[OF ok n] copy_in[OF ok n] by simp
qed

lemma SetPacketData_appends:
  assumes ok: "buffer_ok u" and n: "length bs < 2 ^ 31"
    and ret: "SetPacketData m (of_nat (length bs)) (map Some bs) u = Inr u'"
  shows "buffer_ok u'" and "stream u' = stream u @ bs"
  using ret appended_ok[OF ok, of bs] appended_ok[OF compacted_ok(1)[OF ok], of bs] compacted_ok[OF ok]
  unfolding SetPacketData_eq[OF ok n] by (auto split: if_splits)


subsection \<open>GetPacket splits\<close>

text \<open>A field of the unread part, read through the buffer.\<close>

lemma read_u16_unread:
  assumes ok: "buffer_ok u" and k: "k + 2 \<le> length (stream u)"
  shows "read_u16 (unat (mPacketDataBufferRPos u) + k) (mPacketDataBuffer u) = Inr (of_le16 (drop k (stream u)))"
proof -
  let ?r = "unat (mPacketDataBufferRPos u)"
  have len: "length (unread u) = length (stream u)"
    using ok by (simp add: unread_stream)
  have "block (?r + k) 2 (mPacketDataBuffer u) = block k 2 (unread u)"
    unfolding unread_def using k len length_unread[OF ok] by (subst block_block) auto
  also have "\<dots> = map Some (take 2 (drop k (stream u)))"
    by (simp add: unread_stream[OF ok] block_def take_map drop_map)
  finally have "read_u16 (?r + k) (mPacketDataBuffer u) = Inr (of_le16 (take 2 (drop k (stream u))))"
    using unread_in_buffer[OF ok] ok k len by (intro read_u16_block) (auto simp: buffer_ok_def)
  moreover have "of_le16 (take 2 (drop k (stream u))) = of_le16 (drop k (stream u))"
    using k by (cases "drop k (stream u)" rule: of_le16.cases) (auto dest: arg_cong[where f = length])
  ultimately show ?thesis by simp
qed

text \<open>Advancing the read position by \<open>n\<close> bytes.\<close>

definition advanced :: "u32 \<Rightarrow> user \<Rightarrow> user" where
  "advanced n u = u\<lparr>mPacketDataBufferRPos := mPacketDataBufferRPos u + n\<rparr>"

lemma advanced_ok:
  assumes ok: "buffer_ok u" and n: "unat n \<le> length (stream u)"
  shows "buffer_ok (advanced n u)" and "stream (advanced n u) = drop (unat n) (stream u)"
    and "block (unat (mPacketDataBufferRPos u)) (unat n) (mPacketDataBuffer (advanced n u))
           = map Some (take (unat n) (stream u))"
proof -
  let ?r = "unat (mPacketDataBufferRPos u)" and ?w = "unat (mPacketDataBufferWPos u)"
  let ?u = "advanced n u"
  have len: "length (stream u) = ?w - ?r"
    using length_unread[OF ok] by (simp add: stream_def)
  have r': "unat (mPacketDataBufferRPos u + n) = ?r + unat n"
    using ok n len by (intro unat_add_u32) (auto simp: buffer_ok_def PACKET_DATA_BUFFER_SIZE_def)
  have "unread ?u = block (?r + unat n) (?w - (?r + unat n)) (mPacketDataBuffer u)"
    by (simp add: unread_def advanced_def r')
  also have "\<dots> = drop (unat n) (unread u)"
    using n len by (simp add: unread_def block_def drop_take add.commute)
  also have "\<dots> = map Some (drop (unat n) (stream u))"
    by (simp add: unread_stream[OF ok] drop_map)
  finally have un: "unread ?u = map Some (drop (unat n) (stream u))" .
  then show "stream ?u = drop (unat n) (stream u)"
    by (rule streamI)
  show "buffer_ok ?u"
    unfolding buffer_ok_def un using ok n len r' by (auto simp: advanced_def buffer_ok_def)
  have "block ?r (unat n) (mPacketDataBuffer u) = take (unat n) (unread u)"
    using n len by (simp add: unread_def block_def)
  then show "block ?r (unat n) (mPacketDataBuffer ?u) = map Some (take (unat n) (stream u))"
    by (simp add: advanced_def unread_stream[OF ok] take_map)
qed

definition packet_at :: "user \<Rightarrow> PacketInfo" where
  "packet_at u = empty_PacketInfo\<lparr>PacketId := of_le16 (drop 2 (stream u)),
     DataSize := of_le16 (stream u), pDataPtr := Some (unat (mPacketDataBufferRPos u))\<rparr>"

text \<open>What \<open>GetPacket\<close> returns, on every branch.\<close>

lemma GetPacket_eq:
  assumes ok: "buffer_ok u"
  shows "GetPacket u =
    (case spec_get (stream u) of
       None \<Rightarrow> Inr (empty_PacketInfo, u)
     | Some (f, s) \<Rightarrow> Inr (packet_at u, advanced (ucast (of_le16 (stream u))) u))"
proof -
  let ?rem = "mPacketDataBufferWPos u - mPacketDataBufferRPos u"
  have rem: "unat ?rem = length (stream u)"
    using ok by (simp add: length_stream)
  have hdr: "?rem < of_nat PACKET_HEADER_LENGTH \<longleftrightarrow> length (stream u) < PACKET_HEADER_LENGTH"
    by (simp add: word_less_nat_alt rem packet_sizes)
  have lenf: "(ucast (w :: u16) :: u32) > ?rem \<longleftrightarrow> length (stream u) < unat w" for w
    by (simp add: word_less_nat_alt rem unat_ucast_u16_u32)
  have rd0: "read_u16 (unat (mPacketDataBufferRPos u)) (mPacketDataBuffer u) = Inr (of_le16 (stream u))"
    if "\<not> length (stream u) < PACKET_HEADER_LENGTH"
    using read_u16_unread[OF ok, of 0] that by (simp add: packet_sizes)
  have rd2: "read_u16 (unat (mPacketDataBufferRPos u) + 2) (mPacketDataBuffer u) = Inr (of_le16 (drop 2 (stream u)))"
    if "\<not> length (stream u) < PACKET_HEADER_LENGTH"
    using read_u16_unread[OF ok, of 2] that by (simp add: packet_sizes)
  show ?thesis
    unfolding GetPacket_def Let_def spec_get_def hdr
    by (simp add: rd0 rd2 lenf packet_at_def advanced_def del: add_2_eq_Suc')
qed

lemma GetPacket_refines:
  assumes ok: "buffer_ok u"
  obtains p u' where "GetPacket u = Inr (p, u')" and "buffer_ok u'"
    and "spec_get (stream u) = None \<Longrightarrow> packet_cells u' p = None \<and> stream u' = stream u"
    and "\<And>f s. spec_get (stream u) = Some (f, s) \<Longrightarrow>
           packet_cells u' p = Some (map Some f) \<and> stream u' = s"
proof (cases "spec_get (stream u)")
  case None
  then show thesis
    using GetPacket_eq[OF ok] ok
    by (intro that[of empty_PacketInfo u]) (auto simp: packet_cells_def empty_PacketInfo_def)
next
  case (Some fs)
  let ?n = "ucast (of_le16 (stream u)) :: u32"
  obtain f s where fs: "fs = (f, s)" by (cases fs)
  have n: "unat ?n \<le> length (stream u)" "f = take (unat ?n) (stream u)" "s = drop (unat ?n) (stream u)"
    using Some by (auto simp: spec_get_def Let_def fs unat_ucast_u16_u32 split: if_splits)
  have "GetPacket u = Inr (packet_at u, advanced ?n u)"
    using GetPacket_eq[OF ok] Some fs by simp
  then show thesis
    using advanced_ok[OF ok n(1)] n Some fs
    by (intro that[of "packet_at u" "advanced ?n u"])
       (auto simp: packet_cells_def packet_at_def unat_ucast_u16_u32)
qed


section \<open>Any order of deliveries and extractions\<close>

text \<open>
  The two operations run in any order: the socket delivers, the packet thread extracts. The run
  collects the packets that were extracted. It is generic in the operations, so that the same run
  makes sense on the session of the code and on the abstract stream.
\<close>

datatype buf_op = Deliver bytes | Extract

fun run_ops :: "(bytes \<Rightarrow> 'b \<Rightarrow> 'b result) \<Rightarrow> ('b \<Rightarrow> ('p \<times> 'b) result) \<Rightarrow> ('b \<Rightarrow> 'p \<Rightarrow> bytes option)
    \<Rightarrow> buf_op list \<Rightarrow> 'b \<Rightarrow> (bytes list \<times> 'b) result" where
  "run_ops put get view [] b = Inr ([], b)"
| "run_ops put get view (Deliver bs # ops) b = bindr (put bs b) (run_ops put get view ops)"
| "run_ops put get view (Extract # ops) b =
     bindr (get b) (\<lambda>(p, b'). bindr (run_ops put get view ops b') (\<lambda>(outs, b'').
       Inr ((case view b' p of None \<Rightarrow> outs | Some f \<Rightarrow> f # outs), b'')))"

fun delivered :: "buf_op list \<Rightarrow> bytes" where
  "delivered [] = []"
| "delivered (Deliver bs # ops) = bs @ delivered ops"
| "delivered (Extract # ops) = delivered ops"

fun op_within :: "nat \<Rightarrow> buf_op \<Rightarrow> bool" where
  "op_within n (Deliver bs) \<longleftrightarrow> length bs \<le> n"
| "op_within n Extract \<longleftrightarrow> True"

text \<open>The abstract machine: a byte stream.\<close>

fun spec_ops :: "buf_op list \<Rightarrow> bytes \<Rightarrow> bytes list \<times> bytes" where
  "spec_ops [] s = ([], s)"
| "spec_ops (Deliver bs # ops) s = spec_ops ops (s @ bs)"
| "spec_ops (Extract # ops) s =
     (case spec_get s of
        None \<Rightarrow> spec_ops ops s
      | Some (f, s') \<Rightarrow> (let (outs, s'') = spec_ops ops s' in (f # outs, s'')))"

text \<open>A frame is a packet whose length field is its length; a tail holds no complete packet.\<close>

definition frame :: "bytes \<Rightarrow> bool" where
  "frame f \<longleftrightarrow> PACKET_HEADER_LENGTH \<le> length f \<and> unat (of_le16 f) = length f"

lemma of_le16_append: "2 \<le> length f \<Longrightarrow> of_le16 (f @ s) = of_le16 f"
  by (cases f rule: of_le16.cases) auto

lemma spec_get_append:
  assumes "spec_get s = Some (f, s')"
  shows "spec_get (s @ d) = Some (f, s' @ d)"
  using assms by (auto simp: spec_get_def Let_def of_le16_append packet_sizes split: if_splits)

lemma spec_get_frame: "frame f \<Longrightarrow> spec_get (f @ s) = Some (f, s)"
  by (simp add: spec_get_def frame_def of_le16_append packet_sizes)

lemma spec_get_frames:
  assumes "\<forall>f \<in> set fs. frame f" and "spec_get tail = None"
  shows "spec_get (concat fs @ tail) =
    (case fs of [] \<Rightarrow> None | f # fs' \<Rightarrow> Some (f, concat fs' @ tail))"
  using assms by (cases fs) (auto simp: spec_get_frame)

lemma spec_ops_frames:
  assumes "s @ delivered ops = concat fs @ tail" and "\<forall>f \<in> set fs. frame f" and "spec_get tail = None"
    and "spec_ops ops s = (outs, s')"
  shows "outs = take (length outs) fs \<and> s' = concat (drop (length outs) fs) @ tail"
  using assms
proof (induction ops s arbitrary: fs outs s' rule: spec_ops.induct)
  case (1 s)
  then show ?case by simp
next
  case (2 bs ops s)
  then show ?case by simp
next
  case (3 ops s)
  show ?case
  proof (cases "spec_get s")
    case None
    with 3 show ?thesis by simp
  next
    case (Some fs1)
    obtain f s1 where fs1: "fs1 = (f, s1)" by (cases fs1)
    obtain outs1 where run: "spec_ops ops s1 = (outs1, s')" and outs: "outs = f # outs1"
      using 3(6) Some fs1 by (auto split: prod.splits)
    have "spec_get (concat fs @ tail) = Some (f, s1 @ delivered ops)"
      using spec_get_append[of s f s1 "delivered ops"] Some fs1 3(3) by simp
    then obtain fs' where fs: "fs = f # fs'" and rest: "s1 @ delivered ops = concat fs' @ tail"
      using spec_get_frames[OF 3(4,5)] by (auto split: list.splits)
    have "outs1 = take (length outs1) fs' \<and> s' = concat (drop (length outs1) fs') @ tail"
      using 3(2)[OF Some fs1[symmetric] rest _ 3(5) run] 3(4) fs by auto
    then show ?thesis
      by (simp add: outs fs)
  qed
qed

lemma spec_ops_append:
  "spec_ops (ops1 @ ops2) s =
     (let (outs1, s1) = spec_ops ops1 s; (outs2, s2) = spec_ops ops2 s1 in (outs1 @ outs2, s2))"
  by (induction ops1 s rule: spec_ops.induct) (auto split: option.splits prod.splits simp: Let_def)

lemma spec_ops_drain:
  assumes "\<forall>f \<in> set fs. frame f" and "spec_get tail = None" and "length fs \<le> k"
  shows "spec_ops (replicate k Extract) (concat fs @ tail) = (fs, tail)"
  using assms
proof (induction k arbitrary: fs)
  case 0
  then show ?case by simp
next
  case (Suc k)
  then show ?case
    using spec_get_frames[OF Suc.prems(1,2)] Suc.IH[of "[]"] Suc.IH[of "tl fs"]
    by (cases fs) auto
qed

subsection \<open>The contract\<close>

locale packet_stream =
  fixes inv :: "'b \<Rightarrow> bool"
    and content :: "'b \<Rightarrow> bytes"
    and put :: "bytes \<Rightarrow> 'b \<Rightarrow> 'b result"
    and get :: "'b \<Rightarrow> ('p \<times> 'b) result"
    and view :: "'b \<Rightarrow> 'p \<Rightarrow> bytes option"
    and limit :: nat
  assumes put_appends: "inv b \<Longrightarrow> length bs \<le> limit \<Longrightarrow> put bs b = Inr b' \<Longrightarrow>
      inv b' \<and> content b' = content b @ bs"
    and get_empty: "inv b \<Longrightarrow> spec_get (content b) = None \<Longrightarrow>
      \<exists>p b'. get b = Inr (p, b') \<and> view b' p = None \<and> inv b' \<and> content b' = content b"
    and get_first: "inv b \<Longrightarrow> spec_get (content b) = Some (f, s) \<Longrightarrow>
      \<exists>p b'. get b = Inr (p, b') \<and> view b' p = Some f \<and> inv b' \<and> content b' = s"
begin

lemma refines:
  "inv b \<Longrightarrow> \<forall>x \<in> set ops. op_within limit x \<Longrightarrow> run_ops put get view ops b = Inr (outs, b') \<Longrightarrow>
     inv b' \<and> spec_ops ops (content b) = (outs, content b')"
proof (induction ops arbitrary: b outs)
  case Nil
  then show ?case by simp
next
  case (Cons x ops)
  show ?case
  proof (cases x)
    case (Deliver bs)
    with Cons.prems obtain b1 where b1: "put bs b = Inr b1" "run_ops put get view ops b1 = Inr (outs, b')"
      by (auto simp: bindr_simps)
    then show ?thesis
      using put_appends[OF Cons.prems(1) _ b1(1)] Cons.IH[OF _ _ b1(2)] Cons.prems(2) Deliver by simp
  next
    case Extract
    obtain p b1 outs1 where get: "get b = Inr (p, b1)" and run: "run_ops put get view ops b1 = Inr (outs1, b')"
      and outs: "outs = (case view b1 p of None \<Rightarrow> outs1 | Some f \<Rightarrow> f # outs1)"
      using Cons.prems(3) by (auto simp: Extract bindr_simps)
    have small: "\<forall>x \<in> set ops. op_within limit x"
      using Cons.prems(2) by simp
    show ?thesis
      using get_empty[OF Cons.prems(1)] get_first[OF Cons.prems(1)] Cons.IH[OF _ small run] get outs
      by (cases "spec_get (content b)") (auto simp: Extract)
  qed
qed

lemma framing:
  assumes "inv b" and "\<forall>x \<in> set ops. op_within limit x" and "run_ops put get view ops b = Inr (outs, b')"
    and "content b @ delivered ops = concat fs @ tail" and "\<forall>f \<in> set fs. frame f" and "spec_get tail = None"
  shows "outs = take (length outs) fs \<and> content b' = concat (drop (length outs) fs) @ tail"
  using spec_ops_frames[OF assms(4,5,6)] refines[OF assms(1,2,3)] by blast

end

text \<open>A delivery as the socket makes it: \<open>dwIoSize\<close> bytes from the receive buffer.\<close>

definition deliver :: "memcpy_mode \<Rightarrow> bytes \<Rightarrow> user \<Rightarrow> user result" where
  "deliver m bs u = SetPacketData m (of_nat (length bs)) (map Some bs) u"

definition packet_bytes :: "user \<Rightarrow> PacketInfo \<Rightarrow> bytes option" where
  "packet_bytes u p = map_option (map the) (packet_cells u p)"

definition MAX_SOCKBUF :: nat where
  "MAX_SOCKBUF = 256"

interpretation user_stream: packet_stream buffer_ok stream "deliver m" GetPacket packet_bytes MAX_SOCKBUF
  for m
proof unfold_locales
  fix b bs b'
  assume "buffer_ok b" and "length bs \<le> MAX_SOCKBUF" and "deliver m bs b = Inr b'"
  then show "buffer_ok b' \<and> stream b' = stream b @ bs"
    using SetPacketData_appends[of b bs m b'] by (simp add: deliver_def MAX_SOCKBUF_def)
next
  fix b
  assume b: "buffer_ok b" and get: "spec_get (stream b) = None"
  from b show "\<exists>p b'. GetPacket b = Inr (p, b') \<and> packet_bytes b' p = None \<and> buffer_ok b' \<and> stream b' = stream b"
    by (rule GetPacket_refines) (use get in \<open>auto simp: packet_bytes_def\<close>)
next
  fix b f s
  assume b: "buffer_ok b" and get: "spec_get (stream b) = Some (f, s)"
  from b show "\<exists>p b'. GetPacket b = Inr (p, b') \<and> packet_bytes b' p = Some f \<and> buffer_ok b' \<and> stream b' = s"
    by (rule GetPacket_refines) (use get in \<open>auto simp: packet_bytes_def comp_def\<close>)
qed


section \<open>Properties of the receive buffer\<close>

lemma fresh_buffer_ok: "buffer_ok (fresh_session i)" and fresh_stream: "stream (fresh_session i) = []"
  by (simp_all add: buffer_ok_def stream_def unread_def)

abbreviation run_buffer :: "memcpy_mode \<Rightarrow> buf_op list \<Rightarrow> user \<Rightarrow> (bytes list \<times> user) result" where
  "run_buffer m \<equiv> run_ops (deliver m) GetPacket packet_bytes"

lemma deliver_small_backlog:
  assumes ok: "buffer_ok u" and n: "length bs \<le> MAX_SOCKBUF" and bl: "length (stream u) \<le> 3920"
  shows "\<exists>u'. deliver m bs u = Inr u'"
proof -
  let ?w = "unat (mPacketDataBufferWPos u)" and ?r = "unat (mPacketDataBufferRPos u)"
  have len: "length (unread u) = length (stream u)" "length (unread u) = ?w - ?r"
    using ok length_unread[OF ok] by (simp_all add: stream_def)
  have "can_compact m u" if "PACKET_DATA_BUFFER_SIZE \<le> ?w + length bs"
    using that n bl len by (auto simp: can_compact_def PACKET_DATA_BUFFER_SIZE_def MAX_SOCKBUF_def)
  moreover have "length (unread u) + length bs \<le> PACKET_DATA_BUFFER_SIZE"
    using n bl len(1) by (simp add: PACKET_DATA_BUFFER_SIZE_def MAX_SOCKBUF_def)
  ultimately show ?thesis
    using n SetPacketData_eq[OF ok, of bs m] by (auto simp: deliver_def MAX_SOCKBUF_def)
qed

text \<open>A frame that fits a small backlog goes in and comes out: used by the witnesses.\<close>

lemma run_frame_example:
  assumes f: "frame (a @ b)" and n: "length a \<le> MAX_SOCKBUF" "length b \<le> MAX_SOCKBUF"
    and part: "spec_get a = None"
  obtains u' where "run_buffer m [Deliver a, Extract, Deliver b, Extract] (fresh_session 0) = Inr ([a @ b], u')"
proof -
  let ?u = "fresh_session 0"
  have lim: "MAX_SOCKBUF = 256" by (simp add: MAX_SOCKBUF_def)
  obtain u1 where u1: "deliver m a ?u = Inr u1"
    using deliver_small_backlog[OF fresh_buffer_ok n(1), of 0 m] by (auto simp: fresh_stream)
  have ok1: "buffer_ok u1" "stream u1 = a"
    using user_stream.put_appends[OF fresh_buffer_ok n(1) u1] by (auto simp: fresh_stream)
  obtain p u2 where u2: "GetPacket u1 = Inr (p, u2)" "packet_bytes u2 p = None" "buffer_ok u2" "stream u2 = a"
    using user_stream.get_empty[OF ok1(1)] ok1(2) part by auto
  obtain u3 where u3: "deliver m b u2 = Inr u3"
    using deliver_small_backlog[OF u2(3) n(2), of m] n(1) lim by (auto simp: u2(4))
  have ok3: "buffer_ok u3" "stream u3 = a @ b"
    using user_stream.put_appends[OF u2(3) n(2) u3] u2(4) by auto
  have "spec_get (stream u3) = Some (a @ b, [])"
    using spec_get_frame[OF f, of "[]"] ok3(2) by simp
  then obtain q u4 where u4: "GetPacket u3 = Inr (q, u4)" "packet_bytes u4 q = Some (a @ b)"
    using user_stream.get_first[OF ok3(1)] by blast
  show thesis
    by (rule that[of u4]) (simp add: u1 u2 u3 u4)
qed

text \<open>
  C11. Framing does not depend on segmentation: whatever pieces the network delivers, and however
  deliveries and extractions interleave, the packets that \<open>GetPacket\<close> hands out are the frames the
  client sent, in order, none lost, split, merged or repeated, and the bytes still held are exactly
  the rest of what was sent.
\<close>

theorem packet_framing:
  assumes "buffer_ok u" and "\<forall>x \<in> set ops. op_within MAX_SOCKBUF x"
    and "run_buffer m ops u = Inr (outs, u')"
    and "stream u @ delivered ops = concat fs @ tail" and "\<forall>f \<in> set fs. frame f" and "spec_get tail = None"
  shows "outs = take (length outs) fs \<and> stream u' = concat (drop (length outs) fs) @ tail"
  using user_stream.framing[OF assms] .

definition login_frame :: bytes where
  "login_frame = account_request REQ_LOGIN 0 [116, 101, 115, 116] [112, 119]"

lemma frame_login_frame: "frame login_frame"
  by (simp add: frame_def login_frame_def account_request_def pad_field_def packet_sizes wire_simps)

lemma login_frame_pieces:
  shows "length (take 4 login_frame) \<le> MAX_SOCKBUF" "length (drop 4 login_frame) \<le> MAX_SOCKBUF"
    and "spec_get (take 4 login_frame) = None"
  by (simp_all add: MAX_SOCKBUF_def login_frame_def account_request_def pad_field_def packet_sizes
        spec_get_def min_less_iff_disj)

lemma login_frame_run:
  obtains u' where "run_buffer Disjoint_only
    [Deliver (take 4 login_frame), Extract, Deliver (drop 4 login_frame), Extract] (fresh_session 0)
      = Inr ([login_frame], u')"
  using run_frame_example[OF _ login_frame_pieces] frame_login_frame by auto

theorem packet_framing_witness:
  "\<exists>u'. run_buffer Disjoint_only
      [Deliver (take 4 login_frame), Extract, Deliver (drop 4 login_frame), Extract] (fresh_session 0)
      = Inr ([login_frame], u') \<and> stream u' = []"
proof -
  obtain u' where run: "run_buffer Disjoint_only
    [Deliver (take 4 login_frame), Extract, Deliver (drop 4 login_frame), Extract] (fresh_session 0)
      = Inr ([login_frame], u')"
    by (rule login_frame_run)
  have "stream u' = concat (drop 1 [login_frame]) @ []"
    using packet_framing[OF fresh_buffer_ok _ run, of "[login_frame]" "[]"] login_frame_pieces frame_login_frame
    by (simp add: fresh_stream spec_get_def packet_sizes)
  then show ?thesis
    using run by auto
qed

text \<open>
  C19. Liveness of extraction: once everything was delivered, as many extractions as there are frames
  hand out every frame, and leave the incomplete rest in the buffer.
\<close>

theorem packet_drain:
  assumes "buffer_ok u" and "\<forall>x \<in> set ops. op_within MAX_SOCKBUF x"
    and "run_buffer m (ops @ replicate k Extract) u = Inr (outs, u')"
    and "stream u @ delivered ops = concat fs @ tail" and "\<forall>f \<in> set fs. frame f" and "spec_get tail = None"
    and "length fs \<le> k"
  shows "outs = fs \<and> stream u' = tail"
proof -
  have small: "\<forall>x \<in> set (ops @ replicate k Extract). op_within MAX_SOCKBUF x"
    using assms(2) by auto
  have ref: "spec_ops (ops @ replicate k Extract) (stream u) = (outs, stream u')"
    using user_stream.refines[OF assms(1) small assms(3)] by simp
  obtain outs1 s1 where s1: "spec_ops ops (stream u) = (outs1, s1)"
    by fastforce
  have "outs1 = take (length outs1) fs" and "s1 = concat (drop (length outs1) fs) @ tail"
    using spec_ops_frames[OF assms(4,5,6) s1] by auto
  moreover have "spec_ops (replicate k Extract) (concat (drop (length outs1) fs) @ tail) = (drop (length outs1) fs, tail)"
    using assms(5,6,7) by (intro spec_ops_drain) (auto dest: in_set_dropD)
  ultimately show ?thesis
    using ref s1 by (simp add: spec_ops_append) (metis append_take_drop_id)
qed

theorem packet_drain_witness:
  "\<exists>u'. run_buffer Disjoint_only
      ([Deliver (take 4 login_frame), Extract, Deliver (drop 4 login_frame)] @ replicate 1 Extract) (fresh_session 0)
      = Inr ([login_frame], u') \<and> stream u' = []"
proof -
  let ?ops = "[Deliver (take 4 login_frame), Extract, Deliver (drop 4 login_frame)]"
  obtain u' where run: "run_buffer Disjoint_only (?ops @ replicate 1 Extract) (fresh_session 0) = Inr ([login_frame], u')"
    using login_frame_run by auto
  have "stream u' = []"
    using packet_drain[OF fresh_buffer_ok _ run, of "[login_frame]" "[]"] login_frame_pieces frame_login_frame
    by (simp add: fresh_stream spec_get_def packet_sizes)
  then show ?thesis
    using run by auto
qed

text \<open>The bytes waiting before each delivery, in the reference.\<close>

fun backlog_within :: "nat \<Rightarrow> buf_op list \<Rightarrow> bytes \<Rightarrow> bool" where
  "backlog_within k [] s \<longleftrightarrow> True"
| "backlog_within k (Deliver bs # ops) s \<longleftrightarrow> length s \<le> k \<and> backlog_within k ops (s @ bs)"
| "backlog_within k (Extract # ops) s \<longleftrightarrow>
     backlog_within k ops (case spec_get s of None \<Rightarrow> s | Some (f, s') \<Rightarrow> s')"

lemma run_buffer_returns:
  assumes "buffer_ok u" and "\<forall>x \<in> set ops. op_within MAX_SOCKBUF x" and "backlog_within 3920 ops (stream u)"
  shows "\<exists>outs u'. run_buffer m ops u = Inr (outs, u')"
  using assms
proof (induction ops arbitrary: u)
  case (Cons x ops)
  show ?case
  proof (cases x)
    case (Deliver bs)
    then have n: "length bs \<le> MAX_SOCKBUF" and bl: "length (stream u) \<le> 3920"
      using Cons.prems(2,3) by simp_all
    obtain u1 where u1: "deliver m bs u = Inr u1"
      using deliver_small_backlog[OF Cons.prems(1) n bl] by blast
    then show ?thesis
      using user_stream.put_appends[OF Cons.prems(1) n u1] Cons.IH[of u1] Cons.prems(2,3) Deliver by simp
  next
    case Extract
    have small: "\<forall>x \<in> set ops. op_within MAX_SOCKBUF x"
      using Cons.prems(2) by simp
    obtain p u1 where g: "GetPacket u = Inr (p, u1)" and u1: "buffer_ok u1"
      and st: "stream u1 = (case spec_get (stream u) of None \<Rightarrow> stream u | Some (f, s') \<Rightarrow> s')"
      using user_stream.get_empty[OF Cons.prems(1)] user_stream.get_first[OF Cons.prems(1)]
      by (cases "spec_get (stream u)") fastforce+
    have "backlog_within 3920 ops (stream u1)"
      using Cons.prems(3) by (simp add: Extract st)
    then obtain outs u' where "run_buffer m ops u1 = Inr (outs, u')"
      using Cons.IH[OF u1 small] by blast
    then show ?thesis
      by (simp add: Extract g)
  qed
qed simp

text \<open>
  C9. The packet buffer is equivalent to an unbounded byte stream: for any interleaving of deliveries of at most
  256 bytes and extractions in which at most 3920 bytes wait before a delivery, the buffer with its two positions
  and its moves to the front never faults, whether or not \<open>CopyMemory\<close> tolerates overlapping regions, hands out
  exactly the packets that the reference cuts off a plain list of bytes, and ends with the same rest.
\<close>

theorem buffer_equivalence:
  assumes "buffer_ok u" and "\<forall>x \<in> set ops. op_within MAX_SOCKBUF x" and "backlog_within 3920 ops (stream u)"
  shows "\<exists>u'. run_buffer m ops u = Inr (fst (spec_ops ops (stream u)), u') \<and> buffer_ok u'
    \<and> stream u' = snd (spec_ops ops (stream u))"
proof -
  obtain outs u' where r: "run_buffer m ops u = Inr (outs, u')"
    using run_buffer_returns[OF assms] by blast
  have "buffer_ok u' \<and> spec_ops ops (stream u) = (outs, stream u')"
    by (rule user_stream.refines[OF assms(1,2) r])
  then show ?thesis
    using r by auto
qed

theorem buffer_equivalence_witness:
  "\<exists>u'. run_buffer Disjoint_only [Deliver [6, 0, 201, 0, 0], Extract, Deliver [9, 5], Extract, Extract] (fresh_session 0)
      = Inr ([[6, 0, 201, 0, 0, 9]], u') \<and> stream u' = [5]"
  using buffer_equivalence[OF fresh_buffer_ok, of "[Deliver [6, 0, 201, 0, 0], Extract, Deliver [9, 5], Extract, Extract]" 0 Disjoint_only]
  by (auto simp: fresh_stream MAX_SOCKBUF_def spec_get_def packet_sizes simp del: run_ops.simps)

text \<open>
  What a delivery of bytes does to a session, on every branch: with space behind the write
  position, or where the unread bytes can be moved to the front and leave space, the delivery is
  appended to the stream and the buffer stays in order; a move to the front whose regions overlap is
  undefined unless the platform tolerates it; and where the unread bytes and the delivery exceed 8096
  bytes together the copy writes outside the buffer.
\<close>

lemma SetPacketData_branches:
  assumes ok: "buffer_ok u" and n: "length bs < 2 ^ 31"
  shows "if unat (mPacketDataBufferWPos u) + length bs < PACKET_DATA_BUFFER_SIZE
        \<or> can_compact m u \<and> length (stream u) + length bs \<le> PACKET_DATA_BUFFER_SIZE
     then \<exists>u'. SetPacketData m (of_nat (length bs)) (map Some bs) u = Inr u' \<and> buffer_ok u'
            \<and> stream u' = stream u @ bs
     else SetPacketData m (of_nat (length bs)) (map Some bs) u =
            Inl (if can_compact m u then OutOfBoundsWrite else OverlappingCopy)"
proof -
  have len: "length (stream u) = length (unread u)"
    by (simp add: stream_def)
  show ?thesis
    using SetPacketData_eq[OF ok n, of m] SetPacketData_appends[OF ok n, of m] unfolding len by auto
qed

lemma SetPacketData_branches_witness:
  "\<exists>u'. SetPacketData Disjoint_only 3 (map Some [7, 8, 9]) (fresh_session 0) = Inr u' \<and> stream u' = [7, 8, 9]"
  using SetPacketData_branches[OF fresh_buffer_ok, of "[7, 8, 9]" 0 Disjoint_only]
  by (auto simp: PACKET_DATA_BUFFER_SIZE_def fresh_stream)

text \<open>
  What \<open>GetPacket\<close> returns, on every branch: no packet, and no change, while the header or the
  packet is incomplete; otherwise the first packet of the stream, with the id of its header and with
  its bytes at the place in the buffer that the \<open>PacketInfo\<close> points to, and it is consumed. It never
  faults on a session whose buffer is in order.
\<close>

lemma GetPacket_branches:
  assumes ok: "buffer_ok u"
  shows "case spec_get (stream u) of
      None \<Rightarrow> GetPacket u = Inr (empty_PacketInfo, u)
    | Some (f, s) \<Rightarrow> \<exists>p u'. GetPacket u = Inr (p, u') \<and> packet_cells u' p = Some (map Some f)
        \<and> PacketId p = of_le16 (drop 2 (stream u)) \<and> buffer_ok u' \<and> stream u' = s"
proof (cases "spec_get (stream u)")
  case None
  then show ?thesis
    using GetPacket_eq[OF ok] by simp
next
  case (Some fs)
  obtain f s where fs: "fs = (f, s)" by (cases fs)
  obtain p u' where "GetPacket u = Inr (p, u')" "buffer_ok u'" "packet_cells u' p = Some (map Some f)" "stream u' = s"
    by (rule GetPacket_refines[OF ok]) (use Some fs in auto)
  moreover have "PacketId p = of_le16 (drop 2 (stream u))"
    using calculation(1) GetPacket_eq[OF ok] Some fs by (auto simp: packet_at_def)
  ultimately show ?thesis
    using Some fs by auto
qed

lemma GetPacket_branches_witness:
  "GetPacket (fresh_session 0) = Inr (empty_PacketInfo, fresh_session 0)"
  using GetPacket_branches[OF fresh_buffer_ok, of 0] by (simp add: fresh_stream spec_get_def packet_sizes)

text \<open>
  A packet whose length field is zero is handed out and never consumed: the extraction returns
  it and leaves the session as it was, so every later extraction returns it again and the session
  makes no progress.
\<close>

lemma zero_length_packet_stuck:
  assumes "buffer_ok u" and "PACKET_HEADER_LENGTH \<le> length (stream u)" and "of_le16 (stream u) = 0"
  shows "GetPacket u = Inr (packet_at u, u)"
proof -
  have "spec_get (stream u) = Some ([], stream u)"
    using assms(2,3) by (simp add: spec_get_def)
  then show ?thesis
    using GetPacket_eq[OF assms(1)] assms(3) by (simp add: advanced_def)
qed

lemma zero_length_packet_stuck_witness:
  "\<exists>u. stream u = [0, 0, 210, 0, 0] \<and> GetPacket u = Inr (packet_at u, u)"
proof -
  let ?bs = "[0, 0, 210, 0, 0] :: bytes"
  obtain u where u: "buffer_ok u" "stream u = ?bs"
    using deliver_small_backlog[OF fresh_buffer_ok, of ?bs 0 Disjoint_only] user_stream.put_appends[OF fresh_buffer_ok, of ?bs]
    by (auto simp: MAX_SOCKBUF_def fresh_stream)
  have "GetPacket u = Inr (packet_at u, u)"
    using u by (intro zero_length_packet_stuck) (simp_all add: packet_sizes)
  then show ?thesis
    using u(2) by blast
qed


subsection \<open>A packet larger than the buffer\<close>

text \<open>How \<open>n\<close> deliveries of full socket buffers end where no packet is ever complete.\<close>

definition flood :: "bytes list \<Rightarrow> buf_op list" where
  "flood segs = concat (map (\<lambda>b. [Deliver b, Extract]) segs)"

definition flood_fault :: "memcpy_mode \<Rightarrow> fault" where
  "flood_fault m = (if m = Tolerates_overlap then OutOfBoundsWrite else OverlappingCopy)"

definition flooded :: "nat \<Rightarrow> user \<Rightarrow> bool" where
  "flooded k u \<longleftrightarrow> buffer_ok u \<and> mPacketDataBufferRPos u = 0
     \<and> unat (mPacketDataBufferWPos u) = k * MAX_SOCKBUF"

lemma flooded_step:
  assumes fl: "flooded k u" and k: "k < 31" and n: "length b = MAX_SOCKBUF"
    and hdr: "of_le16 (stream u @ b) = 65535"
  shows "run_buffer m (Deliver b # Extract # ops) u = run_buffer m ops (appended b u)"
    and "flooded (Suc k) (appended b u)"
proof -
  have ok: "buffer_ok u" and r: "mPacketDataBufferRPos u = 0"
    and w: "unat (mPacketDataBufferWPos u) = k * 256"
    using fl by (auto simp: flooded_def MAX_SOCKBUF_def)
  have space: "unat (mPacketDataBufferWPos u) + length b < PACKET_DATA_BUFFER_SIZE"
    using w k n by (simp add: PACKET_DATA_BUFFER_SIZE_def MAX_SOCKBUF_def)
  then have del: "deliver m b u = Inr (appended b u)"
    using SetPacketData_eq[OF ok, of b m] n by (simp add: deliver_def MAX_SOCKBUF_def)
  have app: "buffer_ok (appended b u)" "stream (appended b u) = stream u @ b"
    using appended_ok[OF ok] space by auto
  have "unat (mPacketDataBufferWPos (appended b u)) = k * 256 + 256"
    using w k n by (simp add: appended_def MAX_SOCKBUF_def unat_add_u32)
  then show fl': "flooded (Suc k) (appended b u)"
    using app(1) r by (simp add: flooded_def appended_def MAX_SOCKBUF_def)
  have "length (stream (appended b u)) \<le> PACKET_DATA_BUFFER_SIZE"
    using length_unread[OF app(1)] app(1) by (auto simp: stream_def buffer_ok_def)
  then have "spec_get (stream (appended b u)) = None"
    using hdr by (simp add: app(2) spec_get_def PACKET_DATA_BUFFER_SIZE_def Let_def)
  then have "GetPacket (appended b u) = Inr (empty_PacketInfo, appended b u)"
    using GetPacket_eq[OF app(1)] by simp
  then show "run_buffer m (Deliver b # Extract # ops) u = run_buffer m ops (appended b u)"
    by (simp add: del packet_bytes_def packet_cells_def empty_PacketInfo_def)
qed

lemma flooded_last:
  assumes fl: "flooded 31 u" and n: "length b = MAX_SOCKBUF"
  shows "run_buffer m (Deliver b # ops) u = Inl (flood_fault m)"
proof -
  have ok: "buffer_ok u" and r: "mPacketDataBufferRPos u = 0"
    and w: "unat (mPacketDataBufferWPos u) = 7936"
    using fl by (auto simp: flooded_def MAX_SOCKBUF_def)
  have "length (unread u) = 7936"
    using length_unread[OF ok] r w by simp
  then show ?thesis
    using SetPacketData_eq[OF ok, of b m] n r w
    by (simp add: deliver_def MAX_SOCKBUF_def PACKET_DATA_BUFFER_SIZE_def can_compact_def flood_fault_def)
qed

lemma flood_fault_after:
  assumes "flooded k u" and "k + length segs = 32" and "k < 32" and "\<forall>b \<in> set segs. length b = MAX_SOCKBUF"
    and "of_le16 (stream u @ concat segs) = 65535"
  shows "run_buffer m (flood segs) u = Inl (flood_fault m)"
  using assms
proof (induction segs arbitrary: k u)
  case Nil
  then show ?case by simp
next
  case (Cons b segs)
  show ?case
  proof (cases "k = 31")
    case True
    then show ?thesis
      using Cons.prems flooded_last[of u b m] by (simp add: flood_def)
  next
    case False
    have k: "k < 31" and n: "length b = MAX_SOCKBUF"
      using False Cons.prems(3,4) by auto
    have hdr: "of_le16 (stream u @ b) = 65535"
      using Cons.prems(5) of_le16_append[of "stream u @ b" "concat segs"] n by (simp add: MAX_SOCKBUF_def)
    note step = flooded_step[OF Cons.prems(1) k n hdr]
    have "of_le16 (stream (appended b u) @ concat segs) = 65535"
      using Cons.prems(1,5) appended_ok(2)[of u b] k n
      by (simp add: flooded_def MAX_SOCKBUF_def PACKET_DATA_BUFFER_SIZE_def)
    then show ?thesis
      using Cons.IH[OF step(2)] Cons.prems(2,4) k step(1) by (simp add: flood_def)
  qed
qed

text \<open>
  C36. A length field is not compared with the buffer: a client that announces a packet of 65535 bytes
  and sends 32 full socket buffers drives its session out of bounds, although an extraction is tried
  after every delivery. Where \<open>CopyMemory\<close> tolerates overlapping regions the 32nd delivery writes
  outside the heap buffer, otherwise the copy before it is undefined already.
\<close>

theorem oversized_packet_overflows:
  assumes "length segs = 32" and "\<forall>b \<in> set segs. length b = MAX_SOCKBUF"
    and "of_le16 (concat segs) = 65535"
  shows "run_buffer m (flood segs) (fresh_session i) = Inl (flood_fault m)"
  using assms fresh_buffer_ok[of i]
  by (intro flood_fault_after[of 0]) (auto simp: flooded_def fresh_stream)

lemma of_le16_255: "of_le16 (255 # 255 # bs) = 65535"
  by simp

theorem oversized_packet_overflows_witness:
  "run_buffer Tolerates_overlap (flood (replicate 32 (replicate 256 255))) (fresh_session 0)
     = Inl OutOfBoundsWrite"
proof -
  let ?seg = "replicate 256 (255 :: u8)"
  let ?segs = "replicate 32 ?seg"
  have "?segs = ?seg # replicate 31 ?seg"
    using replicate_Suc[of 31 ?seg] by simp
  moreover have "?seg = 255 # 255 # replicate 254 255"
    using replicate_Suc[of 255 "255 :: u8"] replicate_Suc[of 254 "255 :: u8"] by simp
  ultimately have "of_le16 (concat ?segs) = 65535"
    by (metis append_Cons concat.simps(2) of_le16_255)
  then have "run_buffer Tolerates_overlap (flood ?segs) (fresh_session 0) = Inl (flood_fault Tolerates_overlap)"
    by (intro oversized_packet_overflows) (auto simp: MAX_SOCKBUF_def)
  then show ?thesis
    by (simp add: flood_fault_def)
qed

end
