(* ===== verification/Rooms.thy ===== *)
theory Rooms
  imports Packet_Buffer
begin

text \<open>
  Chat rooms: \<open>Room\<close> and \<open>RoomManager\<close> (directory \<open>Room/\<close>). A \<open>User*\<close> is an address
  (\<open>nat\<close>) in a heap of session objects, so a room reads the current user id of every member through
  its pointer, as the code does. A call of the send function appends the destination and the bytes to
  the outbox; an empty function object throws.

  Shown here: what every operation returns and sends on each branch, the invariant of the manager's
  table, and the admission bound (locale \<open>admission\<close>), which holds for a room over its whole
  lifetime because \<open>LeaveUser\<close> never gives a place back.
\<close>

section \<open>Sending\<close>

type_synonym heap = "nat \<Rightarrow> user"
type_synonym outbox = "(u32 \<times> cell list) list"

text \<open>A call through \<open>std::function<void(UINT32, UINT32, char*)>\<close>. The lambda that
  \<open>ChatServer::Run\<close> installs takes the size as \<open>UINT16\<close> and passes it to \<open>SendMsg\<close>, which
  copies that many bytes.\<close>

definition send_call :: "sink option \<Rightarrow> u32 \<Rightarrow> u32 \<Rightarrow> cell list \<Rightarrow> outbox \<Rightarrow> outbox result" where
  "send_call f clientIndex packetSize data out =
     (case f of
        None \<Rightarrow> Inl BadFunctionCall
      | Some ChatServer_SendMsg \<Rightarrow>
          bindr (read_cells 0 (unat (ucast packetSize :: u16)) data) (\<lambda>cs. Inr (out @ [(clientIndex, cs)])))"

lemma send_call_whole:
  assumes "length data < 65536"
  shows "send_call (Some s) c (of_nat (length data)) data out = Inr (out @ [(c, data)])"
proof -
  have "unat (ucast (of_nat (length data) :: u32) :: u16) = length data"
    using assms by (rule unat_ucast_u32_u16)
  then show ?thesis
    by (cases s) (simp add: send_call_def read_cells_def block_def)
qed

text \<open>The address of a session on the wire: \<open>(UINT32)pUser->GetNetConnIdx()\<close>.\<close>

definition GetNetConnIdx :: "heap \<Rightarrow> nat \<Rightarrow> int" where
  "GetNetConnIdx h p = mIndex (h p)"

section \<open>Room\<close>

record room =
  mRoomNum :: int
  mUserList :: "nat list"
  mMaxUserCount :: int
  mCurrentUserCount :: u16
  SendPacketFunc :: "sink option"

definition new_Room :: room where
  "new_Room = \<lparr>mRoomNum = -1, mUserList = [], mMaxUserCount = 0, mCurrentUserCount = 0,
     SendPacketFunc = None\<rparr>"

definition Room_Init :: "int \<Rightarrow> int \<Rightarrow> room \<Rightarrow> room" where
  "Room_Init roomNum maxUserCount r = r\<lparr>mRoomNum := roomNum, mMaxUserCount := maxUserCount\<rparr>"

text \<open>\<open>SendToAllUser\<close>: the list holds pointers to live sessions, which are never null.\<close>

fun SendToAllUser :: "heap \<Rightarrow> sink option \<Rightarrow> u16 \<Rightarrow> cell list \<Rightarrow> int \<Rightarrow> bool \<Rightarrow> nat list \<Rightarrow> outbox
    \<Rightarrow> outbox result" where
  "SendToAllUser h f dataSize data passUserIndex exceptMe [] out = Inr out"
| "SendToAllUser h f dataSize data passUserIndex exceptMe (p # ps) out =
     (if exceptMe \<and> GetNetConnIdx h p = passUserIndex
      then SendToAllUser h f dataSize data passUserIndex exceptMe ps out
      else bindr (send_call f (word_of_int (GetNetConnIdx h p)) (ucast dataSize) data out)
             (SendToAllUser h f dataSize data passUserIndex exceptMe ps))"

definition Room_EnterUser :: "heap \<Rightarrow> nat \<Rightarrow> room \<Rightarrow> outbox \<Rightarrow> (RESULT_CODE \<times> room \<times> outbox) result" where
  "Room_EnterUser h p r out =
     (if uint (mCurrentUserCount r) \<ge> mMaxUserCount r then Inr (ENTER_ROOM_FULL_USER, r, out)
      else
        bindr (notify_id_cells NOTIFY_ROOM_INFO_PACKET_SIZE NOTIFY_ROOM_INFO (mUserID (h p))) (\<lambda>pkt.
        bindr (SendToAllUser h (SendPacketFunc r) (of_nat NOTIFY_ROOM_INFO_PACKET_SIZE) pkt
                 (GetNetConnIdx h p) False (mUserList r) out) (\<lambda>out1.
        Inr (ENTER_ROOM_SUCCESS,
             r\<lparr>mUserList := mUserList r @ [p], mCurrentUserCount := mCurrentUserCount r + 1\<rparr>, out1))))"

definition Room_LeaveUser :: "heap \<Rightarrow> nat \<Rightarrow> room \<Rightarrow> outbox \<Rightarrow> (RESULT_CODE \<times> room \<times> outbox) result" where
  "Room_LeaveUser h p r out =
     bindr (notify_id_cells NOTIFY_ROOM_LEAVE_PACKET_SIZE NOTIFY_ROOM_LEAVE (mUserID (h p))) (\<lambda>pkt.
     bindr (SendToAllUser h (SendPacketFunc r) (of_nat NOTIFY_ROOM_LEAVE_PACKET_SIZE) pkt
              (GetNetConnIdx h p) False (mUserList r) out) (\<lambda>out1.
     Inr (LEAVE_ROOM_SUCCESS,
          r\<lparr>mUserList := filter (\<lambda>q. mUserID (h p) \<noteq> mUserID (h q)) (mUserList r)\<rparr>, out1)))"

text \<open>\<open>NotifyChat\<close>: the message is a block of \<open>MAX_CHAT_MSG_SIZE + 1\<close> cells at the pointer, the
  user id a block of \<open>MAX_USER_ID_LEN + 1\<close> cells at \<open>c_str()\<close>.\<close>

definition NotifyChat :: "heap \<Rightarrow> int \<Rightarrow> bytes \<Rightarrow> nat \<Rightarrow> cell list \<Rightarrow> room \<Rightarrow> outbox \<Rightarrow> outbox result" where
  "NotifyChat h clientIndex userID msg_off mem r out =
     bindr (read_cells msg_off (MAX_CHAT_MSG_SIZE + 1) mem) (\<lambda>msg.
     SendToAllUser h (SendPacketFunc r) (of_nat NOTIFY_ROOM_CHAT_PACKET_SIZE)
       (notify_chat_cells (c_str_cells (MAX_USER_ID_LEN + 1) userID) msg)
       clientIndex False (mUserList r) out)"

definition GetRoomMemberList :: "heap \<Rightarrow> room \<Rightarrow> bytes list" where
  "GetRoomMemberList h r = map (\<lambda>p. mUserID (h p)) (mUserList r)"

section \<open>RoomManager\<close>

record room_manager =
  mRoomList :: "room list"
  mBeginRoomNumber :: int
  mEndRoomNumber :: int
  mMaxRoomCount :: int

definition new_RoomManager :: room_manager where
  "new_RoomManager = \<lparr>mRoomList = [], mBeginRoomNumber = 0, mEndRoomNumber = 0, mMaxRoomCount = 0\<rparr>"

definition RoomManager_Init :: "int \<Rightarrow> int \<Rightarrow> int \<Rightarrow> room_manager \<Rightarrow> room_manager" where
  "RoomManager_Init beginRoomNumber maxRoomCount maxRoomUserCount rm =
     rm\<lparr>mBeginRoomNumber := beginRoomNumber,
        mMaxRoomCount := maxRoomCount,
        mEndRoomNumber := beginRoomNumber + maxRoomCount,
        mRoomList := map (\<lambda>i. Room_Init (int i + beginRoomNumber) maxRoomUserCount new_Room)
                       [0..<nat maxRoomCount]\<rparr>"

definition RoomManager_SetSendPacketFunc :: "sink option \<Rightarrow> room_manager \<Rightarrow> room_manager" where
  "RoomManager_SetSendPacketFunc f rm =
     rm\<lparr>mRoomList := map (\<lambda>r. r\<lparr>SendPacketFunc := f\<rparr>) (mRoomList rm)\<rparr>"

text \<open>A \<open>Room*\<close> is an index of \<open>mRoomList\<close>, \<open>None\<close> is \<open>nullptr\<close>.\<close>

definition GetRoomByNumber :: "int \<Rightarrow> room_manager \<Rightarrow> nat option result" where
  "GetRoomByNumber number rm =
     (if number < mBeginRoomNumber rm \<or> number \<ge> mEndRoomNumber rm then Inr None
      else let index = nat (number - mBeginRoomNumber rm) in
        if index < length (mRoomList rm) then Inr (Some index) else Inl OutOfRange)"

definition RoomManager_EnterUser :: "heap \<Rightarrow> int \<Rightarrow> nat \<Rightarrow> room_manager \<Rightarrow> outbox
    \<Rightarrow> (RESULT_CODE \<times> room_manager \<times> outbox) result" where
  "RoomManager_EnterUser h roomNumber p rm out =
     bindr (GetRoomByNumber roomNumber rm) (\<lambda>room.
       case room of
         None \<Rightarrow> Inr (ROOM_INVALID_INDEX, rm, out)
       | Some i \<Rightarrow>
           (let r = mRoomList rm ! i in
            if uint (mCurrentUserCount r) \<ge> mMaxUserCount r then Inr (ROOM_FULL, rm, out)
            else bindr (Room_EnterUser h p r out) (\<lambda>(rc, r1, out1).
                   Inr (rc, rm\<lparr>mRoomList := (mRoomList rm)[i := r1]\<rparr>, out1))))"

definition RoomManager_LeaveUser :: "heap \<Rightarrow> int \<Rightarrow> nat \<Rightarrow> room_manager \<Rightarrow> outbox
    \<Rightarrow> (RESULT_CODE \<times> room_manager \<times> outbox) result" where
  "RoomManager_LeaveUser h roomNumber p rm out =
     bindr (GetRoomByNumber roomNumber rm) (\<lambda>room.
       case room of
         None \<Rightarrow> Inr (ROOM_INVALID_INDEX, rm, out)
       | Some i \<Rightarrow>
           bindr (Room_LeaveUser h p (mRoomList rm ! i) out) (\<lambda>(rc, r1, out1).
             Inr (rc, rm\<lparr>mRoomList := (mRoomList rm)[i := r1]\<rparr>, out1)))"

definition GetRoomList :: "room_manager \<Rightarrow> int list" where
  "GetRoomList rm = map mRoomNum (mRoomList rm)"

section \<open>What a broadcast sends\<close>

definition broadcast :: "heap \<Rightarrow> cell list \<Rightarrow> nat list \<Rightarrow> outbox" where
  "broadcast h data ps = map (\<lambda>p. (word_of_int (mIndex (h p)), data)) ps"

lemma SendToAllUser_all:
  assumes "length data < 65536"
  shows "SendToAllUser h (Some s) (of_nat (length data)) data i False ps out = Inr (out @ broadcast h data ps)"
proof (induction ps arbitrary: out)
  case Nil
  then show ?case by (simp add: broadcast_def)
next
  case (Cons p ps)
  have "ucast (of_nat (length data) :: u16) = (of_nat (length data) :: u32)"
    using assms by (intro word_unat_eq_iff[THEN iffD2]) (simp add: mem_simps)
  then show ?case
    using Cons send_call_whole[OF assms] by (simp add: broadcast_def GetNetConnIdx_def)
qed

definition id_notice :: "PACKET_ID \<Rightarrow> bytes \<Rightarrow> cell list" where
  "id_notice p s = header_cells 16 p (Some 0) @ map Some s @ replicate (11 - length s) (Some 0)"

lemma notify_id_cells_ok:
  "length s \<le> 11 \<Longrightarrow> notify_id_cells 16 p s = Inr (id_notice p s)"
  by (simp add: notify_id_cells_def id_field_ok id_notice_def)

lemma notify_id_cells_overflow: "11 < length s \<Longrightarrow> notify_id_cells n p s = Inl OutOfBoundsWrite"
  by (simp add: notify_id_cells_def id_field_overflow)

lemma length_id_notice [simp]: "length s \<le> 11 \<Longrightarrow> length (id_notice p s) = 16"
  by (simp add: id_notice_def)

lemma Room_EnterUser_eq:
  assumes f: "SendPacketFunc r = Some s"
  shows "Room_EnterUser h p r out =
    (if mMaxUserCount r \<le> uint (mCurrentUserCount r) then Inr (ENTER_ROOM_FULL_USER, r, out)
     else if 11 < length (mUserID (h p)) then Inl OutOfBoundsWrite
     else Inr (ENTER_ROOM_SUCCESS,
            r\<lparr>mUserList := mUserList r @ [p], mCurrentUserCount := mCurrentUserCount r + 1\<rparr>,
            out @ broadcast h (id_notice NOTIFY_ROOM_INFO (mUserID (h p))) (mUserList r)))"
proof -
  let ?n = "id_notice NOTIFY_ROOM_INFO (mUserID (h p))"
  have "SendToAllUser h (Some s) 16 ?n (GetNetConnIdx h p) False (mUserList r) out = Inr (out @ broadcast h ?n (mUserList r))"
    if "length (mUserID (h p)) \<le> 11"
    using SendToAllUser_all[of ?n h s "GetNetConnIdx h p" "mUserList r" out] that by simp
  then show ?thesis
    by (simp add: Room_EnterUser_def f packet_sizes notify_id_cells_ok notify_id_cells_overflow)
qed

lemma Room_LeaveUser_eq:
  assumes f: "SendPacketFunc r = Some s"
  shows "Room_LeaveUser h p r out =
    (if 11 < length (mUserID (h p)) then Inl OutOfBoundsWrite
     else Inr (LEAVE_ROOM_SUCCESS,
            r\<lparr>mUserList := filter (\<lambda>q. mUserID (h p) \<noteq> mUserID (h q)) (mUserList r)\<rparr>,
            out @ broadcast h (id_notice NOTIFY_ROOM_LEAVE (mUserID (h p))) (mUserList r)))"
proof -
  let ?n = "id_notice NOTIFY_ROOM_LEAVE (mUserID (h p))"
  have "SendToAllUser h (Some s) 16 ?n (GetNetConnIdx h p) False (mUserList r) out = Inr (out @ broadcast h ?n (mUserList r))"
    if "length (mUserID (h p)) \<le> 11"
    using SendToAllUser_all[of ?n h s "GetNetConnIdx h p" "mUserList r" out] that by simp
  then show ?thesis
    by (simp add: Room_LeaveUser_def f packet_sizes notify_id_cells_ok notify_id_cells_overflow)
qed

lemma NotifyChat_eq:
  assumes f: "SendPacketFunc r = Some s"
  shows "NotifyChat h i uid off mem r out =
    (if off + 257 \<le> length mem
     then Inr (out @ broadcast h (notify_chat_cells (c_str_cells 11 uid) (block off 257 mem)) (mUserList r))
     else Inl OutOfBoundsRead)"
proof (cases "off + 257 \<le> length mem")
  case True
  let ?n = "notify_chat_cells (c_str_cells 11 uid) (block off 257 mem)"
  have len: "length ?n = 273"
    using True by (simp add: notify_chat_cells_def mem_simps)
  show ?thesis
    using True SendToAllUser_all[of ?n h s i "mUserList r" out]
    unfolding NotifyChat_def f packet_sizes len by (simp add: read_cells_def)
next
  case False
  then show ?thesis
    by (simp add: NotifyChat_def read_cells_def packet_sizes)
qed

section \<open>The invariant of the table\<close>

definition room_ok :: "room \<Rightarrow> bool" where
  "room_ok r \<longleftrightarrow> SendPacketFunc r = Some ChatServer_SendMsg
     \<and> mMaxUserCount r < 65536
     \<and> length (mUserList r) \<le> unat (mCurrentUserCount r)
     \<and> uint (mCurrentUserCount r) \<le> mMaxUserCount r"

definition rooms_ok :: "room_manager \<Rightarrow> bool" where
  "rooms_ok rm \<longleftrightarrow> mEndRoomNumber rm = mBeginRoomNumber rm + int (length (mRoomList rm))
     \<and> (\<forall>i < length (mRoomList rm). mRoomNum (mRoomList rm ! i) = mBeginRoomNumber rm + int i
          \<and> room_ok (mRoomList rm ! i))"

lemma room_ok_length:
  assumes "room_ok r"
  shows "int (length (mUserList r)) \<le> mMaxUserCount r"
proof -
  have "int (length (mUserList r)) \<le> int (unat (mCurrentUserCount r))"
    using assms by (simp only: room_ok_def of_nat_le_iff)
  then show ?thesis
    using assms by (simp add: room_ok_def)
qed

lemma Room_EnterUser_ok:
  assumes ok: "room_ok r" and ret: "Room_EnterUser h p r out = Inr (rc, r', out')"
  shows "room_ok r'" and "mRoomNum r' = mRoomNum r" and "mMaxUserCount r' = mMaxUserCount r"
    and "rc = ENTER_ROOM_SUCCESS \<and> unat (mCurrentUserCount r') = Suc (unat (mCurrentUserCount r))
           \<and> uint (mCurrentUserCount r) < mMaxUserCount r \<and> mUserList r' = mUserList r @ [p]
       \<or> rc = ENTER_ROOM_FULL_USER \<and> r' = r"
  using ok ret unat_inc_u16[of "mCurrentUserCount r" "mMaxUserCount r"]
    uint_inc_u16[of "mCurrentUserCount r" "mMaxUserCount r"]
  by (auto simp: room_ok_def Room_EnterUser_eq split: if_splits)

lemma Room_LeaveUser_ok:
  assumes ok: "room_ok r" and ret: "Room_LeaveUser h p r out = Inr (rc, r', out')"
  shows "room_ok r'" and "mRoomNum r' = mRoomNum r" and "mMaxUserCount r' = mMaxUserCount r"
    and "mCurrentUserCount r' = mCurrentUserCount r" and "rc = LEAVE_ROOM_SUCCESS"
  using ok ret
  by (auto simp: room_ok_def Room_LeaveUser_eq le_trans[OF length_filter_le] split: if_splits)

lemma rooms_ok_update:
  assumes "rooms_ok rm" and "i < length (mRoomList rm)" and "room_ok r"
    and "mRoomNum r = mRoomNum (mRoomList rm ! i)"
  shows "rooms_ok (rm\<lparr>mRoomList := (mRoomList rm)[i := r]\<rparr>)"
  using assms by (auto simp: rooms_ok_def nth_list_update)

lemma RoomManager_Init_ok:
  assumes "0 \<le> n" and "0 \<le> k" and "k < 65536"
  shows "rooms_ok (RoomManager_SetSendPacketFunc (Some ChatServer_SendMsg) (RoomManager_Init b n k new_RoomManager))"
  using assms
  by (auto simp: rooms_ok_def RoomManager_SetSendPacketFunc_def RoomManager_Init_def Room_Init_def
      room_ok_def new_Room_def new_RoomManager_def)

text \<open>
  \<open>GetRoomByNumber\<close> is total on the manager's table: it answers \<open>nullptr\<close> exactly for the
  numbers outside the configured range, and otherwise the room that carries the number.
\<close>

lemma GetRoomByNumber_correct:
  assumes "rooms_ok rm"
  shows "GetRoomByNumber n rm =
    (if mBeginRoomNumber rm \<le> n \<and> n < mEndRoomNumber rm then Inr (Some (nat (n - mBeginRoomNumber rm)))
     else Inr None) \<and>
    (\<forall>i. GetRoomByNumber n rm = Inr (Some i) \<longrightarrow>
       i < length (mRoomList rm) \<and> mRoomNum (mRoomList rm ! i) = n)"
  using assms by (auto simp: GetRoomByNumber_def rooms_ok_def Let_def)

text \<open>
  The lobby list is the table's numbers in order, each of which \<open>GetRoomByNumber\<close> finds.
\<close>

lemma GetRoomList_correct:
  assumes "rooms_ok rm"
  shows "GetRoomList rm = map (\<lambda>i. mBeginRoomNumber rm + int i) [0..<length (mRoomList rm)]"
  using assms by (intro nth_equalityI) (auto simp: GetRoomList_def rooms_ok_def)


section \<open>Admissions over the lifetime of a room\<close>

text \<open>
  The contract of a component that admits at most \<open>cap\<close> users: every step keeps the invariant and
  the capacity, and the places used grow by one with every admission and never shrink. From it follows
  that the admissions of a whole history are bounded. It is interpreted on a single room and on a room
  of the manager's table.
\<close>

fun run_admissions :: "('op \<Rightarrow> 'r \<Rightarrow> (bool \<times> 'r) result) \<Rightarrow> 'op list \<Rightarrow> 'r \<Rightarrow> (nat \<times> 'r) result" where
  "run_admissions step [] r = Inr (0, r)"
| "run_admissions step (x # xs) r =
     bindr (step x r) (\<lambda>(b, r1). bindr (run_admissions step xs r1) (\<lambda>(n, r2).
       Inr (if b then Suc n else n, r2)))"

locale admission =
  fixes inv :: "'r \<Rightarrow> bool"
    and used :: "'r \<Rightarrow> nat"
    and cap :: "'r \<Rightarrow> int"
    and step :: "'op \<Rightarrow> 'r \<Rightarrow> (bool \<times> 'r) result"
  assumes step_inv: "inv r \<Longrightarrow> step x r = Inr (b, r') \<Longrightarrow> inv r' \<and> cap r' = cap r"
    and step_used: "inv r \<Longrightarrow> step x r = Inr (b, r') \<Longrightarrow> used r' = (if b then Suc (used r) else used r)"
    and used_cap: "inv r \<Longrightarrow> int (used r) \<le> cap r"
begin

lemma history:
  "inv r \<Longrightarrow> run_admissions step xs r = Inr (n, r') \<Longrightarrow> inv r' \<and> cap r' = cap r \<and> used r' = n + used r"
proof (induction xs arbitrary: r n)
  case Nil
  then show ?case by simp
next
  case (Cons x xs)
  from Cons.prems(2) obtain b r1 m where 1: "step x r = Inr (b, r1)"
    and 2: "run_admissions step xs r1 = Inr (m, r')" and n: "n = (if b then Suc m else m)"
    by (auto simp: bindr_simps split: if_splits)
  show ?case
    using Cons.IH[OF _ 2] step_inv[OF Cons.prems(1) 1] step_used[OF Cons.prems(1) 1] n by auto
qed

lemma bounded: "inv r \<Longrightarrow> run_admissions step xs r = Inr (n, r') \<Longrightarrow> int (n + used r) \<le> cap r"
  using history[of r xs n r'] used_cap[of r'] by auto

end

datatype room_op = OpEnter heap nat | OpLeave heap nat

fun room_step :: "room_op \<Rightarrow> room \<Rightarrow> (bool \<times> room) result" where
  "room_step (OpEnter h p) r =
     bindr (Room_EnterUser h p r []) (\<lambda>(rc, r1, _). Inr (rc = ENTER_ROOM_SUCCESS, r1))"
| "room_step (OpLeave h p) r =
     bindr (Room_LeaveUser h p r []) (\<lambda>(rc, r1, _). Inr (rc = ENTER_ROOM_SUCCESS, r1))"

interpretation single_room: admission room_ok "\<lambda>r. unat (mCurrentUserCount r)" mMaxUserCount room_step
proof unfold_locales
  fix r x b r'
  assume ok: "room_ok r" and st: "room_step x r = Inr (b, r')"
  show "room_ok r' \<and> mMaxUserCount r' = mMaxUserCount r"
    using st by (cases x) (auto simp: bindr_simps dest: Room_EnterUser_ok[OF ok] Room_LeaveUser_ok[OF ok])
  show "unat (mCurrentUserCount r') = (if b then Suc (unat (mCurrentUserCount r)) else unat (mCurrentUserCount r))"
    using st by (cases x) (auto simp: bindr_simps dest: Room_EnterUser_ok(4)[OF ok] Room_LeaveUser_ok(4,5)[OF ok])
next
  fix r assume "room_ok r"
  then show "int (unat (mCurrentUserCount r)) \<le> mMaxUserCount r"
    by (simp add: room_ok_def)
qed

text \<open>The same for the room with a given number among all operations on the manager.\<close>

datatype table_op = TableEnter heap int nat | TableLeave heap int nat

fun table_step :: "int \<Rightarrow> table_op \<Rightarrow> room_manager \<Rightarrow> (bool \<times> room_manager) result" where
  "table_step n (TableEnter h k p) rm =
     bindr (RoomManager_EnterUser h k p rm []) (\<lambda>(rc, rm1, _). Inr (k = n \<and> rc = ENTER_ROOM_SUCCESS, rm1))"
| "table_step n (TableLeave h k p) rm =
     bindr (RoomManager_LeaveUser h k p rm []) (\<lambda>(rc, rm1, _). Inr (False, rm1))"

definition room_numbered :: "int \<Rightarrow> room_manager \<Rightarrow> room" where
  "room_numbered n rm = mRoomList rm ! nat (n - mBeginRoomNumber rm)"

text \<open>What an operation of the manager does to the table: it keeps it, or it replaces the room that
  carries the number by the room after the operation.\<close>

lemma GetRoomByNumber_Some:
  assumes "rooms_ok rm" and "GetRoomByNumber n rm = Inr (Some i)"
  shows "i < length (mRoomList rm)" and "int i = n - mBeginRoomNumber rm" and "room_ok (mRoomList rm ! i)"
  using assms by (auto simp: GetRoomByNumber_def rooms_ok_def Let_def split: if_splits)

lemma RoomManager_EnterUser_cases:
  assumes ok: "rooms_ok rm" and ret: "RoomManager_EnterUser h n p rm out = Inr (rc, rm', out')"
  obtains (unchanged) "rc \<in> {ROOM_INVALID_INDEX, ROOM_FULL}" and "rm' = rm" and "out' = out"
    | (entered) i r' where "GetRoomByNumber n rm = Inr (Some i)" and "i < length (mRoomList rm)"
        and "int i = n - mBeginRoomNumber rm" and "rc = ENTER_ROOM_SUCCESS"
        and "Room_EnterUser h p (mRoomList rm ! i) out = Inr (rc, r', out')"
        and "rm' = rm\<lparr>mRoomList := (mRoomList rm)[i := r']\<rparr>"
proof -
  from ret obtain g where g: "GetRoomByNumber n rm = Inr g"
    by (auto simp: RoomManager_EnterUser_def bindr_simps)
  show thesis
  proof (cases g)
    case None
    then show thesis
      using ret g by (intro unchanged) (auto simp: RoomManager_EnterUser_def)
  next
    case (Some i)
    let ?r = "mRoomList rm ! i"
    note i = GetRoomByNumber_Some[OF ok, of n i]
    show thesis
    proof (cases "mMaxUserCount ?r \<le> uint (mCurrentUserCount ?r)")
      case True
      then show thesis
        using ret g Some by (intro unchanged) (auto simp: RoomManager_EnterUser_def Let_def)
    next
      case False
      then obtain r' where r': "Room_EnterUser h p ?r out = Inr (rc, r', out')"
          and rm': "rm' = rm\<lparr>mRoomList := (mRoomList rm)[i := r']\<rparr>"
        using ret g Some by (auto simp: RoomManager_EnterUser_def Let_def bindr_simps)
      moreover have "rc = ENTER_ROOM_SUCCESS"
        using r' False by (auto simp: Room_EnterUser_def bindr_simps)
      ultimately show thesis
        using i g Some by (intro entered[of i r']) auto
    qed
  qed
qed

lemma RoomManager_LeaveUser_cases:
  assumes ok: "rooms_ok rm" and ret: "RoomManager_LeaveUser h n p rm out = Inr (rc, rm', out')"
  obtains (unchanged) "rc = ROOM_INVALID_INDEX" and "rm' = rm" and "out' = out"
    | (left) i r' where "GetRoomByNumber n rm = Inr (Some i)" and "i < length (mRoomList rm)"
        and "int i = n - mBeginRoomNumber rm"
        and "Room_LeaveUser h p (mRoomList rm ! i) out = Inr (rc, r', out')"
        and "rm' = rm\<lparr>mRoomList := (mRoomList rm)[i := r']\<rparr>"
proof -
  from ret obtain g where g: "GetRoomByNumber n rm = Inr g"
    by (auto simp: RoomManager_LeaveUser_def bindr_simps)
  show thesis
  proof (cases g)
    case None
    then show thesis
      using ret g by (intro unchanged) (auto simp: RoomManager_LeaveUser_def)
  next
    case (Some i)
    note i = GetRoomByNumber_Some[OF ok, of n i]
    show thesis
      using ret g Some i by (auto simp: RoomManager_LeaveUser_def bindr_simps intro: left)
  qed
qed

lemma RoomManager_EnterUser_ok:
  assumes ok: "rooms_ok rm" and ret: "RoomManager_EnterUser h n p rm out = Inr (rc, rm', out')"
  shows "rooms_ok rm'"
  by (cases rule: RoomManager_EnterUser_cases[OF ok ret])
     (use ok in \<open>auto intro!: rooms_ok_update[OF ok]
        dest: Room_EnterUser_ok(1,2)[OF GetRoomByNumber_Some(3)[OF ok]]\<close>)

lemma RoomManager_LeaveUser_ok:
  assumes ok: "rooms_ok rm" and ret: "RoomManager_LeaveUser h n p rm out = Inr (rc, rm', out')"
  shows "rooms_ok rm'"
  by (cases rule: RoomManager_LeaveUser_cases[OF ok ret])
     (use ok in \<open>auto intro!: rooms_ok_update[OF ok]
        dest: Room_LeaveUser_ok(1,2)[OF GetRoomByNumber_Some(3)[OF ok]]\<close>)


lemma room_numbered_at: "int i = n - mBeginRoomNumber rm \<Longrightarrow> room_numbered n rm = mRoomList rm ! i"
  by (metis nat_int room_numbered_def)

lemma room_numbered_update:
  assumes "int i = k - mBeginRoomNumber rm" and "i < length (mRoomList rm)" and "mBeginRoomNumber rm \<le> n"
  shows "room_numbered n (rm\<lparr>mRoomList := (mRoomList rm)[i := r]\<rparr>) = (if k = n then r else room_numbered n rm)"
proof -
  have "nat (n - mBeginRoomNumber rm) = i \<longleftrightarrow> k = n"
    using assms(1,3) by auto
  then show ?thesis
    using assms(2) by (auto simp: room_numbered_def)
qed

definition numbered :: "int \<Rightarrow> room_manager \<Rightarrow> bool" where
  "numbered n rm \<longleftrightarrow> rooms_ok rm \<and> mBeginRoomNumber rm \<le> n \<and> n < mEndRoomNumber rm"

lemma room_numbered_ok: "numbered n rm \<Longrightarrow> room_ok (room_numbered n rm)"
  by (auto simp: numbered_def rooms_ok_def room_numbered_def)

lemma table_enter_effect:
  assumes inv: "numbered n rm" and st: "RoomManager_EnterUser h k p rm out = Inr (rc, rm', out')"
  shows "numbered n rm'" and "mMaxUserCount (room_numbered n rm') = mMaxUserCount (room_numbered n rm)"
    and "unat (mCurrentUserCount (room_numbered n rm')) =
      (if k = n \<and> rc = ENTER_ROOM_SUCCESS then Suc (unat (mCurrentUserCount (room_numbered n rm)))
       else unat (mCurrentUserCount (room_numbered n rm)))"
proof -
  have ok: "rooms_ok rm" and b: "mBeginRoomNumber rm \<le> n" "n < mEndRoomNumber rm"
    using inv by (auto simp: numbered_def)
  have ok': "rooms_ok rm'"
    using RoomManager_EnterUser_ok[OF ok st] .
  consider "rm' = rm" "rc \<noteq> ENTER_ROOM_SUCCESS"
    | (entered) i r' where "GetRoomByNumber k rm = Inr (Some i)" "i < length (mRoomList rm)"
        "int i = k - mBeginRoomNumber rm" "Room_EnterUser h p (mRoomList rm ! i) out = Inr (rc, r', out')"
        "rm' = rm\<lparr>mRoomList := (mRoomList rm)[i := r']\<rparr>" "rc = ENTER_ROOM_SUCCESS"
    by (rule RoomManager_EnterUser_cases[OF ok st]) auto
  then have "numbered n rm' \<and> mMaxUserCount (room_numbered n rm') = mMaxUserCount (room_numbered n rm)
      \<and> unat (mCurrentUserCount (room_numbered n rm')) =
      (if k = n \<and> rc = ENTER_ROOM_SUCCESS then Suc (unat (mCurrentUserCount (room_numbered n rm)))
       else unat (mCurrentUserCount (room_numbered n rm)))"
  proof cases
    case 1
    then show ?thesis using inv by simp
  next
    case entered
    have i: "k = n \<Longrightarrow> mRoomList rm ! i = room_numbered n rm"
      using entered(3) by (simp add: room_numbered_at)
    show ?thesis
      using entered b ok' i room_numbered_update[OF entered(3,2) b(1), of r']
        Room_EnterUser_ok[OF GetRoomByNumber_Some(3)[OF ok entered(1)] entered(4)]
      by (auto simp: numbered_def)
  qed
  then show "numbered n rm'" and "mMaxUserCount (room_numbered n rm') = mMaxUserCount (room_numbered n rm)"
    and "unat (mCurrentUserCount (room_numbered n rm')) =
      (if k = n \<and> rc = ENTER_ROOM_SUCCESS then Suc (unat (mCurrentUserCount (room_numbered n rm)))
       else unat (mCurrentUserCount (room_numbered n rm)))"
    by auto
qed

lemma table_leave_effect:
  assumes inv: "numbered n rm" and st: "RoomManager_LeaveUser h k p rm out = Inr (rc, rm', out')"
  shows "numbered n rm'" and "mMaxUserCount (room_numbered n rm') = mMaxUserCount (room_numbered n rm)"
    and "mCurrentUserCount (room_numbered n rm') = mCurrentUserCount (room_numbered n rm)"
proof -
  have ok: "rooms_ok rm" and b: "mBeginRoomNumber rm \<le> n" "n < mEndRoomNumber rm"
    using inv by (auto simp: numbered_def)
  have ok': "rooms_ok rm'"
    using RoomManager_LeaveUser_ok[OF ok st] .
  from ok st have "numbered n rm' \<and> mMaxUserCount (room_numbered n rm') = mMaxUserCount (room_numbered n rm)
      \<and> mCurrentUserCount (room_numbered n rm') = mCurrentUserCount (room_numbered n rm)"
  proof (cases rule: RoomManager_LeaveUser_cases)
    case unchanged
    then show ?thesis using inv by simp
  next
    case (left i r')
    have i: "k = n \<Longrightarrow> mRoomList rm ! i = room_numbered n rm"
      using left(3) by (simp add: room_numbered_at)
    show ?thesis
      using left b ok' i room_numbered_update[OF left(3,2) b(1), of r']
        Room_LeaveUser_ok[OF GetRoomByNumber_Some(3)[OF ok left(1)] left(4)]
      by (auto simp: numbered_def)
  qed
  then show "numbered n rm'" and "mMaxUserCount (room_numbered n rm') = mMaxUserCount (room_numbered n rm)"
    and "mCurrentUserCount (room_numbered n rm') = mCurrentUserCount (room_numbered n rm)"
    by auto
qed

interpretation table_room: admission "numbered n" "\<lambda>rm. unat (mCurrentUserCount (room_numbered n rm))"
  "\<lambda>rm. mMaxUserCount (room_numbered n rm)" "table_step n"
  for n
proof unfold_locales
  fix rm x b rm'
  assume inv: "numbered n rm" and st: "table_step n x rm = Inr (b, rm')"
  show "numbered n rm' \<and> mMaxUserCount (room_numbered n rm') = mMaxUserCount (room_numbered n rm)"
    using st by (cases x) (auto simp: bindr_simps dest: table_enter_effect(1,2)[OF inv] table_leave_effect(1,2)[OF inv])
  show "unat (mCurrentUserCount (room_numbered n rm')) =
      (if b then Suc (unat (mCurrentUserCount (room_numbered n rm))) else unat (mCurrentUserCount (room_numbered n rm)))"
    using st by (cases x) (auto simp: bindr_simps dest: table_enter_effect(3)[OF inv] table_leave_effect(3)[OF inv])
next
  fix rm assume "numbered n rm"
  then show "int (unat (mCurrentUserCount (room_numbered n rm))) \<le> mMaxUserCount (room_numbered n rm)"
    using room_numbered_ok[of n rm] by (simp add: room_ok_def)
qed


section \<open>Properties of the rooms\<close>

text \<open>The table \<open>ChatServer::Init\<close> and \<open>Run\<close> set up: ten rooms of four, from number 0.\<close>

definition chat_rooms :: room_manager where
  "chat_rooms = RoomManager_SetSendPacketFunc (Some ChatServer_SendMsg)
     (RoomManager_Init 0 10 4 new_RoomManager)"

definition chat_room :: room where
  "chat_room = (Room_Init 0 4 new_Room)\<lparr>SendPacketFunc := Some ChatServer_SendMsg\<rparr>"

definition sample_heap :: heap where
  "sample_heap p = (fresh_session (int p))\<lparr>mUserID := [97 + of_nat p]\<rparr>"

lemma chat_rooms_ok: "rooms_ok chat_rooms"
  unfolding chat_rooms_def by (rule RoomManager_Init_ok) auto

lemma chat_rooms_sel [simp]:
  "mBeginRoomNumber chat_rooms = 0" "mEndRoomNumber chat_rooms = 10" "length (mRoomList chat_rooms) = 10"
  by (simp_all add: chat_rooms_def RoomManager_SetSendPacketFunc_def RoomManager_Init_def)

lemma chat_room_sel [simp]:
  "SendPacketFunc chat_room = Some ChatServer_SendMsg" "mUserList chat_room = []"
  "mCurrentUserCount chat_room = 0" "mMaxUserCount chat_room = 4" "room_ok chat_room"
  by (simp_all add: chat_room_def Room_Init_def new_Room_def room_ok_def)

lemma sample_heap_sel [simp]: "mUserID (sample_heap p) = [97 + of_nat p]" "mIndex (sample_heap p) = int p"
  by (simp_all add: sample_heap_def)

text \<open>
  \<open>Room::EnterUser\<close> on every branch. A full room refuses and changes nothing. A user id longer
  than the 11 bytes of the notice overflows the struct on the stack. Otherwise every member present
  before is notified of the new user (who is not), the user is appended to the list, the counter goes
  up by one without wrapping, and the room stays within its limit.
\<close>

lemma Room_EnterUser_branches:
  assumes ok: "room_ok r"
  shows "if mMaxUserCount r \<le> uint (mCurrentUserCount r)
     then Room_EnterUser h p r out = Inr (ENTER_ROOM_FULL_USER, r, out)
     else if 11 < length (mUserID (h p)) then Room_EnterUser h p r out = Inl OutOfBoundsWrite
     else \<exists>r'. Room_EnterUser h p r out = Inr (ENTER_ROOM_SUCCESS, r',
            out @ broadcast h (id_notice NOTIFY_ROOM_INFO (mUserID (h p))) (mUserList r))
          \<and> mUserList r' = mUserList r @ [p]
          \<and> unat (mCurrentUserCount r') = Suc (unat (mCurrentUserCount r)) \<and> room_ok r'"
proof -
  have f: "SendPacketFunc r = Some ChatServer_SendMsg"
    using ok by (simp add: room_ok_def)
  note eq = Room_EnterUser_eq[OF f, of h p out]
  show ?thesis
  proof (cases "mMaxUserCount r \<le> uint (mCurrentUserCount r) \<or> 11 < length (mUserID (h p))")
    case True
    then show ?thesis using eq by (elim disjE) simp_all
  next
    case False
    then obtain r' where r': "Room_EnterUser h p r out = Inr (ENTER_ROOM_SUCCESS, r',
        out @ broadcast h (id_notice NOTIFY_ROOM_INFO (mUserID (h p))) (mUserList r))"
      using eq by simp
    then show ?thesis
      using False Room_EnterUser_ok(1,4)[OF ok r'] by simp
  qed
qed

lemma Room_EnterUser_branches_witness:
  "\<exists>r'. Room_EnterUser sample_heap 1 chat_room [] = Inr (ENTER_ROOM_SUCCESS, r', []) \<and> mUserList r' = [1]
     \<and> unat (mCurrentUserCount r') = 1"
  using Room_EnterUser_branches[of chat_room sample_heap 1 "[]"] by (auto simp: broadcast_def)

text \<open>
  \<open>Room::LeaveUser\<close>: every member is notified, the leaving user included; exactly the entries
  whose session has the leaving user's id are removed; the counter of the room keeps its value.
\<close>

lemma Room_LeaveUser_branches:
  assumes ok: "room_ok r"
  shows "if 11 < length (mUserID (h p)) then Room_LeaveUser h p r out = Inl OutOfBoundsWrite
     else \<exists>r'. Room_LeaveUser h p r out = Inr (LEAVE_ROOM_SUCCESS, r',
            out @ broadcast h (id_notice NOTIFY_ROOM_LEAVE (mUserID (h p))) (mUserList r))
          \<and> mUserList r' = filter (\<lambda>q. mUserID (h q) \<noteq> mUserID (h p)) (mUserList r)
          \<and> mCurrentUserCount r' = mCurrentUserCount r \<and> room_ok r'"
proof -
  have f: "SendPacketFunc r = Some ChatServer_SendMsg"
    using ok by (simp add: room_ok_def)
  have "filter (\<lambda>q. mUserID (h p) \<noteq> mUserID (h q)) (mUserList r) = filter (\<lambda>q. mUserID (h q) \<noteq> mUserID (h p)) (mUserList r)"
    by (rule filter_cong) auto
  then have eq: "Room_LeaveUser h p r out = (if 11 < length (mUserID (h p)) then Inl OutOfBoundsWrite
     else Inr (LEAVE_ROOM_SUCCESS,
       r\<lparr>mUserList := filter (\<lambda>q. mUserID (h q) \<noteq> mUserID (h p)) (mUserList r)\<rparr>,
       out @ broadcast h (id_notice NOTIFY_ROOM_LEAVE (mUserID (h p))) (mUserList r)))"
    by (simp only: Room_LeaveUser_eq[OF f])
  show ?thesis
  proof (cases "11 < length (mUserID (h p))")
    case False
    then show ?thesis
      using eq Room_LeaveUser_ok(1)[OF ok eq[unfolded if_not_P[OF False]]] by simp
  qed (simp add: eq)
qed

lemma Room_LeaveUser_branches_witness:
  "\<exists>r'. Room_LeaveUser sample_heap 1 (chat_room\<lparr>mUserList := [0, 1], mCurrentUserCount := 2\<rparr>) []
     = Inr (LEAVE_ROOM_SUCCESS, r',
         [(0, id_notice NOTIFY_ROOM_LEAVE [98]), (1, id_notice NOTIFY_ROOM_LEAVE [98])])
     \<and> mUserList r' = [0] \<and> mCurrentUserCount r' = 2"
proof -
  have "room_ok (chat_room\<lparr>mUserList := [0, 1], mCurrentUserCount := 2\<rparr>)"
    by (simp add: room_ok_def)
  then show ?thesis
    using Room_LeaveUser_branches[of "chat_room\<lparr>mUserList := [0, 1], mCurrentUserCount := 2\<rparr>" sample_heap 1 "[]"]
    by (auto simp: broadcast_def)
qed

text \<open>
  \<open>Room::NotifyChat\<close> sends the 273-byte notice to every member, the speaker included, and
  reads 257 cells at the message pointer whatever the request's length was; a pointer too close to the
  end of the packet buffer makes that read leave the buffer.
\<close>

lemma NotifyChat_branches:
  assumes ok: "room_ok r"
  shows "NotifyChat h i uid off mem r out =
    (if off + 257 \<le> length mem
     then Inr (out @ broadcast h (notify_chat_cells (c_str_cells 11 uid) (block off 257 mem)) (mUserList r))
     else Inl OutOfBoundsRead)"
  using ok by (intro NotifyChat_eq[of r ChatServer_SendMsg]) (simp add: room_ok_def)

text \<open>
  C20. Occupancy and admissions of a room: in any history of entries and leaves through the manager,
  whatever the other rooms do, a room never lists more users than its limit, and it admits at most as
  many users as its limit over the whole history.
\<close>

theorem room_lifetime_admissions:
  assumes "rooms_ok rm" and "mBeginRoomNumber rm \<le> n" and "n < mEndRoomNumber rm"
    and "run_admissions (table_step n) ops rm = Inr (k, rm')"
  shows "int k \<le> mMaxUserCount (room_numbered n rm)
    \<and> int (length (mUserList (room_numbered n rm'))) \<le> mMaxUserCount (room_numbered n rm)"
proof -
  have inv: "numbered n rm"
    using assms by (simp add: numbered_def)
  have "numbered n rm' \<and> mMaxUserCount (room_numbered n rm') = mMaxUserCount (room_numbered n rm)"
    using table_room.history[OF inv assms(4)] by simp
  then have "int (length (mUserList (room_numbered n rm'))) \<le> mMaxUserCount (room_numbered n rm)"
    using room_numbered_ok[of n rm'] room_ok_length by fastforce
  then show ?thesis
    using table_room.bounded[OF inv assms(4)] by linarith
qed

theorem room_lifetime_admissions_witness:
  "\<exists>rm'. run_admissions (table_step 0) [TableEnter sample_heap 0 1, TableLeave sample_heap 0 1] chat_rooms = Inr (1, rm')
     \<and> length (mUserList (room_numbered 0 rm')) \<le> 4"
proof -
  have r0: "mRoomList chat_rooms ! 0 = chat_room"
    by (simp add: chat_rooms_def chat_room_def RoomManager_SetSendPacketFunc_def RoomManager_Init_def)
  have g: "GetRoomByNumber 0 chat_rooms = Inr (Some 0)"
    by (simp add: GetRoomByNumber_def)
  let ?r = "chat_room\<lparr>mUserList := [1], mCurrentUserCount := 1\<rparr>"
  let ?rm = "chat_rooms\<lparr>mRoomList := (mRoomList chat_rooms)[0 := ?r]\<rparr>"
  have e: "RoomManager_EnterUser sample_heap 0 1 chat_rooms [] = Inr (ENTER_ROOM_SUCCESS, ?rm, [])"
    using Room_EnterUser_eq[of chat_room ChatServer_SendMsg sample_heap 1 "[]"]
    by (simp add: RoomManager_EnterUser_def g r0 broadcast_def)
  have g': "GetRoomByNumber 0 ?rm = Inr (Some 0)" and r': "mRoomList ?rm ! 0 = ?r"
    by (simp_all add: GetRoomByNumber_def)
  obtain rm' where l: "RoomManager_LeaveUser sample_heap 0 1 ?rm [] = Inr (LEAVE_ROOM_SUCCESS, rm', [(1, id_notice NOTIFY_ROOM_LEAVE [98])])"
    using Room_LeaveUser_eq[of ?r ChatServer_SendMsg sample_heap 1 "[]"]
    by (simp add: RoomManager_LeaveUser_def GetRoomByNumber_def broadcast_def)
  have run: "run_admissions (table_step 0) [TableEnter sample_heap 0 1, TableLeave sample_heap 0 1] chat_rooms = Inr (1, rm')"
    using e l by simp
  have "mMaxUserCount (room_numbered 0 chat_rooms) = 4"
    using r0 by (simp add: room_numbered_def)
  then show ?thesis
    using room_lifetime_admissions[OF chat_rooms_ok _ _ run] run by simp
qed

lemma enter_leave_once:
  assumes ok: "room_ok r" and len: "length (mUserID (h p)) \<le> 11" and mt: "mUserList r = []"
    and space: "uint (mCurrentUserCount r) < mMaxUserCount r"
  shows "run_admissions room_step (OpEnter h p # OpLeave h p # ops) r =
    bindr (run_admissions room_step ops (r\<lparr>mCurrentUserCount := mCurrentUserCount r + 1\<rparr>))
      (\<lambda>(n, r'). Inr (Suc n, r'))"
proof -
  have f: "SendPacketFunc r = Some ChatServer_SendMsg"
    using ok by (simp add: room_ok_def)
  let ?r = "r\<lparr>mUserList := [p], mCurrentUserCount := mCurrentUserCount r + 1\<rparr>"
  have e: "Room_EnterUser h p r [] = Inr (ENTER_ROOM_SUCCESS, ?r, [])"
    using Room_EnterUser_eq[OF f, of h p "[]"] len mt space by (simp add: broadcast_def)
  obtain out where l: "Room_LeaveUser h p ?r [] = Inr (LEAVE_ROOM_SUCCESS, r\<lparr>mCurrentUserCount := mCurrentUserCount r + 1\<rparr>, out)"
    using Room_LeaveUser_eq[of ?r ChatServer_SendMsg h p "[]"] len mt f by simp
  show ?thesis
    by (simp add: e l split: bindr_split)
qed

lemma enter_leave_repeat:
  assumes "room_ok r" and "length (mUserID (h p)) \<le> 11" and "mUserList r = []"
    and "uint (mCurrentUserCount r) + int k = mMaxUserCount r"
  shows "\<exists>r'. run_admissions room_step (concat (replicate k [OpEnter h p, OpLeave h p])) r = Inr (k, r')
    \<and> mUserList r' = [] \<and> uint (mCurrentUserCount r') = mMaxUserCount r' \<and> room_ok r'"
  using assms
proof (induction k arbitrary: r)
  case 0
  then show ?case by simp
next
  case (Suc k)
  let ?r = "r\<lparr>mCurrentUserCount := mCurrentUserCount r + 1\<rparr>"
  have lt: "uint (mCurrentUserCount r) < mMaxUserCount r" and m: "mMaxUserCount r < 65536"
    using Suc.prems(1,4) by (auto simp: room_ok_def)
  note inc = uint_inc_u16[OF lt m]
  have "room_ok ?r"
    using Suc.prems(1,3) lt inc by (auto simp: room_ok_def)
  then obtain r' where "run_admissions room_step (concat (replicate k [OpEnter h p, OpLeave h p])) ?r = Inr (k, r')"
    and "mUserList r' = []" and "uint (mCurrentUserCount r') = mMaxUserCount r'" and "room_ok r'"
    using Suc.IH[of ?r] Suc.prems(2,3,4) inc by auto
  then show ?case
    using enter_leave_once[of r h p] Suc.prems(1,2,3) lt by simp
qed

text \<open>
  A room wears out: after as many entries as its limit, each followed by the leave of the same
  user, the room is empty and refuses everybody, because \<open>LeaveUser\<close> does not lower the counter
  that \<open>EnterUser\<close> tests.
\<close>

lemma room_exhausted:
  assumes "room_ok r" and "length (mUserID (h p)) \<le> 11" and "mUserList r = []"
    and "mCurrentUserCount r = 0" and "mMaxUserCount r = int k"
  shows "\<exists>r'. run_admissions room_step (concat (replicate k [OpEnter h p, OpLeave h p])) r = Inr (k, r')
    \<and> mUserList r' = [] \<and> (\<forall>h' q out. Room_EnterUser h' q r' out = Inr (ENTER_ROOM_FULL_USER, r', out))"
proof -
  obtain r' where "run_admissions room_step (concat (replicate k [OpEnter h p, OpLeave h p])) r = Inr (k, r')"
    and mt: "mUserList r' = []" and full: "uint (mCurrentUserCount r') = mMaxUserCount r'" and ok: "room_ok r'"
    using enter_leave_repeat[of r h p k] assms by auto
  moreover have "Room_EnterUser h' q r' out = Inr (ENTER_ROOM_FULL_USER, r', out)" for h' q out
    using full by (simp add: Room_EnterUser_def)
  ultimately show ?thesis by blast
qed

lemma room_exhausted_witness:
  "\<exists>r'. run_admissions room_step (concat (replicate 4 [OpEnter sample_heap 1, OpLeave sample_heap 1])) chat_room = Inr (4, r')
    \<and> mUserList r' = [] \<and> (\<forall>h' q out. Room_EnterUser h' q r' out = Inr (ENTER_ROOM_FULL_USER, r', out))"
  by (rule room_exhausted) simp_all

end
