(* ===== verification/Accounts.thy ===== *)
theory Accounts
  imports LHJ_Prelude
begin

text \<open>
  The account database: \<open>AccountDB\<close> (directory \<open>DB/\<close>). The ODBC driver and the server behind it
  are not part of the repository: they are a parameter, the record \<open>odbc\<close>, whose state holds the
  statement handle with its cursor. The contract of a result set is the locale \<open>result_set\<close>;
  \<open>SelectAccount\<close> is analysed in it. The contract of a statement handle, \<open>statement_handle\<close>, adds what ODBC
  documents of open cursors; the sharing of one handle by the two operations is analysed in it.
  Both are shown to be satisfiable on \<open>sample_odbc\<close>, a driver with a table in memory. It is an example of a
  driver and not a model of a data base server: no property of the two operations rests on it.
\<close>

section \<open>The driver and the two operations\<close>

datatype SQLRETURN = SQL_SUCCESS | SQL_SUCCESS_WITH_INFO | SQL_NO_DATA | SQL_ERROR

type_synonym wide = "u16 list"

record 'db odbc =
  ExecCreate :: "bytes \<Rightarrow> bytes \<Rightarrow> 'db \<Rightarrow> SQLRETURN \<times> 'db"
  ExecSelect :: "bytes \<Rightarrow> 'db \<Rightarrow> SQLRETURN \<times> 'db"
  Fetch :: "'db \<Rightarrow> SQLRETURN \<times> 'db"
  GetData :: "nat \<Rightarrow> nat \<Rightarrow> 'db \<Rightarrow> wide \<times> 'db"
  FreeUnbind :: "'db \<Rightarrow> 'db"
  FreeClose :: "'db \<Rightarrow> 'db"

definition succeeded :: "SQLRETURN \<Rightarrow> bool" where
  "succeeded ret \<longleftrightarrow> ret = SQL_SUCCESS \<or> ret = SQL_SUCCESS_WITH_INFO"

text \<open>\<open>{call usp_Account_Create(?,?)}\<close> with the two bound parameters. The statement is not freed
  afterwards.\<close>

definition CreateAccount :: "'db odbc \<Rightarrow> bytes \<Rightarrow> bytes \<Rightarrow> 'db \<Rightarrow> bool \<times> 'db" where
  "CreateAccount d uid pw db = (let (ret, db1) = ExecCreate d uid pw db in (succeeded ret, db1))"

text \<open>\<open>std::string(ws.begin(), ws.end())\<close>: every wide character is cut to a byte.\<close>

definition narrow :: "wide \<Rightarrow> bytes" where
  "narrow ws = map ucast ws"

definition free_stmt :: "'db odbc \<Rightarrow> 'db \<Rightarrow> 'db" where
  "free_stmt d db = FreeClose d (FreeUnbind d db)"

text \<open>The fetch loop: the third column is read into a buffer of 20 bytes. \<open>None\<close> is a loop that
  does not end.\<close>

partial_function (option) fetch_loop :: "'db odbc \<Rightarrow> bytes \<Rightarrow> 'db \<Rightarrow> (bool \<times> 'db) option" where
  "fetch_loop d pw db =
     (case Fetch d db of (ret, db1) \<Rightarrow>
        if ret = SQL_SUCCESS then
          (case GetData d 3 20 db1 of (ws, db2) \<Rightarrow>
             if narrow ws = pw then Some (True, free_stmt d db2) else fetch_loop d pw db2)
        else Some (False, free_stmt d db1))"

definition SelectAccount :: "'db odbc \<Rightarrow> bytes \<Rightarrow> bytes \<Rightarrow> 'db \<Rightarrow> (bool \<times> 'db) option" where
  "SelectAccount d uid pw db =
     (case ExecSelect d uid db of (ret, db1) \<Rightarrow>
        if succeeded ret then fetch_loop d pw db1 else Some (False, free_stmt d db1))"

section \<open>The contract of a result set\<close>

text \<open>
  \<open>remaining\<close> are the password columns still to be fetched. Each fetch delivers the next row, and
  past the end it returns \<open>SQL_NO_DATA\<close>; \<open>SQLGetData\<close> into a buffer of \<open>n\<close> bytes returns at most
  \<open>n div 2 - 1\<close> wide characters of the current row, since the last place takes the terminator.
\<close>

locale result_set =
  fixes d :: "'db odbc"
    and remaining :: "'db \<Rightarrow> wide list"
    and current :: "'db \<Rightarrow> wide"
  assumes fetch_row: "remaining db = w # ws \<Longrightarrow>
      \<exists>db'. Fetch d db = (SQL_SUCCESS, db') \<and> remaining db' = ws \<and> current db' = w"
    and fetch_end: "remaining db = [] \<Longrightarrow> \<exists>db'. Fetch d db = (SQL_NO_DATA, db')"
    and get_data: "\<exists>db'. GetData d 3 n db = (take (n div 2 - 1) (current db), db')
      \<and> remaining db' = remaining db"
begin

lemma fetch_loop_scans:
  "\<exists>db'. fetch_loop d pw db = Some (pw \<in> (\<lambda>w. narrow (take 9 w)) ` set (remaining db), db')"
proof (induction "remaining db" arbitrary: db)
  case Nil
  then obtain db1 where "Fetch d db = (SQL_NO_DATA, db1)"
    using fetch_end[of db] by auto
  then show ?case
    using Nil by (subst fetch_loop.simps) (simp flip: Nil)
next
  case (Cons w ws)
  obtain db1 where f: "Fetch d db = (SQL_SUCCESS, db1)" and db1: "remaining db1 = ws" "current db1 = w"
    using fetch_row[of db w ws] Cons(2) by auto
  obtain db2 where g: "GetData d 3 20 db1 = (take 9 w, db2)" and db2: "remaining db2 = ws"
    using get_data[of 20 db1] db1 by auto
  show ?case
  proof (cases "narrow (take 9 w) = pw")
    case True
    then show ?thesis
      using f g Cons(2)[symmetric] by (subst fetch_loop.simps) auto
  next
    case False
    then show ?thesis
      using f g Cons(2)[symmetric] Cons(1)[of db2] db2 by (subst fetch_loop.simps) auto
  qed
qed

lemma select_returns:
  assumes "ExecSelect d uid db = (ret, db1)"
  shows "\<exists>db'. SelectAccount d uid pw db =
    Some (succeeded ret \<and> pw \<in> (\<lambda>w. narrow (take 9 w)) ` set (remaining db1), db')"
  using assms fetch_loop_scans[of pw db1] by (auto simp: SelectAccount_def)

end

section \<open>The contract of a statement handle\<close>

text \<open>
  What ODBC documents of a handle and its cursor: a statement that is executed while a cursor is open on the
  handle fails with SQLSTATE 24000 (invalid cursor state), and \<open>SQLFreeStmt\<close> with \<open>SQL_CLOSE\<close> closes the cursor.
  Whether a call leaves a cursor open is the statement's matter: one that returned a result set does.
\<close>

locale statement_handle = result_set d remaining current
  for d :: "'db odbc" and remaining and current +
  fixes cursor_open :: "'db \<Rightarrow> bool"
  assumes select_busy: "cursor_open db \<Longrightarrow> \<exists>db'. ExecSelect d uid db = (SQL_ERROR, db')"
    and create_busy: "cursor_open db \<Longrightarrow> \<exists>db'. ExecCreate d uid pw db = (SQL_ERROR, db')"
    and closes: "\<not> cursor_open (FreeClose d db)"
begin

lemma select_fails:
  assumes "cursor_open db"
  obtains db' where "SelectAccount d uid pw db = Some (False, db')" and "\<not> cursor_open db'"
  using select_busy[OF assms, of uid] closes by (auto simp: SelectAccount_def succeeded_def free_stmt_def)

lemma create_fails: "cursor_open db \<Longrightarrow> \<not> fst (CreateAccount d uid pw db)"
  using create_busy[of db uid pw] by (auto simp: CreateAccount_def succeeded_def)

end

section \<open>A driver with a table in memory\<close>

text \<open>
  An instance of the contracts. Its table holds ids and passwords as they are bound; a server may compare and pad
  them otherwise. A taken id is answered without a result set, as the repository's script does
  (\<open>03_Account_Procedure.sql\<close>).
\<close>

record account_db =
  Account :: "(bytes \<times> wide) list"
  cursor :: "wide list option"
  row :: wide

definition widen :: "bytes \<Rightarrow> wide" where
  "widen bs = map ucast bs"

definition sample_select :: "bytes \<Rightarrow> account_db \<Rightarrow> SQLRETURN \<times> account_db" where
  "sample_select uid db =
     (if cursor db \<noteq> None then (SQL_ERROR, db)
      else (SQL_SUCCESS, db\<lparr>cursor := Some (map snd (filter (\<lambda>r. fst r = uid) (Account db)))\<rparr>))"

definition sample_create :: "bytes \<Rightarrow> bytes \<Rightarrow> account_db \<Rightarrow> SQLRETURN \<times> account_db" where
  "sample_create uid pw db =
     (if cursor db \<noteq> None then (SQL_ERROR, db)
      else if uid \<in> fst ` set (Account db) then (SQL_SUCCESS, db)
      else sample_select uid (db\<lparr>Account := Account db @ [(uid, widen pw)]\<rparr>))"

definition fetch_row :: "account_db \<Rightarrow> SQLRETURN \<times> account_db" where
  "fetch_row db = (case cursor db of
     None \<Rightarrow> (SQL_NO_DATA, db)
   | Some [] \<Rightarrow> (SQL_NO_DATA, db)
   | Some (w # ws) \<Rightarrow> (SQL_SUCCESS, db\<lparr>cursor := Some ws, row := w\<rparr>))"

definition sample_odbc :: "account_db odbc" where
  "sample_odbc = \<lparr>ExecCreate = sample_create, ExecSelect = sample_select, Fetch = fetch_row,
     GetData = (\<lambda>col n db. (take (n div 2 - 1) (row db), db)),
     FreeUnbind = (\<lambda>db. db), FreeClose = (\<lambda>db. db\<lparr>cursor := None\<rparr>)\<rparr>"

lemma sample_odbc_sel [simp]:
  "ExecCreate sample_odbc = sample_create" "ExecSelect sample_odbc = sample_select"
  "Fetch sample_odbc = fetch_row" "GetData sample_odbc c n db = (take (n div 2 - 1) (row db), db)"
  "free_stmt sample_odbc db = db\<lparr>cursor := None\<rparr>"
  by (simp_all add: sample_odbc_def free_stmt_def)

interpretation sample: statement_handle sample_odbc "\<lambda>db. case cursor db of None \<Rightarrow> [] | Some ws \<Rightarrow> ws" row "\<lambda>db. cursor db \<noteq> None"
  by unfold_locales (auto simp: fetch_row_def sample_select_def sample_create_def sample_odbc_def split: option.splits)

text \<open>An account \<open>test001\<close> with its id as the password, like those of \<open>04_Account_Init.sql\<close>.\<close>

definition test001 :: bytes where
  "test001 = [116, 101, 115, 116, 48, 48, 49]"

definition init_db :: account_db where
  "init_db = \<lparr>Account = [(test001, widen test001)], cursor = None, row = []\<rparr>"

lemma narrow_widen [simp]: "narrow (widen s) = s"
  by (induction s) (auto simp: narrow_def widen_def ucast_up_ucast is_up)

lemma narrow_take: "narrow (take n ws) = take n (narrow ws)"
  by (simp add: narrow_def take_map)

lemma length_widen [simp]: "length (widen s) = length s"
  by (simp add: widen_def)

lemma init_db_select:
  "ExecSelect sample_odbc test001 init_db = (SQL_SUCCESS, init_db\<lparr>cursor := Some [widen test001]\<rparr>)"
  by (simp add: sample_select_def init_db_def)

lemma test001_found: "test001 \<in> (\<lambda>w. narrow (take 9 w)) ` set [widen test001]"
  by (simp add: narrow_take) (simp add: test001_def)

lemma sample_login: "\<exists>db'. SelectAccount sample_odbc test001 test001 init_db = Some (True, db')"
  using sample.select_returns[OF init_db_select, of test001] test001_found by (simp add: succeeded_def)

section \<open>Properties\<close>

text \<open>
  C34. \<open>SelectAccount\<close> ends on every result set, and answers whether some row's password, cut to the
  nine characters the read buffer has room for, is the given one.
\<close>

theorem SelectAccount_correct:
  assumes "result_set d remaining current" and "ExecSelect d uid db = (ret, db1)"
  shows "\<exists>db'. SelectAccount d uid pw db =
    Some (succeeded ret \<and> pw \<in> (\<lambda>w. narrow (take 9 w)) ` set (remaining db1), db')"
  using result_set.select_returns[OF assms] .

theorem SelectAccount_correct_witness:
  "\<exists>db'. SelectAccount sample_odbc test001 test001 init_db = Some (True, db')"
  using SelectAccount_correct[OF sample.result_set_axioms init_db_select, of test001] test001_found
  by (simp add: succeeded_def)

text \<open>
  A ten-character password, which the protocol and the table admit, is never accepted: the read
  buffer holds nine characters, so an account created with one cannot log in.
\<close>

lemma ten_character_password_rejected:
  assumes "result_set d remaining current" and "length pw = 10"
  shows "\<exists>db'. SelectAccount d uid pw db = Some (False, db')"
proof -
  obtain ret db1 where "ExecSelect d uid db = (ret, db1)"
    by fastforce
  moreover have "pw \<notin> (\<lambda>w. narrow (take 9 w)) ` set (remaining db1)"
    using assms(2) by (auto simp: narrow_def dest: arg_cong[where f = length])
  ultimately show ?thesis
    using result_set.select_returns[OF assms(1), of uid db ret db1 pw] by simp
qed

lemma ten_character_password_rejected_witness:
  "\<exists>db'. SelectAccount sample_odbc test001 (replicate 10 97)
     (init_db\<lparr>Account := [(test001, widen (replicate 10 97))]\<rparr>) = Some (False, db')"
  by (rule ten_character_password_rejected[OF sample.result_set_axioms]) simp

text \<open>
  C23. Creating an account and logging in on the shared statement handle, for every driver with the documented
  behaviour of a handle: when the call of the creating procedure succeeds and returns a result set,
  \<open>CreateAccount\<close> reports success and leaves the cursor open. The next operation on the handle then fails,
  whatever its arguments: another \<open>CreateAccount\<close> reports failure, and a login is refused whatever the id and
  the password. That refused login closes the cursor, so the login after it is answered from the rows, by
  their first nine characters.
\<close>

theorem create_then_login:
  assumes "statement_handle d remaining current cursor_open"
    and "ExecCreate d uid pw db = (ret, db1)" and "succeeded ret" and "cursor_open db1"
  shows "CreateAccount d uid pw db = (True, db1)
    \<and> \<not> fst (CreateAccount d uid' pw' db1)
    \<and> (\<exists>db2. SelectAccount d uid' pw' db1 = Some (False, db2) \<and> \<not> cursor_open db2
         \<and> (case ExecSelect d uid'' db2 of (ret', db3) \<Rightarrow> \<exists>db4. SelectAccount d uid'' pw'' db2 =
              Some (succeeded ret' \<and> pw'' \<in> (\<lambda>w. narrow (take 9 w)) ` set (remaining db3), db4)))"
proof -
  have rs: "result_set d remaining current"
    using assms(1) by (simp add: statement_handle_def)
  obtain db2 where db2: "SelectAccount d uid' pw' db1 = Some (False, db2)" "\<not> cursor_open db2"
    by (rule statement_handle.select_fails[OF assms(1,4)])
  obtain ret' db3 where e: "ExecSelect d uid'' db2 = (ret', db3)"
    by fastforce
  show ?thesis
    using assms(2,3) statement_handle.create_fails[OF assms(1,4)] db2 result_set.select_returns[OF rs e, of pw''] e
    by (auto simp: CreateAccount_def)
qed

theorem create_then_login_witness:
  "\<exists>db1 db2 db3. CreateAccount sample_odbc [97] [98] init_db = (True, db1)
    \<and> SelectAccount sample_odbc [97] [98] db1 = Some (False, db2)
    \<and> SelectAccount sample_odbc [97] [98] db2 = Some (True, db3)"
proof -
  let ?db = "init_db\<lparr>Account := Account init_db @ [([97], widen [98])], cursor := Some [widen [98]]\<rparr>"
  have c: "ExecCreate sample_odbc [97] [98] init_db = (SQL_SUCCESS, ?db)"
    by (simp add: sample_create_def sample_select_def init_db_def test001_def)
  have "SelectAccount sample_odbc [97] [98] ?db = Some (False, ?db\<lparr>cursor := None\<rparr>)"
    by (simp add: SelectAccount_def sample_select_def succeeded_def)
  then show ?thesis
    using create_then_login[OF sample.statement_handle_axioms c, of "[97]" "[98]" "[97]" "[98]"]
    by (auto simp: succeeded_def sample_select_def init_db_def test001_def narrow_take)
qed

end
