(* ===== verification/User_Manager.thy ===== *)
theory User_Manager
  imports Rooms Accounts
begin

text \<open>
  The application state and \<open>UserManager\<close> (\<open>User/UserManager.*\<close>), with the operations of
  \<open>User\<close> that go through the managers (\<open>EnterRoom\<close>, \<open>LeaveRoom\<close>, \<open>GetRoom\<close>,
  \<open>CheckLoginable\<close>, ...). The state \<open>app\<close> has the heap of sessions, the manager's fields, the
  room table, the state of the account database and the outbox of sent packets.

  Shown here: the invariant \<open>app_ok\<close>, which every operation keeps, and in it the session
  directory: a user id that a session holds is registered for that session.
\<close>

record 'db app =
  heap :: heap
  mUserObjPool :: "nat list"
  mMaxUserCnt :: int
  mCurrentUserCnt :: int
  mUserIDDictionary :: "bytes \<rightharpoonup> int"
  rooms :: room_manager
  accounts :: 'db
  sent :: outbox

section \<open>UserManager\<close>

definition on_user :: "nat \<Rightarrow> (user \<Rightarrow> user result) \<Rightarrow> 'db app \<Rightarrow> 'db app result" where
  "on_user p f a = bindr (f (heap a p)) (\<lambda>u. Inr (a\<lparr>heap := (heap a)(p := u)\<rparr>))"

text \<open>\<open>mUserObjPool[i] = new User(); mUserObjPool[i]->Init(i, ...)\<close> for \<open>i\<close> from 0: the object
  made in round \<open>i\<close> has address \<open>i\<close>.\<close>

fun init_pool :: "nat list \<Rightarrow> heap \<Rightarrow> heap result" where
  "init_pool [] h = Inr h"
| "init_pool (i # is) h = bindr (User_Init (int i) new_User) (\<lambda>u. init_pool is (h(i := u)))"

definition UserManager_Init :: "int \<Rightarrow> 'db \<Rightarrow> room_manager \<Rightarrow> 'db app result" where
  "UserManager_Init maxUserCount db rm =
     bindr (init_pool [0..<nat maxUserCount] (\<lambda>_. new_User)) (\<lambda>h.
       Inr \<lparr>heap = h, mUserObjPool = [0..<nat maxUserCount], mMaxUserCnt = maxUserCount,
            mCurrentUserCnt = 0, mUserIDDictionary = Map.empty, rooms = rm, accounts = db, sent = []\<rparr>)"

definition UserManager_SetSendPacketFunc :: "sink option \<Rightarrow> 'db app \<Rightarrow> 'db app" where
  "UserManager_SetSendPacketFunc f a =
     a\<lparr>heap := fold (\<lambda>p h. h(p := (h p)\<lparr>sendPacketFunc := f\<rparr>)) (take (nat (mMaxUserCnt a)) (mUserObjPool a)) (heap a)\<rparr>"

definition IncreaseUserCnt :: "'db app \<Rightarrow> 'db app" where
  "IncreaseUserCnt a = a\<lparr>mCurrentUserCnt := mCurrentUserCnt a + 1\<rparr>"

definition DecreaseUserCnt :: "'db app \<Rightarrow> 'db app" where
  "DecreaseUserCnt a = (if mCurrentUserCnt a > 0 then a\<lparr>mCurrentUserCnt := mCurrentUserCnt a - 1\<rparr> else a)"

definition GetUserByConnIdx :: "int \<Rightarrow> 'db app \<Rightarrow> nat result" where
  "GetUserByConnIdx i a =
     (if 0 \<le> i \<and> nat i < length (mUserObjPool a) then Inr (mUserObjPool a ! nat i) else Inl OutOfRange)"

definition AddUser :: "bytes \<Rightarrow> int \<Rightarrow> 'db app \<Rightarrow> (RESULT_CODE \<times> 'db app) result" where
  "AddUser userID clientIndex a =
     bindr (GetUserByConnIdx clientIndex a) (\<lambda>p.
     bindr (on_user p (SetLogin userID) a) (\<lambda>a1.
     Inr (NONE, a1\<lparr>mUserIDDictionary :=
       (case mUserIDDictionary a1 userID of
          None \<Rightarrow> (mUserIDDictionary a1)(userID \<mapsto> clientIndex)
        | Some _ \<Rightarrow> mUserIDDictionary a1)\<rparr>)))"

definition FindUserIndexByID :: "bytes \<Rightarrow> 'db app \<Rightarrow> int" where
  "FindUserIndexByID userID a = (case mUserIDDictionary a userID of Some i \<Rightarrow> i | None \<Rightarrow> -1)"

definition DeleteUserInfo :: "nat \<Rightarrow> 'db app \<Rightarrow> 'db app result" where
  "DeleteUserInfo p a =
     on_user p User_Clear
       (a\<lparr>mUserIDDictionary := (mUserIDDictionary a)(mUserID (heap a p) := None)\<rparr>)"

definition GetCurrentUserCnt :: "'db app \<Rightarrow> int" where [simp]:
  "GetCurrentUserCnt a = mCurrentUserCnt a"

definition GetMaxUserCnt :: "'db app \<Rightarrow> int" where [simp]:
  "GetMaxUserCnt a = mMaxUserCnt a"

definition CheckLoginable :: "'db odbc \<Rightarrow> u32 \<Rightarrow> bytes \<Rightarrow> bytes \<Rightarrow> 'db app \<Rightarrow> (RESULT_CODE \<times> 'db app) result" where
  "CheckLoginable d clientIndex userID password a =
     (if GetCurrentUserCnt a \<ge> GetMaxUserCnt a then Inr (LOGIN_USER_USED_ALL_OBJ, a)
      else if FindUserIndexByID userID a = -1 then
        (case SelectAccount d userID password (accounts a) of
           None \<Rightarrow> Inl NoReturn
         | Some (found, db) \<Rightarrow>
             let a1 = a\<lparr>accounts := db\<rparr> in
             if found then bindr (AddUser userID (sint clientIndex) a1) (\<lambda>(_, a2). Inr (LOGIN_SUCCESS, a2))
             else Inr (LOGIN_USER_INVALID_PW, a1))
      else Inr (LOGIN_USER_ALREADY, a))"

definition UserManager_CreateAccount :: "'db odbc \<Rightarrow> bytes \<Rightarrow> bytes \<Rightarrow> 'db app \<Rightarrow> bool \<times> 'db app" where
  "UserManager_CreateAccount d userID password a =
     (case CreateAccount d userID password (accounts a) of (b, db) \<Rightarrow> (b, a\<lparr>accounts := db\<rparr>))"

section \<open>Operations of a session on the managers\<close>

text \<open>What a session asks of its managers.\<close>

definition User_CreateAccount :: "'db odbc \<Rightarrow> bytes \<Rightarrow> bytes \<Rightarrow> 'db app \<Rightarrow> bool \<times> 'db app" where [simp]:
  "User_CreateAccount d userID password a = UserManager_CreateAccount d userID password a"

definition User_CheckLoginable :: "'db odbc \<Rightarrow> u32 \<Rightarrow> bytes \<Rightarrow> bytes \<Rightarrow> 'db app \<Rightarrow> (RESULT_CODE \<times> 'db app) result" where [simp]:
  "User_CheckLoginable d clientIndex userID password a = CheckLoginable d clientIndex userID password a"

definition User_GetRoomList :: "'db app \<Rightarrow> int list" where [simp]:
  "User_GetRoomList a = GetRoomList (rooms a)"

definition User_EnterRoom :: "nat \<Rightarrow> int \<Rightarrow> 'db app \<Rightarrow> (RESULT_CODE \<times> 'db app) result" where
  "User_EnterRoom p roomIndex a =
     bindr (RoomManager_EnterUser (heap a) roomIndex p (rooms a) (sent a)) (\<lambda>(rc, rm, out).
     bindr (on_user p (\<lambda>u. ChangeState InRoom (u\<lparr>mRoomIndex := roomIndex\<rparr>)) (a\<lparr>rooms := rm, sent := out\<rparr>))
       (\<lambda>a1. Inr (rc, a1)))"

definition User_LeaveRoom :: "nat \<Rightarrow> 'db app \<Rightarrow> (RESULT_CODE \<times> 'db app) result" where
  "User_LeaveRoom p a =
     bindr (RoomManager_LeaveUser (heap a) (mRoomIndex (heap a p)) p (rooms a) (sent a)) (\<lambda>(rc, rm, out).
     bindr (on_user p (ChangeState InLobby) (a\<lparr>rooms := rm, sent := out\<rparr>))
       (\<lambda>a1. Inr (rc, a1)))"

definition User_GetRoom :: "nat \<Rightarrow> 'db app \<Rightarrow> nat option result" where
  "User_GetRoom p a = GetRoomByNumber (mRoomIndex (heap a p)) (rooms a)"

section \<open>The invariant\<close>

definition session_ok :: "nat \<Rightarrow> user \<Rightarrow> bool" where
  "session_ok p u \<longleftrightarrow> user_ok u \<and> buffer_ok u \<and> mIndex u = int p \<and> sendPacketFunc u = Some ChatServer_SendMsg"

definition directory_ok :: "nat \<Rightarrow> heap \<Rightarrow> (bytes \<rightharpoonup> int) \<Rightarrow> bool" where
  "directory_ok n h m \<longleftrightarrow>
     (\<forall>p < n. mUserID (h p) \<noteq> [] \<longrightarrow> m (mUserID (h p)) = Some (int p))
     \<and> (\<forall>uid i. m uid = Some i \<longrightarrow> 0 \<le> i)"

definition app_ok :: "'db app \<Rightarrow> bool" where
  "app_ok a \<longleftrightarrow> mUserObjPool a = [0..<length (mUserObjPool a)]
     \<and> length (mUserObjPool a) < 2 ^ 31
     \<and> mMaxUserCnt a = int (length (mUserObjPool a))
     \<and> (\<forall>p < length (mUserObjPool a). session_ok p (heap a p))
     \<and> rooms_ok (rooms a)
     \<and> directory_ok (length (mUserObjPool a)) (heap a) (mUserIDDictionary a)"

definition live :: "'db app \<Rightarrow> nat \<Rightarrow> bool" where
  "live a p \<longleftrightarrow> p < length (mUserObjPool a)"

lemma live_upd [simp]:
  "live (a\<lparr>heap := h\<rparr>) p = live a p" "live (a\<lparr>sent := out\<rparr>) p = live a p"
  "live (a\<lparr>rooms := rm\<rparr>) p = live a p" "live (a\<lparr>accounts := db\<rparr>) p = live a p"
  "live (a\<lparr>mUserIDDictionary := m\<rparr>) p = live a p"
  by (simp_all add: live_def)

lemma app_ok_session: "app_ok a \<Longrightarrow> live a p \<Longrightarrow> session_ok p (heap a p)"
  by (simp add: app_ok_def live_def)

lemma app_ok_rooms: "app_ok a \<Longrightarrow> rooms_ok (rooms a)"
  by (simp add: app_ok_def)

lemma app_ok_upd [simp]:
  "app_ok (a\<lparr>sent := out\<rparr>) = app_ok a" "app_ok (a\<lparr>accounts := db\<rparr>) = app_ok a"
  by (simp_all add: app_ok_def)

lemma app_ok_set_rooms: "app_ok a \<Longrightarrow> rooms_ok rm \<Longrightarrow> app_ok (a\<lparr>rooms := rm\<rparr>)"
  by (simp add: app_ok_def)

lemma sint_conn_idx:
  assumes "p < 2 ^ 31"
  shows "sint (word_of_int (int p) :: u32) = int p"
  using assms by (simp add: signed_of_nat signed_take_bit_int_eq_self)

lemma GetUserByConnIdx_live:
  assumes "app_ok a" and "live a p"
  shows "GetUserByConnIdx (int p) a = Inr p"
proof -
  have "mUserObjPool a ! p = p"
    using assms by (metis add_0 app_ok_def live_def nth_upt)
  then show ?thesis
    using assms(2) by (simp add: GetUserByConnIdx_def live_def)
qed

text \<open>An update of one session that keeps its id, or clears it, keeps the invariant.\<close>

lemma app_ok_set_user:
  assumes ok: "app_ok a" and lv: "live a p" and u: "session_ok p u"
    and id: "mUserID u = [] \<or> mUserID u = mUserID (heap a p)"
  shows "app_ok (a\<lparr>heap := (heap a)(p := u)\<rparr>)"
  using assms by (auto simp: app_ok_def directory_ok_def)

text \<open>What only the session's table depends on.\<close>

lemma session_ok_upd [simp]:
  "session_ok p (u\<lparr>mRoomIndex := n\<rparr>) = session_ok p u"
  "session_ok p (u\<lparr>mUserID := uid\<rparr>) = session_ok p u"
  by (auto simp: session_ok_def user_ok_def cleared_def in_state_def buffer_ok_def unread_def)

lemma in_state_upd [simp]:
  "in_state (u\<lparr>mRoomIndex := n\<rparr>) = in_state u" "in_state (u\<lparr>mUserID := uid\<rparr>) = in_state u"
  by (auto simp: in_state_def)

lemma session_ChangeState:
  assumes u: "session_ok p u" and s: "s \<in> {Connected, InLobby, InRoom}"
  obtains u' where "ChangeState s u = Inr u'" and "session_ok p u'" and "mState u' = s" and "in_state u'"
    and "mUserID u' = mUserID u" and "mRoomIndex u' = mRoomIndex u"
proof -
  have "user_ok u"
    using u by (simp add: session_ok_def)
  then obtain u' where u': "ChangeState s u = Inr u'" "user_ok u'" "in_state u'" "mState u' = s"
    "mUserID u' = mUserID u" "mIndex u' = mIndex u" "mRoomIndex u' = mRoomIndex u"
    "sendPacketFunc u' = sendPacketFunc u" "mPacketDataBuffer u' = mPacketDataBuffer u"
    "mPacketDataBufferWPos u' = mPacketDataBufferWPos u" "mPacketDataBufferRPos u' = mPacketDataBufferRPos u"
    using s by (rule ChangeState_ok)
  then show thesis
    using u by (intro that[of u']) (auto simp: session_ok_def buffer_ok_def unread_def)
qed

lemma session_Clear:
  assumes u: "session_ok p u"
  obtains u' where "User_Clear u = Inr u'" and "session_ok p u'" and "cleared u'" and "mUserID u' = []"
    and "mState u' = mState u" and "mRoomIndex u' = -1" and "stream u' = []"
proof -
  obtain u' where u': "User_Clear u = Inr u'"
    by (simp add: User_Clear_eq)
  have ok: "user_ok u"
    using u by (simp add: session_ok_def)
  note c = User_Clear_ok[OF ok u']
  have st: "unread u' = []"
    using c(8,9) by (simp add: unread_def)
  then have "session_ok p u'"
    using u c by (auto simp: session_ok_def buffer_ok_def user_ok_def)
  then show thesis
    using u' c st by (intro that[of u']) (auto simp: stream_def)
qed

lemma FindUserIndexByID_none:
  assumes "app_ok a"
  shows "FindUserIndexByID uid a = -1 \<longleftrightarrow> mUserIDDictionary a uid = None"
proof -
  have "0 \<le> i" if "mUserIDDictionary a uid = Some i" for i
    using assms that by (auto simp: app_ok_def directory_ok_def)
  then show ?thesis
    by (fastforce simp: FindUserIndexByID_def split: option.splits)
qed

text \<open>A session takes a user id that nobody is registered with.\<close>

lemma app_ok_register:
  assumes ok: "app_ok a" and lv: "live a p" and u: "session_ok p u" and new: "mUserIDDictionary a (mUserID u) = None"
  shows "app_ok (a\<lparr>heap := (heap a)(p := u), mUserIDDictionary := (mUserIDDictionary a)(mUserID u \<mapsto> int p)\<rparr>)"
proof -
  let ?n = "length (mUserObjPool a)"
  have dir: "directory_ok ?n (heap a) (mUserIDDictionary a)"
    using ok by (simp add: app_ok_def)
  then have other: "mUserID u = []" if "q < ?n" and "mUserID (heap a q) = mUserID u" for q
    using that new by (auto simp: directory_ok_def)
  have "directory_ok ?n ((heap a)(p := u)) ((mUserIDDictionary a)(mUserID u \<mapsto> int p))"
    using dir by (auto simp: directory_ok_def intro: other)
  then show ?thesis
    using ok u by (auto simp: app_ok_def)
qed

section \<open>What the operations do\<close>

lemma AddUser_new:
  assumes ok: "app_ok a" and lv: "live a p" and new: "mUserIDDictionary a uid = None"
  obtains u' where "AddUser uid (int p) a = Inr (NONE, a\<lparr>heap := (heap a)(p := u'),
      mUserIDDictionary := (mUserIDDictionary a)(uid \<mapsto> int p)\<rparr>)"
    and "app_ok (a\<lparr>heap := (heap a)(p := u'), mUserIDDictionary := (mUserIDDictionary a)(uid \<mapsto> int p)\<rparr>)"
    and "mState u' = InLobby" and "in_state u'" and "mUserID u' = uid" and "session_ok p u'"
proof -
  obtain u0 where u0: "ChangeState InLobby (heap a p) = Inr u0" "session_ok p u0" "mState u0 = InLobby" "in_state u0"
    by (rule session_ChangeState[OF app_ok_session[OF ok lv], of InLobby]) auto
  let ?u = "u0\<lparr>mUserID := uid\<rparr>"
  have "AddUser uid (int p) a = Inr (NONE, a\<lparr>heap := (heap a)(p := ?u),
      mUserIDDictionary := (mUserIDDictionary a)(uid \<mapsto> int p)\<rparr>)"
    using u0(1) new by (simp add: AddUser_def GetUserByConnIdx_live[OF ok lv] on_user_def SetLogin_def)
  then show thesis
    using u0 app_ok_register[OF ok lv, of ?u] new by (intro that[of ?u]) auto
qed

lemma DeleteUserInfo_ok:
  assumes ok: "app_ok a" and lv: "live a p"
  obtains u' where "DeleteUserInfo p a = Inr (a\<lparr>mUserIDDictionary := (mUserIDDictionary a)(mUserID (heap a p) := None),
       heap := (heap a)(p := u')\<rparr>)"
    and "app_ok (a\<lparr>mUserIDDictionary := (mUserIDDictionary a)(mUserID (heap a p) := None),
       heap := (heap a)(p := u')\<rparr>)"
    and "session_ok p u'" and "cleared u'" and "mUserID u' = []" and "mState u' = mState (heap a p)"
    and "mRoomIndex u' = -1" and "stream u' = []"
proof -
  obtain u' where u': "User_Clear (heap a p) = Inr u'" "session_ok p u'" "cleared u'" "mUserID u' = []"
    "mState u' = mState (heap a p)" "mRoomIndex u' = -1" "stream u' = []"
    by (rule session_Clear[OF app_ok_session[OF ok lv]])
  let ?n = "length (mUserObjPool a)"
  let ?m = "(mUserIDDictionary a)(mUserID (heap a p) := None)"
  have dir: "directory_ok ?n (heap a) (mUserIDDictionary a)"
    using ok by (simp add: app_ok_def)
  have other: "mUserID (heap a p) = []" if "q < ?n" "q \<noteq> p" "mUserID (heap a q) = mUserID (heap a p)" for q
    using dir that lv by (metis directory_ok_def live_def of_nat_eq_iff option.inject)
  have "directory_ok ?n ((heap a)(p := u')) ?m"
    using dir u'(4) by (auto simp: directory_ok_def intro: other)
  then have "app_ok (a\<lparr>mUserIDDictionary := ?m, heap := (heap a)(p := u')\<rparr>)"
    using ok u'(2) by (auto simp: app_ok_def)
  then show thesis
    using u' by (intro that[of u']) (auto simp: DeleteUserInfo_def on_user_def)
qed

lemma set_session:
  assumes "app_ok a" and "live a p" and "session_ok p u" and "mUserID u = mUserID (heap a p)"
  shows "app_ok (a\<lparr>heap := (heap a)(p := u)\<rparr>)"
  using app_ok_set_user[OF assms(1,2,3)] assms(4) by simp

text \<open>\<open>EnterRoom\<close> changes the state whatever the manager answered.\<close>

lemma User_EnterRoom_ok:
  assumes ok: "app_ok a" and lv: "live a p"
    and rm: "RoomManager_EnterUser (heap a) n p (rooms a) (sent a) = Inr (rc, rm', out')"
  obtains u' where "User_EnterRoom p n a = Inr (rc, a\<lparr>rooms := rm', sent := out', heap := (heap a)(p := u')\<rparr>)"
    and "app_ok (a\<lparr>rooms := rm', sent := out', heap := (heap a)(p := u')\<rparr>)"
    and "session_ok p u'" and "mState u' = InRoom" and "in_state u'" and "mRoomIndex u' = n"
    and "mUserID u' = mUserID (heap a p)"
proof -
  have "session_ok p ((heap a p)\<lparr>mRoomIndex := n\<rparr>)"
    using app_ok_session[OF ok lv] by simp
  then obtain u' where u': "ChangeState InRoom ((heap a p)\<lparr>mRoomIndex := n\<rparr>) = Inr u'" "session_ok p u'"
    "mState u' = InRoom" "in_state u'" "mUserID u' = mUserID (heap a p)" "mRoomIndex u' = n"
    by (rule session_ChangeState[of _ _ InRoom]) auto
  have "rooms_ok rm'"
    using RoomManager_EnterUser_ok[OF app_ok_rooms[OF ok] rm] .
  then have "app_ok (a\<lparr>rooms := rm', sent := out'\<rparr>)"
    using ok by (simp add: app_ok_set_rooms)
  then have "app_ok (a\<lparr>rooms := rm', sent := out', heap := (heap a)(p := u')\<rparr>)"
    using set_session[of "a\<lparr>rooms := rm', sent := out'\<rparr>" p u'] lv u' by simp
  then show thesis
    using u' rm by (intro that[of u']) (auto simp: User_EnterRoom_def on_user_def)
qed

lemma User_LeaveRoom_ok:
  assumes ok: "app_ok a" and lv: "live a p"
    and rm: "RoomManager_LeaveUser (heap a) (mRoomIndex (heap a p)) p (rooms a) (sent a) = Inr (rc, rm', out')"
  obtains u' where "User_LeaveRoom p a = Inr (rc, a\<lparr>rooms := rm', sent := out', heap := (heap a)(p := u')\<rparr>)"
    and "app_ok (a\<lparr>rooms := rm', sent := out', heap := (heap a)(p := u')\<rparr>)"
    and "session_ok p u'" and "mState u' = InLobby" and "in_state u'"
    and "mRoomIndex u' = mRoomIndex (heap a p)" and "mUserID u' = mUserID (heap a p)"
proof -
  obtain u' where u': "ChangeState InLobby (heap a p) = Inr u'" "session_ok p u'"
    "mState u' = InLobby" "in_state u'" "mUserID u' = mUserID (heap a p)" "mRoomIndex u' = mRoomIndex (heap a p)"
    by (rule session_ChangeState[OF app_ok_session[OF ok lv], of InLobby]) auto
  have "rooms_ok rm'"
    using RoomManager_LeaveUser_ok[OF app_ok_rooms[OF ok] rm] .
  then have "app_ok (a\<lparr>rooms := rm', sent := out'\<rparr>)"
    using ok by (simp add: app_ok_set_rooms)
  then have "app_ok (a\<lparr>rooms := rm', sent := out', heap := (heap a)(p := u')\<rparr>)"
    using set_session[of "a\<lparr>rooms := rm', sent := out'\<rparr>" p u'] lv u' by simp
  then show thesis
    using u' rm by (intro that[of u']) (auto simp: User_LeaveRoom_def on_user_def)
qed


text \<open>Setting up: every session fresh, with its index and the send function.\<close>

lemma init_pool_eq: "distinct is \<Longrightarrow> init_pool is h = Inr (\<lambda>p. if p \<in> set is then fresh_session (int p) else h p)"
  by (induction "is" arbitrary: h) (auto simp: User_Init_fresh fun_eq_iff)

definition ready_session :: "nat \<Rightarrow> user" where
  "ready_session p = (fresh_session (int p))\<lparr>sendPacketFunc := Some ChatServer_SendMsg\<rparr>"

lemma fold_set_send:
  "distinct ps \<Longrightarrow> fold (\<lambda>p h. h(p := (h p)\<lparr>sendPacketFunc := f\<rparr>)) ps h
     = (\<lambda>p. if p \<in> set ps then (h p)\<lparr>sendPacketFunc := f\<rparr> else h p)"
  by (induction ps arbitrary: h) (auto simp: fun_eq_iff)

definition ready_app :: "nat \<Rightarrow> 'db \<Rightarrow> room_manager \<Rightarrow> 'db app" where
  "ready_app n db rm = \<lparr>heap = (\<lambda>p. if p < n then ready_session p else new_User), mUserObjPool = [0..<n],
     mMaxUserCnt = int n, mCurrentUserCnt = 0, mUserIDDictionary = Map.empty, rooms = rm,
     accounts = db, sent = []\<rparr>"

lemma UserManager_Init_ready:
  "bindr (UserManager_Init (int n) db rm) (\<lambda>a. Inr (UserManager_SetSendPacketFunc (Some ChatServer_SendMsg) a))
     = Inr (ready_app n db rm)"
  by (auto simp: UserManager_Init_def init_pool_eq UserManager_SetSendPacketFunc_def fold_set_send
      ready_app_def ready_session_def fun_eq_iff)

lemma ready_session_sel [simp]:
  "mIndex (ready_session p) = int p" "mRoomIndex (ready_session p) = -1" "mUserID (ready_session p) = []"
  "mState (ready_session p) = NoneState" "sendPacketFunc (ready_session p) = Some ChatServer_SendMsg"
  by (simp_all add: ready_session_def)

lemma ready_session_ok: "session_ok p (ready_session p)" "stream (ready_session p) = []" "cleared (ready_session p)"
proof -
  have "user_ok (fresh_session (int p))"
    using fresh_session_ok(1) .
  then show "session_ok p (ready_session p)"
    using fresh_buffer_ok[of "int p"]
    by (auto simp: session_ok_def ready_session_def user_ok_def cleared_def in_state_def buffer_ok_def unread_def)
  show "stream (ready_session p) = []"
    by (simp add: stream_def unread_def ready_session_def)
  show "cleared (ready_session p)"
    using cleared_ResetRecvFunction by (simp add: ready_session_def fresh_session_def cleared_def)
qed

lemma ready_app_sel [simp]:
  "mUserObjPool (ready_app n db rm) = [0..<n]" "mMaxUserCnt (ready_app n db rm) = int n"
  "mCurrentUserCnt (ready_app n db rm) = 0" "mUserIDDictionary (ready_app n db rm) = Map.empty"
  "rooms (ready_app n db rm) = rm" "accounts (ready_app n db rm) = db" "sent (ready_app n db rm) = []"
  "p < n \<Longrightarrow> heap (ready_app n db rm) p = ready_session p"
  by (simp_all add: ready_app_def)

lemma ready_app_live [simp]: "live (ready_app n db rm) p \<longleftrightarrow> p < n"
  by (simp add: live_def)

lemma ready_app_ok: "n < 2 ^ 31 \<Longrightarrow> rooms_ok rm \<Longrightarrow> app_ok (ready_app n db rm)"
  by (simp add: app_ok_def directory_ok_def ready_session_ok)

section \<open>Properties\<close>

text \<open>
  C22. \<open>CheckLoginable\<close> on every branch, for a session of the pool: with all places taken the login is refused and
  nothing changes, also not the data base; an id that somebody is registered with is refused and nothing changes;
  a data base whose result set never ends keeps the call from returning; a wrong password is refused and only the
  data base changes; otherwise the id is registered for the session, which moves to the lobby with that id and the
  lobby's handlers, and the invariant holds afterwards.
\<close>

theorem CheckLoginable_cases:
  assumes ok: "app_ok a" and lv: "live a p"
  shows "if mMaxUserCnt a \<le> mCurrentUserCnt a
      then CheckLoginable d (word_of_int (int p)) uid pw a = Inr (LOGIN_USER_USED_ALL_OBJ, a)
    else if mUserIDDictionary a uid \<noteq> None
      then CheckLoginable d (word_of_int (int p)) uid pw a = Inr (LOGIN_USER_ALREADY, a)
    else case SelectAccount d uid pw (accounts a) of
        None \<Rightarrow> CheckLoginable d (word_of_int (int p)) uid pw a = Inl NoReturn
      | Some (False, db') \<Rightarrow> CheckLoginable d (word_of_int (int p)) uid pw a = Inr (LOGIN_USER_INVALID_PW, a\<lparr>accounts := db'\<rparr>)
      | Some (True, db') \<Rightarrow> \<exists>u a'. a' = a\<lparr>accounts := db', heap := (heap a)(p := u),
                  mUserIDDictionary := (mUserIDDictionary a)(uid \<mapsto> int p)\<rparr>
           \<and> CheckLoginable d (word_of_int (int p)) uid pw a = Inr (LOGIN_SUCCESS, a')
           \<and> mState u = InLobby \<and> mUserID u = uid \<and> in_state u \<and> app_ok a'"
proof (cases "mMaxUserCnt a \<le> mCurrentUserCnt a \<or> mUserIDDictionary a uid \<noteq> None")
  case True
  then show ?thesis
    using FindUserIndexByID_none[OF ok, of uid] by (auto simp: CheckLoginable_def)
next
  case False
  note f = FindUserIndexByID_none[OF ok, of uid]
  have "p < 2 ^ 31"
    using ok lv by (simp add: app_ok_def live_def)
  then have idx: "sint (word_of_int (int p) :: u32) = int p"
    by (rule sint_conn_idx)
  show ?thesis
  proof (cases "SelectAccount d uid pw (accounts a)")
    case None
    then show ?thesis
      using False f by (simp add: CheckLoginable_def)
  next
    case (Some x)
    obtain found db' where db: "SelectAccount d uid pw (accounts a) = Some (found, db')"
      using Some by (cases x) simp
    let ?a = "a\<lparr>accounts := db'\<rparr>"
    obtain u where u: "AddUser uid (int p) ?a = Inr (NONE, ?a\<lparr>heap := (heap a)(p := u),
        mUserIDDictionary := (mUserIDDictionary a)(uid \<mapsto> int p)\<rparr>)"
      "app_ok (?a\<lparr>heap := (heap a)(p := u), mUserIDDictionary := (mUserIDDictionary a)(uid \<mapsto> int p)\<rparr>)"
      "mState u = InLobby" "in_state u" "mUserID u = uid"
      by (rule AddUser_new[of ?a p uid]) (use ok lv False in auto)
    show ?thesis
      using False f db u idx by (cases found) (auto simp: CheckLoginable_def)
  qed
qed

theorem CheckLoginable_cases_witness:
  "\<exists>u a'. CheckLoginable sample_odbc 1 test001 test001 (ready_app 100 init_db chat_rooms) = Inr (LOGIN_SUCCESS, a')
     \<and> heap a' 1 = u \<and> mState u = InLobby \<and> mUserID u = test001 \<and> app_ok a'"
proof -
  let ?a = "ready_app 100 init_db chat_rooms"
  obtain db' where "SelectAccount sample_odbc test001 test001 init_db = Some (True, db')"
    using sample_login by blast
  then have db: "SelectAccount sample_odbc test001 test001 (accounts ?a) = Some (True, db')"
    by simp
  have ok: "app_ok ?a"
    by (intro ready_app_ok chat_rooms_ok) simp
  show ?thesis
    using CheckLoginable_cases[OF ok, of 1 sample_odbc test001 test001] db by auto
qed

text \<open>
  \<open>User::EnterRoom\<close> moves the session to the state \<open>InRoom\<close> with the requested number even
  when the room manager refused it: the answer \<open>ROOM_INVALID_INDEX\<close> or \<open>ROOM_FULL\<close> leaves a session
  that has the room handlers and is in no member list of the table.
\<close>

lemma refused_entry_changes_state:
  assumes ok: "app_ok a" and lv: "live a p"
    and bad: "n < mBeginRoomNumber (rooms a) \<or> mEndRoomNumber (rooms a) \<le> n"
  shows "\<exists>a'. User_EnterRoom p n a = Inr (ROOM_INVALID_INDEX, a') \<and> rooms a' = rooms a
    \<and> mState (heap a' p) = InRoom \<and> mRoomIndex (heap a' p) = n \<and> in_state (heap a' p)
    \<and> User_GetRoom p a' = Inr None"
proof -
  have g: "GetRoomByNumber n (rooms a) = Inr None"
    using bad by (auto simp: GetRoomByNumber_def)
  then have rm: "RoomManager_EnterUser (heap a) n p (rooms a) (sent a) = Inr (ROOM_INVALID_INDEX, rooms a, sent a)"
    by (simp add: RoomManager_EnterUser_def)
  show ?thesis
    by (rule User_EnterRoom_ok[OF ok lv rm]) (use g in \<open>auto simp: User_GetRoom_def\<close>)
qed

end
