(* ===== verification/Handlers.thy ===== *)
theory Handlers
  imports User_Manager
begin

text \<open>
  The request handlers of the session states (directory \<open>User/State/\<close>): \<open>UserStateConnected\<close>
  (account creation and login), \<open>UserStateInLobby\<close> (room list, entering a room) and
  \<open>UserStateInRoom\<close> (member list, leaving, chat). A handler runs for the session \<open>p\<close> that owns the
  state object; \<open>pPacket\<close> is an offset into that session's packet buffer.

  Shown here: every handler keeps the invariant of the application state and the other sessions'
  objects (\<open>handler_ok\<close>), what each handler does and sends on every branch, and the
  two-step sequence that makes the server dereference a null room.
\<close>

section \<open>The handlers\<close>

text \<open>\<open>mUser->sendPacketFunc(clientIndex, size, data)\<close>.\<close>

definition send_to :: "nat \<Rightarrow> u32 \<Rightarrow> u32 \<Rightarrow> cell list \<Rightarrow> 'db app \<Rightarrow> 'db app result" where
  "send_to p clientIndex packetSize data a =
     bindr (send_call (sendPacketFunc (heap a p)) clientIndex packetSize data (sent a))
       (\<lambda>out. Inr (a\<lparr>sent := out\<rparr>))"

definition send_ack :: "nat \<Rightarrow> u32 \<Rightarrow> PACKET_ID \<Rightarrow> RESULT_CODE \<Rightarrow> 'db app \<Rightarrow> 'db app result" where
  "send_ack p clientIndex pid rc a =
     send_to p clientIndex (of_nat ACK_PACKET_SIZE) (ack_cells pid (result_code rc)) a"

text \<open>Access through \<open>pPacket\<close>.\<close>

fun with_ptr :: "nat option \<Rightarrow> (nat \<Rightarrow> 'a result) \<Rightarrow> 'a result" where
  "with_ptr None f = Inl NullDeref"
| "with_ptr (Some ptr) f = f ptr"

definition ProcessCreateAccount :: "'db odbc \<Rightarrow> nat \<Rightarrow> u32 \<Rightarrow> u16 \<Rightarrow> nat option \<Rightarrow> 'db app \<Rightarrow> 'db app result" where
  "ProcessCreateAccount d p clientIndex packetSize pPacket a =
     (if REQ_CREATE_ACCOUNT_PACKET_SIZE \<noteq> unat packetSize then Inr a
      else with_ptr pPacket (\<lambda>packet.
        bindr (read_string (packet + off_UserID) (mPacketDataBuffer (heap a p))) (\<lambda>userID.
        bindr (read_string (packet + off_UserPW) (mPacketDataBuffer (heap a p))) (\<lambda>password.
          case User_CreateAccount d userID password a of
            (created, a1) \<Rightarrow>
              send_ack p clientIndex ACK_CREATE_ACCOUNT (if created then NONE else CREATE_ACCOUNT_FAIL) a1))))"

definition ProcessLogin :: "'db odbc \<Rightarrow> nat \<Rightarrow> u32 \<Rightarrow> u16 \<Rightarrow> nat option \<Rightarrow> 'db app \<Rightarrow> 'db app result" where
  "ProcessLogin d p clientIndex packetSize pPacket a =
     (if REQ_LOGIN_PACKET_SIZE \<noteq> unat packetSize then Inr a
      else with_ptr pPacket (\<lambda>packet.
        bindr (read_string (packet + off_UserID) (mPacketDataBuffer (heap a p))) (\<lambda>userID.
        bindr (read_string (packet + off_UserPW) (mPacketDataBuffer (heap a p))) (\<lambda>password.
        bindr (User_CheckLoginable d clientIndex userID password a) (\<lambda>(rc, a1).
        bindr (if result_code rc = result_code LOGIN_SUCCESS then on_user p (SetLogin userID) a1 else Inr a1)
          (send_ack p clientIndex ACK_LOGIN rc))))))"

definition ProcessLobbyInfo :: "nat \<Rightarrow> u32 \<Rightarrow> u16 \<Rightarrow> nat option \<Rightarrow> 'db app \<Rightarrow> 'db app result" where
  "ProcessLobbyInfo p clientIndex packetSize pPacket a =
     bindr (send_ack p clientIndex ACK_LOBBY_INFO LOBBY_INFO_SUCCESS a) (\<lambda>a1.
       let Room = User_GetRoomList a1;
           packetLength = lobby_info_length Room
       in send_to p clientIndex (of_nat packetLength) (notify_lobby_cells Room) a1)"

definition ProcessEnterRoom :: "nat \<Rightarrow> u32 \<Rightarrow> u16 \<Rightarrow> nat option \<Rightarrow> 'db app \<Rightarrow> 'db app result" where
  "ProcessEnterRoom p clientIndex packetSize pPacket a =
     with_ptr pPacket (\<lambda>packet.
     bindr (read_u32 (packet + off_RoomNumber) (mPacketDataBuffer (heap a p))) (\<lambda>RoomNumber.
     bindr (User_EnterRoom p (sint RoomNumber) a) (\<lambda>(rc, a1).
       send_ack p clientIndex ACK_ROOM_ENTER rc a1)))"

definition ProcessRoomInfo :: "nat \<Rightarrow> u32 \<Rightarrow> u16 \<Rightarrow> nat option \<Rightarrow> 'db app \<Rightarrow> 'db app result" where
  "ProcessRoomInfo p clientIndex packetSize pPacket a =
     bindr (User_GetRoom p a) (\<lambda>room.
       case room of
         None \<Rightarrow> Inl NullDeref
       | Some i \<Rightarrow>
           let Users = GetRoomMemberList (heap a) (mRoomList (rooms a) ! i);
               packetLength = room_info_length Users
           in send_to p clientIndex (of_nat packetLength) (ack_room_info_cells ENTER_ROOM_SUCCESS Users) a)"

definition ProcessLeaveRoom :: "nat \<Rightarrow> u32 \<Rightarrow> u16 \<Rightarrow> nat option \<Rightarrow> 'db app \<Rightarrow> 'db app result" where
  "ProcessLeaveRoom p clientIndex packetSize pPacket a =
     bindr (User_LeaveRoom p a) (\<lambda>(rc, a1). send_ack p clientIndex ACK_ROOM_LEAVE rc a1)"

definition ProcessRoomChatMessage :: "nat \<Rightarrow> u32 \<Rightarrow> u16 \<Rightarrow> nat option \<Rightarrow> 'db app \<Rightarrow> 'db app result" where
  "ProcessRoomChatMessage p clientIndex packetSize pPacket a =
     bindr (User_GetRoom p a) (\<lambda>room.
       case room of
         None \<Rightarrow> send_ack p clientIndex ACK_ROOM_CHAT CHAT_ROOM_INVALID_ROOM_NUMBER a
       | Some i \<Rightarrow>
           bindr (send_ack p clientIndex ACK_ROOM_CHAT CHAT_ROOM_SUCCESS a) (\<lambda>a1.
             with_ptr pPacket (\<lambda>packet.
             bindr (NotifyChat (heap a1) (sint clientIndex) (mUserID (heap a1 p)) (packet + off_Message)
                      (mPacketDataBuffer (heap a1 p)) (mRoomList (rooms a1) ! i) (sent a1))
               (\<lambda>out. Inr (a1\<lparr>sent := out\<rparr>)))))"

text \<open>The closures in \<open>recvFuntionDictionary\<close>: they pass \<open>mUser->GetNetConnIdx()\<close> as the
  client index.\<close>

fun run_recv :: "'db odbc \<Rightarrow> recv_fun \<Rightarrow> nat \<Rightarrow> u16 \<Rightarrow> nat option \<Rightarrow> 'db app \<Rightarrow> 'db app result" where
  "run_recv d RecvNothing p packetSize packet a = Inr a"
| "run_recv d Connected_ProcessCreateAccount p packetSize packet a =
     ProcessCreateAccount d p (word_of_int (GetNetConnIdx (heap a) p)) packetSize packet a"
| "run_recv d Connected_ProcessLogin p packetSize packet a =
     ProcessLogin d p (word_of_int (GetNetConnIdx (heap a) p)) packetSize packet a"
| "run_recv d InLobby_ProcessLobbyInfo p packetSize packet a =
     ProcessLobbyInfo p (word_of_int (GetNetConnIdx (heap a) p)) packetSize packet a"
| "run_recv d InLobby_ProcessEnterRoom p packetSize packet a =
     ProcessEnterRoom p (word_of_int (GetNetConnIdx (heap a) p)) packetSize packet a"
| "run_recv d InRoom_ProcessRoomInfo p packetSize packet a =
     ProcessRoomInfo p (word_of_int (GetNetConnIdx (heap a) p)) packetSize packet a"
| "run_recv d InRoom_ProcessLeaveRoom p packetSize packet a =
     ProcessLeaveRoom p (word_of_int (GetNetConnIdx (heap a) p)) packetSize packet a"
| "run_recv d InRoom_ProcessRoomChatMessage p packetSize packet a =
     ProcessRoomChatMessage p (word_of_int (GetNetConnIdx (heap a) p)) packetSize packet a"

section \<open>What is sent\<close>

lemma send_to_whole:
  assumes "session_ok p (heap a p)" and "length data < 65536"
  shows "send_to p c (of_nat (length data)) data a = Inr (a\<lparr>sent := sent a @ [(c, data)]\<rparr>)"
  using assms by (simp add: send_to_def session_ok_def send_call_whole)

lemma send_ack_eq:
  assumes "session_ok p (heap a p)"
  shows "send_ack p c pid rc a = Inr (a\<lparr>sent := sent a @ [(c, ack_cells pid (result_code rc))]\<rparr>)"
  unfolding send_ack_def using send_to_whole[OF assms, of "ack_cells pid (result_code rc)" c]
  by (simp add: packet_sizes)


section \<open>What a handler may change\<close>

text \<open>
  \<open>keeps p a a'\<close>: from \<open>a\<close> to \<open>a'\<close> the invariant is kept, the pool stays, no session object but
  \<open>p\<close> is written, and the outbox only grows.
\<close>

definition keeps :: "nat \<Rightarrow> 'db app \<Rightarrow> 'db app \<Rightarrow> bool" where
  "keeps p a a' \<longleftrightarrow> app_ok a' \<and> mUserObjPool a' = mUserObjPool a \<and> (\<forall>q. q \<noteq> p \<longrightarrow> heap a' q = heap a q)
     \<and> (\<exists>out. sent a' = sent a @ out)"

lemma keeps_refl: "app_ok a \<Longrightarrow> keeps p a a"
  by (simp add: keeps_def)

lemma keeps_trans [trans]: "keeps p a b \<Longrightarrow> keeps p b c \<Longrightarrow> keeps p a c"
  by (fastforce simp: keeps_def)

lemma keeps_live: "keeps p a a' \<Longrightarrow> live a' q = live a q"
  by (simp add: keeps_def live_def)

lemma keeps_ok: "keeps p a a' \<Longrightarrow> app_ok a'"
  by (simp add: keeps_def)

lemma keeps_sent: "app_ok a \<Longrightarrow> keeps p a (a\<lparr>sent := sent a @ out\<rparr>)"
  by (simp add: keeps_def)

lemma keeps_accounts: "app_ok a \<Longrightarrow> keeps p a (a\<lparr>accounts := db\<rparr>)"
  by (simp add: keeps_def)

lemma send_to_keeps:
  assumes "app_ok a" and "send_to p c n data a = Inr a'"
  shows "keeps p a a'"
  using assms
  by (auto simp: send_to_def send_call_def bindr_simps keeps_def split: option.splits sink.splits)

lemma send_ack_keeps: "app_ok a \<Longrightarrow> send_ack p c pid rc a = Inr a' \<Longrightarrow> keeps p a a'"
  by (simp add: send_ack_def send_to_keeps)

lemma keeps_ack: "keeps p a b \<Longrightarrow> send_ack p c pid rc b = Inr a' \<Longrightarrow> keeps p a a'"
  by (blast intro: keeps_trans send_ack_keeps keeps_ok)

lemma keeps_send: "keeps p a b \<Longrightarrow> send_to p c n data b = Inr a' \<Longrightarrow> keeps p a a'"
  by (blast intro: keeps_trans send_to_keeps keeps_ok)

lemma Room_EnterUser_sent:
  assumes "room_ok r" and "Room_EnterUser h p r out = Inr (rc, r', out')"
  shows "\<exists>xs. out' = out @ xs"
  using assms by (auto simp: room_ok_def Room_EnterUser_eq split: if_splits)

lemma Room_LeaveUser_sent:
  assumes "room_ok r" and "Room_LeaveUser h p r out = Inr (rc, r', out')"
  shows "\<exists>xs. out' = out @ xs"
  using assms by (auto simp: room_ok_def Room_LeaveUser_eq split: if_splits)

lemma RoomManager_EnterUser_sent:
  assumes ok: "rooms_ok rm" and ret: "RoomManager_EnterUser h n p rm out = Inr (rc, rm', out')"
  shows "\<exists>xs. out' = out @ xs"
  by (cases rule: RoomManager_EnterUser_cases[OF ok ret])
     (auto dest: Room_EnterUser_sent[OF GetRoomByNumber_Some(3)[OF ok]])

lemma RoomManager_LeaveUser_sent:
  assumes ok: "rooms_ok rm" and ret: "RoomManager_LeaveUser h n p rm out = Inr (rc, rm', out')"
  shows "\<exists>xs. out' = out @ xs"
  by (cases rule: RoomManager_LeaveUser_cases[OF ok ret])
     (auto dest: Room_LeaveUser_sent[OF GetRoomByNumber_Some(3)[OF ok]])

lemma User_EnterRoom_keeps:
  assumes ok: "app_ok a" and lv: "live a p" and ret: "User_EnterRoom p n a = Inr (rc, a')"
  shows "keeps p a a'" and "mUserID (heap a' p) = mUserID (heap a p)"
    and "mState (heap a' p) = InRoom" and "mRoomIndex (heap a' p) = n" and "in_state (heap a' p)"
proof -
  obtain rc0 rm' out' where rm: "RoomManager_EnterUser (heap a) n p (rooms a) (sent a) = Inr (rc0, rm', out')"
    using ret by (auto simp: User_EnterRoom_def bindr_simps)
  note out = RoomManager_EnterUser_sent[OF app_ok_rooms[OF ok] rm]
  obtain u' where e: "User_EnterRoom p n a = Inr (rc0, a\<lparr>rooms := rm', sent := out', heap := (heap a)(p := u')\<rparr>)"
    and "app_ok (a\<lparr>rooms := rm', sent := out', heap := (heap a)(p := u')\<rparr>)"
    and "mState u' = InRoom" and "in_state u'" and "mRoomIndex u' = n" and "mUserID u' = mUserID (heap a p)"
    by (rule User_EnterRoom_ok[OF ok lv rm])
  moreover have "a' = a\<lparr>rooms := rm', sent := out', heap := (heap a)(p := u')\<rparr>"
    using e ret by simp
  ultimately show "keeps p a a'" and "mUserID (heap a' p) = mUserID (heap a p)"
    and "mState (heap a' p) = InRoom" and "mRoomIndex (heap a' p) = n" and "in_state (heap a' p)"
    using out by (auto simp: keeps_def)
qed

lemma User_LeaveRoom_keeps:
  assumes ok: "app_ok a" and lv: "live a p" and ret: "User_LeaveRoom p a = Inr (rc, a')"
  shows "keeps p a a'" and "mState (heap a' p) = InLobby" and "in_state (heap a' p)"
proof -
  obtain rc0 rm' out' where rm: "RoomManager_LeaveUser (heap a) (mRoomIndex (heap a p)) p (rooms a) (sent a) = Inr (rc0, rm', out')"
    using ret by (auto simp: User_LeaveRoom_def bindr_simps)
  note out = RoomManager_LeaveUser_sent[OF app_ok_rooms[OF ok] rm]
  obtain u' where e: "User_LeaveRoom p a = Inr (rc0, a\<lparr>rooms := rm', sent := out', heap := (heap a)(p := u')\<rparr>)"
    and "app_ok (a\<lparr>rooms := rm', sent := out', heap := (heap a)(p := u')\<rparr>)"
    and "mState u' = InLobby" and "in_state u'"
    by (rule User_LeaveRoom_ok[OF ok lv rm])
  moreover have "a' = a\<lparr>rooms := rm', sent := out', heap := (heap a)(p := u')\<rparr>"
    using e ret by simp
  ultimately show "keeps p a a'" and "mState (heap a' p) = InLobby" and "in_state (heap a' p)"
    using out by (auto simp: keeps_def)
qed

lemma SetLogin_keeps:
  assumes ok: "app_ok a" and lv: "live a p" and id: "mUserID (heap a p) = uid"
    and ret: "on_user p (SetLogin uid) a = Inr a'"
  shows "keeps p a a'" and "mUserID (heap a' p) = uid"
    and "mState (heap a' p) = InLobby" and "in_state (heap a' p)"
proof -
  obtain u' where u': "ChangeState InLobby (heap a p) = Inr u'" "session_ok p u'" "mState u' = InLobby"
    "in_state u'" "mUserID u' = mUserID (heap a p)"
    by (rule session_ChangeState[OF app_ok_session[OF ok lv], of InLobby]) auto
  have a': "a' = a\<lparr>heap := (heap a)(p := u'\<lparr>mUserID := uid\<rparr>)\<rparr>"
    using ret u'(1) by (simp add: on_user_def SetLogin_def)
  have "app_ok a'"
    unfolding a' using u' id by (intro set_session[OF ok lv]) auto
  then show "keeps p a a'" and "mUserID (heap a' p) = uid"
    and "mState (heap a' p) = InLobby" and "in_state (heap a' p)"
    using u' by (auto simp: keeps_def a')
qed

lemma live_index: "app_ok a \<Longrightarrow> live a p \<Longrightarrow> sint (word_of_int (int p) :: u32) = int p"
  by (rule sint_conn_idx) (simp add: app_ok_def live_def)

lemma CheckLoginable_keeps:
  assumes ok: "app_ok a" and lv: "live a p"
    and ret: "CheckLoginable d (word_of_int (int p)) uid pw a = Inr (rc, a')"
  shows "keeps p a a'" and "rc = LOGIN_SUCCESS \<Longrightarrow> mUserID (heap a' p) = uid"
proof -
  consider "a' = a" "rc \<noteq> LOGIN_SUCCESS" | db where "a' = a\<lparr>accounts := db\<rparr>" "rc \<noteq> LOGIN_SUCCESS"
    | (login) db r where "mUserIDDictionary a uid = None" "AddUser uid (int p) (a\<lparr>accounts := db\<rparr>) = Inr (r, a')"
    using ret live_index[OF ok lv] FindUserIndexByID_none[OF ok]
    by (auto simp: CheckLoginable_def Let_def bindr_simps split: if_splits option.splits)
  then have "keeps p a a' \<and> (rc = LOGIN_SUCCESS \<longrightarrow> mUserID (heap a' p) = uid)"
  proof cases
    case login
    let ?a = "a\<lparr>accounts := db\<rparr>"
    obtain u' where u': "AddUser uid (int p) ?a = Inr (NONE, ?a\<lparr>heap := (heap ?a)(p := u'),
        mUserIDDictionary := (mUserIDDictionary ?a)(uid \<mapsto> int p)\<rparr>)"
      "app_ok (?a\<lparr>heap := (heap ?a)(p := u'), mUserIDDictionary := (mUserIDDictionary ?a)(uid \<mapsto> int p)\<rparr>)"
      "mUserID u' = uid"
      by (rule AddUser_new[of ?a p uid]) (use ok lv login(1) in auto)
    then show ?thesis
      using login(2) by (auto simp: keeps_def)
  qed (auto simp: keeps_refl keeps_accounts ok)
  then show "keeps p a a'" and "rc = LOGIN_SUCCESS \<Longrightarrow> mUserID (heap a' p) = uid"
    by auto
qed


section \<open>Every handler keeps the invariant\<close>

lemma with_ptr_Inr: "with_ptr q f = Inr x \<longleftrightarrow> (\<exists>ptr. q = Some ptr \<and> f ptr = Inr x)"
  by (cases q) auto

lemma ProcessCreateAccount_keeps:
  assumes ok: "app_ok a" and ret: "ProcessCreateAccount d p c n q a = Inr a'"
  shows "keeps p a a'"
proof (cases "REQ_CREATE_ACCOUNT_PACKET_SIZE = unat n")
  case False
  then show ?thesis
    using ret ok by (simp add: ProcessCreateAccount_def keeps_refl)
next
  case True
  then obtain db rc where "send_ack p c ACK_CREATE_ACCOUNT rc (a\<lparr>accounts := db\<rparr>) = Inr a'"
    using ret by (auto simp: ProcessCreateAccount_def UserManager_CreateAccount_def with_ptr_Inr bindr_simps
        split: prod.splits)
  then show ?thesis
    using keeps_accounts[OF ok] by (auto intro: keeps_ack)
qed

lemma ProcessLogin_keeps:
  assumes ok: "app_ok a" and lv: "live a p" and ret: "ProcessLogin d p (word_of_int (int p)) n q a = Inr a'"
  shows "keeps p a a'"
proof (cases "REQ_LOGIN_PACKET_SIZE = unat n")
  case False
  then show ?thesis
    using ret ok by (simp add: ProcessLogin_def keeps_refl)
next
  case True
  then obtain uid pw rc a1 a2 where l: "CheckLoginable d (word_of_int (int p)) uid pw a = Inr (rc, a1)"
    and s: "(if result_code rc = result_code LOGIN_SUCCESS then on_user p (SetLogin uid) a1 else Inr a1) = Inr a2"
    and k: "send_ack p (word_of_int (int p)) ACK_LOGIN rc a2 = Inr a'"
    using ret by (auto simp: ProcessLogin_def with_ptr_Inr bindr_simps)
  note k1 = CheckLoginable_keeps[OF ok lv l]
  have k2: "keeps p a1 a2"
  proof (cases "rc = LOGIN_SUCCESS")
    case True
    then show ?thesis
      using s k1 keeps_live[OF k1(1)] lv by (intro SetLogin_keeps(1)[of a1 p uid]) (auto dest: keeps_ok)
  next
    case False
    then have "result_code rc \<noteq> result_code LOGIN_SUCCESS"
      using result_code_inj by blast
    then show ?thesis
      using s k1(1) by (simp add: keeps_refl keeps_ok)
  qed
  show ?thesis
    using keeps_ack[OF keeps_trans[OF k1(1) k2] k] .
qed

lemma ProcessLobbyInfo_keeps:
  assumes "app_ok a" and "ProcessLobbyInfo p c n q a = Inr a'"
  shows "keeps p a a'"
  using assms
  by (auto simp: ProcessLobbyInfo_def bindr_simps Let_def intro: keeps_send[rotated] send_ack_keeps)

lemma ProcessEnterRoom_keeps:
  assumes ok: "app_ok a" and lv: "live a p" and ret: "ProcessEnterRoom p c n q a = Inr a'"
  shows "keeps p a a'"
  using ret
  by (auto simp: ProcessEnterRoom_def with_ptr_Inr bindr_simps
      intro: keeps_ack[rotated] User_EnterRoom_keeps(1)[OF ok lv])

lemma ProcessRoomInfo_keeps:
  assumes "app_ok a" and "ProcessRoomInfo p c n q a = Inr a'"
  shows "keeps p a a'"
  using assms by (auto simp: ProcessRoomInfo_def bindr_simps Let_def split: option.splits intro: send_to_keeps)

lemma ProcessLeaveRoom_keeps:
  assumes ok: "app_ok a" and lv: "live a p" and ret: "ProcessLeaveRoom p c n q a = Inr a'"
  shows "keeps p a a'"
  using ret
  by (auto simp: ProcessLeaveRoom_def bindr_simps
      intro: keeps_ack[rotated] User_LeaveRoom_keeps(1)[OF ok lv])

lemma rooms_nth_ok: "rooms_ok rm \<Longrightarrow> i < length (mRoomList rm) \<Longrightarrow> room_ok (mRoomList rm ! i)"
  by (simp add: rooms_ok_def)

lemma NotifyChat_sent:
  assumes "room_ok r" and "NotifyChat h i uid off mem r out = Inr out'"
  shows "\<exists>xs. out' = out @ xs"
  using assms by (auto simp: room_ok_def NotifyChat_eq split: if_splits)

lemma ProcessRoomChatMessage_keeps:
  assumes ok: "app_ok a" and ret: "ProcessRoomChatMessage p c n q a = Inr a'"
  shows "keeps p a a'"
proof -
  obtain g where g: "GetRoomByNumber (mRoomIndex (heap a p)) (rooms a) = Inr g"
    using ret by (auto simp: ProcessRoomChatMessage_def User_GetRoom_def bindr_simps)
  show ?thesis
  proof (cases g)
    case None
    then show ?thesis
      using ret g ok by (auto simp: ProcessRoomChatMessage_def User_GetRoom_def intro: send_ack_keeps)
  next
    case (Some i)
    have r: "room_ok (mRoomList (rooms a) ! i)"
      using GetRoomByNumber_Some(3)[OF app_ok_rooms[OF ok]] g Some by simp
    obtain a1 where a1: "send_ack p c ACK_ROOM_CHAT CHAT_ROOM_SUCCESS a = Inr a1"
      using ret g Some by (auto simp: ProcessRoomChatMessage_def User_GetRoom_def bindr_simps)
    have k: "keeps p a a1" "rooms a1 = rooms a"
      using send_ack_keeps[OF ok a1] a1 by (auto simp: send_ack_def send_to_def bindr_simps)
    obtain ptr out where "NotifyChat (heap a1) (sint c) (mUserID (heap a1 p)) (ptr + off_Message)
        (mPacketDataBuffer (heap a1 p)) (mRoomList (rooms a1) ! i) (sent a1) = Inr out"
      and a': "a' = a1\<lparr>sent := out\<rparr>"
      using ret g Some a1 by (auto simp: ProcessRoomChatMessage_def User_GetRoom_def bindr_simps with_ptr_Inr)
    then obtain xs where "out = sent a1 @ xs"
      using NotifyChat_sent r k(2) by metis
    then show ?thesis
      using k a' by (auto intro: keeps_trans keeps_sent keeps_ok)
  qed
qed

lemma run_recv_keeps:
  assumes ok: "app_ok a" and lv: "live a p" and ret: "run_recv d f p n q a = Inr a'"
  shows "keeps p a a'"
proof -
  have "GetNetConnIdx (heap a) p = int p"
    using app_ok_session[OF ok lv] by (simp add: GetNetConnIdx_def session_ok_def)
  then show ?thesis
    using ret ok lv
    by (cases f) (auto simp: keeps_refl simp del: of_int_of_nat_eq
        intro: ProcessCreateAccount_keeps ProcessLogin_keeps ProcessLobbyInfo_keeps ProcessEnterRoom_keeps
          ProcessRoomInfo_keeps ProcessLeaveRoom_keeps ProcessRoomChatMessage_keeps)
qed


section \<open>Handlers leave the packet buffers alone\<close>

definition same_buffer :: "user \<Rightarrow> user \<Rightarrow> bool" where
  "same_buffer u u' \<longleftrightarrow> mPacketDataBuffer u' = mPacketDataBuffer u
     \<and> mPacketDataBufferWPos u' = mPacketDataBufferWPos u \<and> mPacketDataBufferRPos u' = mPacketDataBufferRPos u"

definition same_buffers :: "'db app \<Rightarrow> 'db app \<Rightarrow> bool" where
  "same_buffers a a' \<longleftrightarrow> (\<forall>r. same_buffer (heap a r) (heap a' r))"

lemma same_buffer_stream: "same_buffer u u' \<Longrightarrow> stream u' = stream u"
  by (simp add: same_buffer_def stream_def unread_def)

lemma same_buffer_refl [simp]: "same_buffer u u"
  by (simp add: same_buffer_def)

lemma same_buffer_trans: "same_buffer u v \<Longrightarrow> same_buffer v w \<Longrightarrow> same_buffer u w"
  by (simp add: same_buffer_def)

lemma same_buffers_refl: "heap a' = heap a \<Longrightarrow> same_buffers a a'"
  by (simp add: same_buffers_def)

lemma same_buffers_trans: "same_buffers a b \<Longrightarrow> same_buffers b c \<Longrightarrow> same_buffers a c"
  unfolding same_buffers_def using same_buffer_trans by blast

lemma ChangeState_buffer: "ChangeState s u = Inr u' \<Longrightarrow> same_buffer u u'"
  by (auto simp: ChangeState_def same_buffer_def Let_def simp del: state_Enter.simps state_Exit.simps split: if_splits option.splits)

lemma SetLogin_buffer: "SetLogin uid u = Inr u' \<Longrightarrow> same_buffer u u'"
  by (auto simp: SetLogin_def bindr_simps same_buffer_def dest!: ChangeState_buffer)

lemma on_user_buffers:
  "on_user p f a = Inr a' \<Longrightarrow> (\<And>u'. f (heap a p) = Inr u' \<Longrightarrow> same_buffer (heap a p) u') \<Longrightarrow> same_buffers a a'"
  by (auto simp: on_user_def bindr_simps same_buffers_def)

lemma send_to_buffers: "send_to p c n data a = Inr a' \<Longrightarrow> same_buffers a a'"
  by (auto simp: send_to_def bindr_simps same_buffers_def)

lemma AddUser_buffers: "AddUser uid i a = Inr (rc, a') \<Longrightarrow> same_buffers a a'"
  by (auto simp: AddUser_def bindr_simps same_buffers_def dest!: on_user_buffers intro: SetLogin_buffer)

lemma CheckLoginable_buffers:
  assumes "CheckLoginable d c uid pw a = Inr (rc, a')"
  shows "same_buffers a a'"
proof -
  have "a' = a \<or> (\<exists>db. a' = a\<lparr>accounts := db\<rparr>) \<or> (\<exists>db r. AddUser uid (sint c) (a\<lparr>accounts := db\<rparr>) = Inr (r, a'))"
    using assms by (auto simp: CheckLoginable_def Let_def bindr_simps split: if_splits option.splits)
  then show ?thesis
    by (auto simp: same_buffers_def dest: AddUser_buffers)
qed

lemma User_EnterRoom_buffers: "User_EnterRoom p n a = Inr (rc, a') \<Longrightarrow> same_buffers a a'"
  by (auto simp: User_EnterRoom_def bindr_simps on_user_def same_buffers_def same_buffer_def dest!: ChangeState_buffer)

lemma User_LeaveRoom_buffers: "User_LeaveRoom p a = Inr (rc, a') \<Longrightarrow> same_buffers a a'"
  by (auto simp: User_LeaveRoom_def bindr_simps on_user_def same_buffers_def same_buffer_def dest!: ChangeState_buffer)

lemma send_ack_buffers: "send_ack p c pid rc a = Inr a' \<Longrightarrow> same_buffers a a'"
  by (simp add: send_ack_def send_to_buffers)

lemma same_buffers_upd [simp]:
  "same_buffers a (b\<lparr>sent := out\<rparr>) = same_buffers a b" "same_buffers (b\<lparr>accounts := db\<rparr>) a = same_buffers b a"
  by (simp_all add: same_buffers_def)

lemma ProcessCreateAccount_buffers:
  assumes "ProcessCreateAccount d p c n q a = Inr a'"
  shows "same_buffers a a'"
proof (cases "REQ_CREATE_ACCOUNT_PACKET_SIZE = unat n")
  case True
  then obtain db rc where "send_ack p c ACK_CREATE_ACCOUNT rc (a\<lparr>accounts := db\<rparr>) = Inr a'"
    using assms by (auto simp: ProcessCreateAccount_def UserManager_CreateAccount_def with_ptr_Inr bindr_simps
        split: prod.splits)
  then show ?thesis
    using send_ack_buffers by force
qed (use assms in \<open>simp add: ProcessCreateAccount_def same_buffers_refl\<close>)

lemma ProcessLogin_buffers:
  assumes "ProcessLogin d p c n q a = Inr a'"
  shows "same_buffers a a'"
proof (cases "REQ_LOGIN_PACKET_SIZE = unat n")
  case True
  then obtain uid pw rc a1 a2 where "CheckLoginable d c uid pw a = Inr (rc, a1)"
    and s: "(if result_code rc = result_code LOGIN_SUCCESS then on_user p (SetLogin uid) a1 else Inr a1) = Inr a2"
    and "send_ack p c ACK_LOGIN rc a2 = Inr a'"
    using assms by (auto simp: ProcessLogin_def with_ptr_Inr bindr_simps)
  moreover have "same_buffers a1 a2"
    using s by (auto intro: on_user_buffers SetLogin_buffer same_buffers_refl split: if_splits)
  ultimately show ?thesis
    by (blast intro: same_buffers_trans CheckLoginable_buffers send_ack_buffers)
qed (use assms in \<open>simp add: ProcessLogin_def same_buffers_refl\<close>)

lemma ProcessRoomChatMessage_buffers: "ProcessRoomChatMessage p c n q a = Inr a' \<Longrightarrow> same_buffers a a'"
  by (auto simp: ProcessRoomChatMessage_def bindr_simps with_ptr_Inr split: option.splits dest!: send_ack_buffers)

lemma run_recv_buffers:
  assumes "run_recv d f p n q a = Inr a'"
  shows "same_buffers a a'"
  using assms
  by (cases f)
     (auto simp: same_buffers_refl ProcessLobbyInfo_def ProcessEnterRoom_def ProcessRoomInfo_def ProcessLeaveRoom_def
       bindr_simps with_ptr_Inr Let_def split: option.splits
       intro: ProcessCreateAccount_buffers ProcessRoomChatMessage_buffers ProcessLogin_buffers same_buffers_trans send_to_buffers send_ack_buffers
         User_EnterRoom_buffers User_LeaveRoom_buffers)

section \<open>Handlers keep the shape of the room table\<close>

text \<open>The numbers and the limits of the rooms never change.\<close>

definition table_shape :: "room_manager \<Rightarrow> int \<times> int list" where
  "table_shape rm = (mBeginRoomNumber rm, map mMaxUserCount (mRoomList rm))"

definition shape :: "'db app \<Rightarrow> int \<times> int list" where
  "shape a = table_shape (rooms a)"

lemma table_shape_update:
  "i < length (mRoomList rm) \<Longrightarrow> mMaxUserCount r = mMaxUserCount (mRoomList rm ! i)
    \<Longrightarrow> table_shape (rm\<lparr>mRoomList := (mRoomList rm)[i := r]\<rparr>) = table_shape rm"
  by (metis (no_types, lifting) table_shape_def list_update_id map_update nth_map room_manager.select_convs(1,2)
      room_manager.simps(5) room_manager.surjective room_manager.update_convs(1))

lemma RoomManager_EnterUser_shape:
  assumes ok: "rooms_ok rm" and ret: "RoomManager_EnterUser h n p rm out = Inr (rc, rm', out')"
  shows "table_shape rm' = table_shape rm"
  by (cases rule: RoomManager_EnterUser_cases[OF ok ret])
     (auto intro: table_shape_update dest: Room_EnterUser_ok(3)[OF GetRoomByNumber_Some(3)[OF ok]])

lemma RoomManager_LeaveUser_shape:
  assumes ok: "rooms_ok rm" and ret: "RoomManager_LeaveUser h n p rm out = Inr (rc, rm', out')"
  shows "table_shape rm' = table_shape rm"
  by (cases rule: RoomManager_LeaveUser_cases[OF ok ret])
     (auto intro: table_shape_update dest: Room_LeaveUser_ok(3)[OF GetRoomByNumber_Some(3)[OF ok]])

lemma on_user_rooms: "on_user p f a = Inr a' \<Longrightarrow> rooms a' = rooms a"
  by (auto simp: on_user_def bindr_simps)

lemma send_to_rooms: "send_to p c n data a = Inr a' \<Longrightarrow> rooms a' = rooms a"
  by (auto simp: send_to_def bindr_simps)

lemma send_ack_rooms: "send_ack p c pid rc a = Inr a' \<Longrightarrow> rooms a' = rooms a"
  by (simp add: send_ack_def send_to_rooms)

lemma AddUser_rooms: "AddUser uid i a = Inr (rc, a') \<Longrightarrow> rooms a' = rooms a"
  by (auto simp: AddUser_def bindr_simps dest!: on_user_rooms)

lemma CheckLoginable_rooms:
  assumes "CheckLoginable d c uid pw a = Inr (rc, a')"
  shows "rooms a' = rooms a"
proof -
  have "a' = a \<or> (\<exists>db. a' = a\<lparr>accounts := db\<rparr>) \<or> (\<exists>db r. AddUser uid (sint c) (a\<lparr>accounts := db\<rparr>) = Inr (r, a'))"
    using assms by (auto simp: CheckLoginable_def Let_def bindr_simps split: if_splits option.splits)
  then show ?thesis
    by (auto dest: AddUser_rooms)
qed

lemma ProcessLogin_rooms:
  assumes "ProcessLogin d p c n q a = Inr a'"
  shows "rooms a' = rooms a"
proof (cases "REQ_LOGIN_PACKET_SIZE = unat n")
  case True
  then obtain uid pw rc a1 a2 where "CheckLoginable d c uid pw a = Inr (rc, a1)"
    and s: "(if result_code rc = result_code LOGIN_SUCCESS then on_user p (SetLogin uid) a1 else Inr a1) = Inr a2"
    and "send_ack p c ACK_LOGIN rc a2 = Inr a'"
    using assms by (auto simp: ProcessLogin_def with_ptr_Inr bindr_simps)
  moreover have "rooms a2 = rooms a1"
    using s by (auto dest: on_user_rooms split: if_splits)
  ultimately show ?thesis
    by (auto dest!: CheckLoginable_rooms send_ack_rooms)
qed (use assms in \<open>simp add: ProcessLogin_def\<close>)

lemma ProcessCreateAccount_rooms:
  assumes "ProcessCreateAccount d p c n q a = Inr a'"
  shows "rooms a' = rooms a"
proof (cases "REQ_CREATE_ACCOUNT_PACKET_SIZE = unat n")
  case True
  then obtain db rc where "send_ack p c ACK_CREATE_ACCOUNT rc (a\<lparr>accounts := db\<rparr>) = Inr a'"
    using assms by (auto simp: ProcessCreateAccount_def UserManager_CreateAccount_def with_ptr_Inr bindr_simps
        split: prod.splits)
  then show ?thesis
    by (auto dest!: send_ack_rooms)
qed (use assms in \<open>simp add: ProcessCreateAccount_def\<close>)

lemma User_EnterRoom_shape: "app_ok a \<Longrightarrow> User_EnterRoom p n a = Inr (rc, a') \<Longrightarrow> shape a' = shape a"
  by (auto simp: User_EnterRoom_def bindr_simps shape_def app_ok_rooms
      dest!: on_user_rooms RoomManager_EnterUser_shape[rotated])

lemma User_LeaveRoom_shape: "app_ok a \<Longrightarrow> User_LeaveRoom p a = Inr (rc, a') \<Longrightarrow> shape a' = shape a"
  by (auto simp: User_LeaveRoom_def bindr_simps shape_def app_ok_rooms
      dest!: on_user_rooms RoomManager_LeaveUser_shape[rotated])

lemma run_recv_shape:
  assumes ok: "app_ok a" and ret: "run_recv d f p n q a = Inr a'"
  shows "shape a' = shape a"
proof (cases "f \<in> {InLobby_ProcessEnterRoom, InRoom_ProcessLeaveRoom}")
  case True
  then show ?thesis
    using ret User_EnterRoom_shape[OF ok] User_LeaveRoom_shape[OF ok]
    by (auto simp: ProcessEnterRoom_def ProcessLeaveRoom_def with_ptr_Inr bindr_simps shape_def dest!: send_ack_rooms)
next
  case False
  then have "rooms a' = rooms a"
    using ret by (cases f) (auto simp: ProcessLobbyInfo_def ProcessRoomInfo_def ProcessRoomChatMessage_def with_ptr_Inr
        bindr_simps Let_def split: option.splits
        dest!: send_ack_rooms send_to_rooms ProcessLogin_rooms ProcessCreateAccount_rooms)
  then show ?thesis
    by (simp add: shape_def)
qed

section \<open>Properties of the handlers\<close>

lemma GetNetConnIdx_live: "app_ok a \<Longrightarrow> live a p \<Longrightarrow> GetNetConnIdx (heap a) p = int p"
  using app_ok_session[of a p] by (simp add: GetNetConnIdx_def session_ok_def)

lemma GetRoomByNumber_numbered:
  "numbered n rm \<Longrightarrow> GetRoomByNumber n rm = Inr (Some (nat (n - mBeginRoomNumber rm)))"
  by (auto simp: numbered_def rooms_ok_def GetRoomByNumber_def Let_def)

text \<open>
  Handlers and the invariant: whichever handler a session runs, with whatever packet, if it
  returns then the invariant of the application state holds, the pool of sessions is the same, only
  the session's own object has changed, and packets have only been added to the outbox.
\<close>

lemma handler_invariant:
  assumes "app_ok a" and "live a p" and "run_recv d f p n q a = Inr a'"
  shows "app_ok a' \<and> mUserObjPool a' = mUserObjPool a \<and> (\<forall>r. r \<noteq> p \<longrightarrow> heap a' r = heap a r)
    \<and> (\<exists>out. sent a' = sent a @ out)"
  using run_recv_keeps[OF assms] by (simp add: keeps_def)

lemma handler_invariant_witness:
  "\<exists>a'. run_recv sample_odbc InLobby_ProcessLobbyInfo 1 5 (Some 0) (ready_app 100 init_db chat_rooms) = Inr a' \<and> app_ok a'"
proof -
  let ?a = "ready_app 100 init_db chat_rooms"
  have ok: "app_ok ?a"
    by (intro ready_app_ok chat_rooms_ok) simp
  have lv: "live ?a 1"
    by simp
  note s = app_ok_session[OF ok lv]
  have r: "run_recv sample_odbc InLobby_ProcessLobbyInfo 1 5 (Some 0) ?a = Inr (?a\<lparr>sent :=
      [(1, ack_cells ACK_LOBBY_INFO 90), (1, notify_lobby_cells (GetRoomList chat_rooms))]\<rparr>)"
    using send_to_whole[of 1 "?a\<lparr>sent := [(1, ack_cells ACK_LOBBY_INFO 90)]\<rparr>" "notify_lobby_cells (GetRoomList chat_rooms)" 1]
    using s by (simp add: ProcessLobbyInfo_def send_ack_eq GetNetConnIdx_def length_notify_lobby_cells
        lobby_info_length_def packet_sizes GetRoomList_def)
  show ?thesis
    using handler_invariant[OF ok lv r] r by blast
qed

text \<open>A login request: where the client's 27-byte image of an id and a password sits in the packet
  buffer, the handler reads both strings back and answers with one acknowledgement.\<close>

lemma login_handled:
  assumes ok: "app_ok a" and lv: "live a p" and cnt: "mCurrentUserCnt a < mMaxUserCnt a"
    and mem: "drop ptr (mPacketDataBuffer (heap a p)) = map Some (account_request REQ_LOGIN t uid pw) @ rest"
    and uid: "0 \<notin> set uid" "length uid \<le> MAX_USER_ID_LEN" and pw: "0 \<notin> set pw" "length pw \<le> MAX_USER_PW_LEN"
    and db: "SelectAccount d uid pw (accounts a) = Some (found, db')"
  shows "\<exists>a'. run_recv d Connected_ProcessLogin p 27 (Some ptr) a = Inr a' \<and> app_ok a' \<and>
    (if mUserIDDictionary a uid \<noteq> None then a' = a\<lparr>sent := sent a @ [(of_nat p, ack_cells ACK_LOGIN 31)]\<rparr>
     else if \<not> found then a' = a\<lparr>accounts := db', sent := sent a @ [(of_nat p, ack_cells ACK_LOGIN 33)]\<rparr>
     else sent a' = sent a @ [(of_nat p, ack_cells ACK_LOGIN 30)]
       \<and> mState (heap a' p) = InLobby \<and> in_state (heap a' p) \<and> mUserID (heap a' p) = uid
       \<and> mUserIDDictionary a' = (mUserIDDictionary a)(uid \<mapsto> int p))"
proof -
  let ?c = "word_of_int (int p) :: u32"
  note str = read_account_request[OF mem uid pw]
  have run: "run_recv d Connected_ProcessLogin p 27 (Some ptr) a =
    bindr (CheckLoginable d ?c uid pw a) (\<lambda>(rc, a1).
      bindr (if result_code rc = result_code LOGIN_SUCCESS then on_user p (SetLogin uid) a1 else Inr a1)
        (send_ack p ?c ACK_LOGIN rc))"
    using str by (simp add: ProcessLogin_def GetNetConnIdx_live[OF ok lv] packet_sizes)
  show ?thesis
  proof (cases "mUserIDDictionary a uid = None \<and> found")
    case False
    then show ?thesis
      using cnt db FindUserIndexByID_none[OF ok, of uid] ok app_ok_session[OF ok lv] unfolding run
      by (cases "mUserIDDictionary a uid") (auto simp: CheckLoginable_def send_ack_eq)
  next
    case True
    let ?a = "a\<lparr>accounts := db'\<rparr>"
    have "mUserIDDictionary ?a uid = None" and "app_ok ?a" and "live ?a p"
      using True ok lv by auto
    from AddUser_new[OF this(2,3,1)] obtain u where
      add: "AddUser uid (int p) ?a = Inr (NONE, ?a\<lparr>heap := (heap ?a)(p := u),
        mUserIDDictionary := (mUserIDDictionary ?a)(uid \<mapsto> int p)\<rparr>)"
      and inv: "app_ok (?a\<lparr>heap := (heap ?a)(p := u), mUserIDDictionary := (mUserIDDictionary ?a)(uid \<mapsto> int p)\<rparr>)"
      and id: "mUserID u = uid"
      by metis
    let ?b = "?a\<lparr>heap := (heap ?a)(p := u), mUserIDDictionary := (mUserIDDictionary ?a)(uid \<mapsto> int p)\<rparr>"
    have chk: "CheckLoginable d ?c uid pw a = Inr (LOGIN_SUCCESS, ?b)"
      using True cnt db FindUserIndexByID_none[OF ok, of uid] add live_index[OF ok lv]
      by (simp add: CheckLoginable_def)
    have lvb: "live ?b p" and idb: "mUserID (heap ?b p) = uid"
      using lv id by (simp_all add: live_def)
    obtain u' where u': "ChangeState InLobby (heap ?b p) = Inr u'"
      by (rule session_ChangeState[OF app_ok_session[OF inv lvb], of InLobby]) auto
    let ?e = "?b\<lparr>heap := (heap ?b)(p := u'\<lparr>mUserID := uid\<rparr>)\<rparr>"
    have set: "on_user p (SetLogin uid) ?b = Inr ?e"
      using u' by (simp add: on_user_def SetLogin_def)
    note k = SetLogin_keeps[OF inv lvb idb set]
    have "session_ok p (heap ?e p)"
      using app_ok_session[OF keeps_ok[OF k(1)]] keeps_live[OF k(1)] lvb by blast
    then have "run_recv d Connected_ProcessLogin p 27 (Some ptr) a = Inr (?e\<lparr>sent := sent ?e @ [(?c, ack_cells ACK_LOGIN 30)]\<rparr>)"
      using run chk set by (simp add: send_ack_eq)
    moreover have "app_ok (?e\<lparr>sent := sent ?e @ [(?c, ack_cells ACK_LOGIN 30)]\<rparr>)"
      using keeps_ok[OF k(1)] by simp
    ultimately show ?thesis
      using True k by simp
  qed
qed

lemma session_appended:
  assumes s: "session_ok p u" and fits: "unat (mPacketDataBufferWPos u) + length bs \<le> PACKET_DATA_BUFFER_SIZE"
  shows "session_ok p (appended bs u)"
proof -
  have b: "buffer_ok (appended bs u)"
    using s fits by (simp add: session_ok_def appended_ok(1))
  then have "length (mPacketDataBuffer (appended bs u)) = PACKET_DATA_BUFFER_SIZE"
    by (simp add: buffer_ok_def)
  then show ?thesis
    using s b by (auto simp: session_ok_def user_ok_def appended_def cleared_def in_state_def)
qed

lemma ready_session_buffer [simp]:
  "mPacketDataBufferWPos (ready_session p) = 0" "mPacketDataBufferRPos (ready_session p) = 0"
  "length (mPacketDataBuffer (ready_session p)) = PACKET_DATA_BUFFER_SIZE"
  by (simp_all add: ready_session_def)

lemma test001_bounds: "0 \<notin> set test001" "length test001 \<le> MAX_USER_ID_LEN" "length test001 \<le> MAX_USER_PW_LEN"
  by (simp_all add: test001_def packet_sizes)

text \<open>
  C35. A client that asks for a room number outside the table crashes the server with its next request:
  \<open>ProcessEnterRoom\<close> answers \<open>ROOM_INVALID_INDEX\<close> but leaves the session in the state
  \<open>InRoom\<close>, and \<open>ProcessRoomInfo\<close> then calls \<open>GetRoomMemberList\<close> through the null room.
\<close>

theorem room_info_null_room:
  assumes ok: "app_ok a" and lv: "live a p"
    and num: "read_u32 (ptr + off_RoomNumber) (mPacketDataBuffer (heap a p)) = Inr k"
    and bad: "sint k < mBeginRoomNumber (rooms a) \<or> mEndRoomNumber (rooms a) \<le> sint k"
  shows "\<exists>a'. run_recv d InLobby_ProcessEnterRoom p n (Some ptr) a = Inr a'
    \<and> sent a' = sent a @ [(of_nat p, ack_cells ACK_ROOM_ENTER 60)]
    \<and> recv_lookup REQ_ROOM_INFO (heap a' p) = Inr InRoom_ProcessRoomInfo
    \<and> run_recv d InRoom_ProcessRoomInfo p n' q a' = Inl NullDeref"
proof -
  have g: "GetRoomByNumber (sint k) (rooms a) = Inr None"
    using bad by (auto simp: GetRoomByNumber_def)
  then have rm: "RoomManager_EnterUser (heap a) (sint k) p (rooms a) (sent a) = Inr (ROOM_INVALID_INDEX, rooms a, sent a)"
    by (simp add: RoomManager_EnterUser_def)
  obtain u where e: "User_EnterRoom p (sint k) a = Inr (ROOM_INVALID_INDEX, a\<lparr>rooms := rooms a, sent := sent a, heap := (heap a)(p := u)\<rparr>)"
    and u: "session_ok p u" "mState u = InRoom" "in_state u" "mRoomIndex u = sint k"
    by (rule User_EnterRoom_ok[OF ok lv rm])
  let ?a = "a\<lparr>heap := (heap a)(p := u), sent := sent a @ [(of_nat p, ack_cells ACK_ROOM_ENTER 60)]\<rparr>"
  have "run_recv d InLobby_ProcessEnterRoom p n (Some ptr) a = Inr ?a"
    using e num u(1) by (simp add: ProcessEnterRoom_def GetNetConnIdx_live[OF ok lv] send_ack_eq)
  moreover have "recv_lookup REQ_ROOM_INFO (heap ?a p) = Inr InRoom_ProcessRoomInfo"
    using u(2,3) by (simp add: recv_lookup_def in_state_def requests_def)
  moreover have "run_recv d InRoom_ProcessRoomInfo p n' q ?a = Inl NullDeref"
    using g u(4) by (simp add: ProcessRoomInfo_def User_GetRoom_def)
  ultimately show ?thesis
    by auto
qed

text \<open>The request \<open>REQ_ROOM_ENTER\<close> for room 99 in the buffer of session 1.\<close>

definition enter_request :: "int \<Rightarrow> bytes" where
  "enter_request n = le16 9 @ le16 (pid16 REQ_ROOM_ENTER) @ [0] @ le32 (word_of_int n)"

definition enter_app :: "int \<Rightarrow> account_db app" where
  "enter_app n = (ready_app 100 init_db chat_rooms)\<lparr>heap := (heap (ready_app 100 init_db chat_rooms))
     (1 := appended (enter_request n) (ready_session 1))\<rparr>"

lemma enter_app_ok: "app_ok (enter_app n)" and enter_app_live: "live (enter_app n) 1"
proof -
  have s: "session_ok 1 (appended (enter_request n) (ready_session 1))"
    by (intro session_appended ready_session_ok) (simp add: enter_request_def PACKET_DATA_BUFFER_SIZE_def)
  have "app_ok (ready_app 100 init_db chat_rooms)"
    by (intro ready_app_ok chat_rooms_ok) simp
  then show "app_ok (enter_app n)"
    unfolding enter_app_def using s by (intro app_ok_set_user) (auto simp: appended_def)
  show "live (enter_app n) 1"
    by (simp add: live_def enter_app_def)
qed

lemma enter_app_number:
  "read_u32 (0 + off_RoomNumber) (mPacketDataBuffer (heap (enter_app n) 1)) = Inr (word_of_int n)"
proof -
  have "block 5 4 (mPacketDataBuffer (heap (enter_app n) 1)) = map Some (le32 (word_of_int n))"
    by (simp add: enter_app_def appended_def enter_request_def block_def blit_def le16_def)
  moreover have "9 \<le> length (mPacketDataBuffer (heap (enter_app n) 1))"
    using app_ok_session[OF enter_app_ok enter_app_live] by (simp add: session_ok_def user_ok_def PACKET_DATA_BUFFER_SIZE_def)
  ultimately show ?thesis
    by (simp add: packet_offsets packet_sizes read_u32_def read_cells_def wire_simps)
qed

theorem room_info_null_room_witness:
  "\<exists>a'. run_recv sample_odbc InLobby_ProcessEnterRoom 1 9 (Some 0) (enter_app 99) = Inr a'
    \<and> run_recv sample_odbc InRoom_ProcessRoomInfo 1 5 (Some 9) a' = Inl NullDeref"
proof -
  have b: "sint (word_of_int 99 :: u32) < mBeginRoomNumber (rooms (enter_app 99))
      \<or> mEndRoomNumber (rooms (enter_app 99)) \<le> sint (word_of_int 99 :: u32)"
    by (simp add: enter_app_def)
  show ?thesis
    using room_info_null_room[OF enter_app_ok enter_app_live enter_app_number b, of sample_odbc 9 5 "Some 9"] by blast
qed

text \<open>The room of a session, when its number is in the table.\<close>

lemma User_GetRoom_numbered:
  assumes "numbered (mRoomIndex (heap a p)) (rooms a)"
  shows "User_GetRoom p a = Inr (Some (nat (mRoomIndex (heap a p) - mBeginRoomNumber (rooms a))))"
    and "mRoomList (rooms a) ! nat (mRoomIndex (heap a p) - mBeginRoomNumber (rooms a))
      = room_numbered (mRoomIndex (heap a p)) (rooms a)"
  using assms by (simp_all add: User_GetRoom_def GetRoomByNumber_numbered room_numbered_def)

lemma room_numbered_send:
  "numbered n rm \<Longrightarrow> SendPacketFunc (room_numbered n rm) = Some ChatServer_SendMsg"
  using room_numbered_ok[of n rm] by (simp add: room_ok_def)

lemma RoomManager_EnterUser_numbered:
  assumes n: "numbered n rm" and space: "uint (mCurrentUserCount (room_numbered n rm)) < mMaxUserCount (room_numbered n rm)"
    and uid: "length (mUserID (h p)) \<le> 11"
  obtains rm' where "RoomManager_EnterUser h n p rm out = Inr (ENTER_ROOM_SUCCESS, rm',
      out @ broadcast h (id_notice NOTIFY_ROOM_INFO (mUserID (h p))) (mUserList (room_numbered n rm)))"
    and "mUserList (room_numbered n rm') = mUserList (room_numbered n rm) @ [p]"
    and "\<forall>m. mBeginRoomNumber rm \<le> m \<and> m \<noteq> n \<longrightarrow> room_numbered m rm' = room_numbered m rm"
proof -
  let ?i = "nat (n - mBeginRoomNumber rm)" and ?r = "room_numbered n rm"
  let ?r' = "?r\<lparr>mUserList := mUserList ?r @ [p], mCurrentUserCount := mCurrentUserCount ?r + 1\<rparr>"
  let ?rm = "rm\<lparr>mRoomList := (mRoomList rm)[?i := ?r']\<rparr>"
  have i: "int ?i = n - mBeginRoomNumber rm" "?i < length (mRoomList rm)" "mRoomList rm ! ?i = ?r"
    and b: "mBeginRoomNumber rm \<le> n"
    using n by (auto simp: numbered_def rooms_ok_def room_numbered_def)
  have e: "RoomManager_EnterUser h n p rm out = Inr (ENTER_ROOM_SUCCESS, ?rm,
      out @ broadcast h (id_notice NOTIFY_ROOM_INFO (mUserID (h p))) (mUserList ?r))"
    using Room_EnterUser_eq[OF room_numbered_send[OF n], of h p out] space uid i(3)
    by (simp add: RoomManager_EnterUser_def GetRoomByNumber_numbered[OF n] Let_def)
  then show thesis
    using i b room_numbered_update[OF i(1,2), of _ ?r'] by (intro that[of ?rm]) auto
qed

lemma RoomManager_LeaveUser_numbered:
  assumes n: "numbered n rm" and uid: "length (mUserID (h p)) \<le> 11"
  obtains rm' where "RoomManager_LeaveUser h n p rm out = Inr (LEAVE_ROOM_SUCCESS, rm',
      out @ broadcast h (id_notice NOTIFY_ROOM_LEAVE (mUserID (h p))) (mUserList (room_numbered n rm)))"
    and "mUserList (room_numbered n rm') = filter (\<lambda>q. mUserID (h p) \<noteq> mUserID (h q)) (mUserList (room_numbered n rm))"
    and "\<forall>m. mBeginRoomNumber rm \<le> m \<and> m \<noteq> n \<longrightarrow> room_numbered m rm' = room_numbered m rm"
proof -
  let ?i = "nat (n - mBeginRoomNumber rm)" and ?r = "room_numbered n rm"
  let ?r' = "?r\<lparr>mUserList := filter (\<lambda>q. mUserID (h p) \<noteq> mUserID (h q)) (mUserList ?r)\<rparr>"
  let ?rm = "rm\<lparr>mRoomList := (mRoomList rm)[?i := ?r']\<rparr>"
  have i: "int ?i = n - mBeginRoomNumber rm" "?i < length (mRoomList rm)" "mRoomList rm ! ?i = ?r"
    and b: "mBeginRoomNumber rm \<le> n"
    using n by (auto simp: numbered_def rooms_ok_def room_numbered_def)
  have e: "RoomManager_LeaveUser h n p rm out = Inr (LEAVE_ROOM_SUCCESS, ?rm,
      out @ broadcast h (id_notice NOTIFY_ROOM_LEAVE (mUserID (h p))) (mUserList ?r))"
    using Room_LeaveUser_eq[OF room_numbered_send[OF n], of h p out] uid i(3)
    by (simp add: RoomManager_LeaveUser_def GetRoomByNumber_numbered[OF n])
  then show thesis
    using i b room_numbered_update[OF i(1,2), of _ ?r'] by (intro that[of ?rm]) auto
qed

text \<open>
  C24. Entering a room with a place left: the members present are notified of the new user, then the
  client gets \<open>ENTER_ROOM_SUCCESS\<close>; the session joins the member list of exactly the requested
  room, no other room changes, and its next requests are the ones of a user in that room.
\<close>

theorem enter_room_request:
  assumes ok: "app_ok a" and lv: "live a p"
    and num: "read_u32 (ptr + off_RoomNumber) (mPacketDataBuffer (heap a p)) = Inr k"
    and n: "numbered (sint k) (rooms a)"
    and space: "uint (mCurrentUserCount (room_numbered (sint k) (rooms a))) < mMaxUserCount (room_numbered (sint k) (rooms a))"
    and uid: "length (mUserID (heap a p)) \<le> 11"
  shows "\<exists>a'. run_recv d InLobby_ProcessEnterRoom p sz (Some ptr) a = Inr a'
    \<and> sent a' = sent a @ broadcast (heap a) (id_notice NOTIFY_ROOM_INFO (mUserID (heap a p)))
                            (mUserList (room_numbered (sint k) (rooms a)))
                @ [(of_nat p, ack_cells ACK_ROOM_ENTER 50)]
    \<and> mUserList (room_numbered (sint k) (rooms a')) = mUserList (room_numbered (sint k) (rooms a)) @ [p]
    \<and> (\<forall>m. mBeginRoomNumber (rooms a) \<le> m \<and> m \<noteq> sint k \<longrightarrow> room_numbered m (rooms a') = room_numbered m (rooms a))
    \<and> in_state (heap a' p) \<and> mState (heap a' p) = InRoom \<and> mRoomIndex (heap a' p) = sint k"
proof -
  obtain rm' where rm: "RoomManager_EnterUser (heap a) (sint k) p (rooms a) (sent a) = Inr (ENTER_ROOM_SUCCESS, rm',
      sent a @ broadcast (heap a) (id_notice NOTIFY_ROOM_INFO (mUserID (heap a p))) (mUserList (room_numbered (sint k) (rooms a))))"
    and l: "mUserList (room_numbered (sint k) rm') = mUserList (room_numbered (sint k) (rooms a)) @ [p]"
    and fr: "\<forall>m. mBeginRoomNumber (rooms a) \<le> m \<and> m \<noteq> sint k \<longrightarrow> room_numbered m rm' = room_numbered m (rooms a)"
    by (rule RoomManager_EnterUser_numbered[where p=p and h="heap a" and out="sent a", OF n space uid])
  obtain u where e: "User_EnterRoom p (sint k) a = Inr (ENTER_ROOM_SUCCESS, a\<lparr>rooms := rm', sent :=
      sent a @ broadcast (heap a) (id_notice NOTIFY_ROOM_INFO (mUserID (heap a p))) (mUserList (room_numbered (sint k) (rooms a))),
      heap := (heap a)(p := u)\<rparr>)"
    and u: "session_ok p u" "mState u = InRoom" "in_state u" "mRoomIndex u = sint k"
    by (rule User_EnterRoom_ok[OF ok lv rm])
  show ?thesis
    using e u num l fr by (simp add: ProcessEnterRoom_def GetNetConnIdx_live[OF ok lv] send_ack_eq)
qed

lemma chat_rooms_numbered:
  assumes "0 \<le> n" and "n < 10"
  shows "numbered n chat_rooms" and "mUserList (room_numbered n chat_rooms) = []"
    and "mCurrentUserCount (room_numbered n chat_rooms) = 0" and "mMaxUserCount (room_numbered n chat_rooms) = 4"
  using assms chat_rooms_ok
  by (auto simp: numbered_def room_numbered_def chat_rooms_def RoomManager_SetSendPacketFunc_def
      RoomManager_Init_def Room_Init_def new_Room_def)

theorem enter_room_request_witness:
  "\<exists>a'. run_recv sample_odbc InLobby_ProcessEnterRoom 1 9 (Some 0) (enter_app 3) = Inr a'
    \<and> sent a' = [(1, ack_cells ACK_ROOM_ENTER 50)]
    \<and> mUserList (room_numbered 3 (rooms a')) = [1] \<and> mState (heap a' 1) = InRoom"
proof -
  have r: "rooms (enter_app 3) = chat_rooms" "sent (enter_app 3) = []" "mUserID (heap (enter_app 3) 1) = []"
    by (simp_all add: enter_app_def appended_def)
  have k: "sint (word_of_int 3 :: u32) = 3"
    by simp
  note c = chat_rooms_numbered[of 3]
  show ?thesis
    using enter_room_request[OF enter_app_ok enter_app_live enter_app_number[of 3], of sample_odbc 9] c
    unfolding k r by (auto simp: broadcast_def)
qed

text \<open>
  C25. Leaving: every member, the leaving user included, is notified, then the client gets
  \<open>LEAVE_ROOM_SUCCESS\<close>; exactly the members with the leaving user's id are gone from the list, no
  other room changes, and the session is in the lobby.
\<close>

theorem leave_room_request:
  assumes ok: "app_ok a" and lv: "live a p"
    and n: "numbered (mRoomIndex (heap a p)) (rooms a)" and uid: "length (mUserID (heap a p)) \<le> 11"
  shows "\<exists>a'. run_recv d InRoom_ProcessLeaveRoom p sz q a = Inr a'
    \<and> sent a' = sent a @ broadcast (heap a) (id_notice NOTIFY_ROOM_LEAVE (mUserID (heap a p)))
                            (mUserList (room_numbered (mRoomIndex (heap a p)) (rooms a)))
                @ [(of_nat p, ack_cells ACK_ROOM_LEAVE 70)]
    \<and> mUserList (room_numbered (mRoomIndex (heap a p)) (rooms a'))
        = filter (\<lambda>r. mUserID (heap a p) \<noteq> mUserID (heap a r)) (mUserList (room_numbered (mRoomIndex (heap a p)) (rooms a)))
    \<and> (\<forall>m. mBeginRoomNumber (rooms a) \<le> m \<and> m \<noteq> mRoomIndex (heap a p) \<longrightarrow>
          room_numbered m (rooms a') = room_numbered m (rooms a))
    \<and> in_state (heap a' p) \<and> mState (heap a' p) = InLobby"
proof -
  let ?n = "mRoomIndex (heap a p)"
  obtain rm' where rm: "RoomManager_LeaveUser (heap a) ?n p (rooms a) (sent a) = Inr (LEAVE_ROOM_SUCCESS, rm',
      sent a @ broadcast (heap a) (id_notice NOTIFY_ROOM_LEAVE (mUserID (heap a p))) (mUserList (room_numbered ?n (rooms a))))"
    and l: "mUserList (room_numbered ?n rm') =
      filter (\<lambda>q. mUserID (heap a p) \<noteq> mUserID (heap a q)) (mUserList (room_numbered ?n (rooms a)))"
    and fr: "\<forall>m. mBeginRoomNumber (rooms a) \<le> m \<and> m \<noteq> ?n \<longrightarrow> room_numbered m rm' = room_numbered m (rooms a)"
    by (rule RoomManager_LeaveUser_numbered[where p=p and h="heap a" and out="sent a", OF n uid])
  obtain u where e: "User_LeaveRoom p a = Inr (LEAVE_ROOM_SUCCESS, a\<lparr>rooms := rm', sent :=
      sent a @ broadcast (heap a) (id_notice NOTIFY_ROOM_LEAVE (mUserID (heap a p))) (mUserList (room_numbered ?n (rooms a))),
      heap := (heap a)(p := u)\<rparr>)"
    and u: "session_ok p u" "mState u = InLobby" "in_state u"
    by (rule User_LeaveRoom_ok[OF ok lv rm])
  show ?thesis
    using e u l fr by (simp add: ProcessLeaveRoom_def GetNetConnIdx_live[OF ok lv] send_ack_eq)
qed

text \<open>Session 1, named \<open>b\<close>, in room 3 together with session 0, named \<open>a\<close>.\<close>

definition room_session :: "nat \<Rightarrow> user" where
  "room_session p = (state_Enter UserStateInRoom ((ready_session p)\<lparr>mState := InRoom\<rparr>))
     \<lparr>mUserID := [97 + of_nat p], mRoomIndex := 3\<rparr>"

definition shared_room :: room where
  "shared_room = (Room_Init 3 4 new_Room)\<lparr>SendPacketFunc := Some ChatServer_SendMsg,
     mUserList := [0, 1], mCurrentUserCount := 2\<rparr>"

definition room_app :: "account_db app" where
  "room_app = (ready_app 2 init_db (chat_rooms\<lparr>mRoomList := (mRoomList chat_rooms)[3 := shared_room]\<rparr>))
     \<lparr>heap := room_session, mUserIDDictionary := [[97] \<mapsto> 0, [98] \<mapsto> 1]\<rparr>"

lemma room_session_sel [simp]:
  "mUserID (room_session p) = [97 + of_nat p]" "mRoomIndex (room_session p) = 3" "mIndex (room_session p) = int p"
  "mPacketDataBuffer (room_session p) = mPacketDataBuffer (ready_session p)"
  by (simp_all add: room_session_def del: state_Enter.simps)

lemma room_app_sel [simp]:
  "heap room_app = room_session" "sent room_app = []" "mUserObjPool room_app = [0..<2]"
  "rooms room_app = chat_rooms\<lparr>mRoomList := (mRoomList chat_rooms)[3 := shared_room]\<rparr>"
  by (simp_all add: room_app_def)

lemma room_session_ok: "session_ok p (room_session p)"
proof -
  have "in_state (state_Enter UserStateInRoom ((ready_session p)\<lparr>mState := InRoom\<rparr>))"
    by (rule in_state_Enter) (auto simp: state_table_def)
  then show ?thesis
    using ready_session_ok(1)[of p]
    by (auto simp: room_session_def session_ok_def user_ok_def live_states_def buffer_ok_def unread_def in_state_def
        simp del: state_Enter.simps)
qed

lemma room_app_ok: "app_ok room_app" and room_app_live: "p < 2 \<Longrightarrow> live room_app p"
proof -
  have "room_ok shared_room" and "mRoomNum shared_room = 3"
    by (simp_all add: shared_room_def room_ok_def Room_Init_def)
  moreover have "mRoomNum (mRoomList chat_rooms ! 3) = 3"
    by (simp add: chat_rooms_def RoomManager_SetSendPacketFunc_def RoomManager_Init_def Room_Init_def)
  ultimately have "rooms_ok (rooms room_app)"
    using chat_rooms_ok by (auto intro: rooms_ok_update)
  moreover have "directory_ok 2 room_session [[97] \<mapsto> 0, [98] \<mapsto> 1]"
    by (auto simp: directory_ok_def less_2_cases_iff split: if_splits)
  ultimately show "app_ok room_app"
    using room_session_ok by (auto simp: app_ok_def room_app_def)
  show "p < 2 \<Longrightarrow> live room_app p"
    by (simp add: live_def)
qed

lemma room_app_room: "numbered 3 (rooms room_app)" "room_numbered 3 (rooms room_app) = shared_room"
  "mUserList shared_room = [0, 1]"
  using app_ok_rooms[OF room_app_ok] by (simp_all add: numbered_def room_numbered_def shared_room_def)

theorem leave_room_request_witness:
  "\<exists>a'. run_recv sample_odbc InRoom_ProcessLeaveRoom 1 5 (Some 0) room_app = Inr a'
    \<and> sent a' = [(0, id_notice NOTIFY_ROOM_LEAVE [98]), (1, id_notice NOTIFY_ROOM_LEAVE [98]), (1, ack_cells ACK_ROOM_LEAVE 70)]
    \<and> mUserList (room_numbered 3 (rooms a')) = [0] \<and> mState (heap a' 1) = InLobby"
  using leave_room_request[OF room_app_ok room_app_live[of 1], of sample_odbc 5 "Some 0"] room_app_room
  by (auto simp: broadcast_def)

text \<open>
  C26. Chat: the speaker gets the acknowledgement \<open>CHAT_ROOM_SUCCESS\<close>, then every member of the room,
  the speaker included, gets the 257 bytes after the request's header under the speaker's id;
  nothing else changes. In a session whose room number is not in the table the only effect is the
  acknowledgement \<open>CHAT_ROOM_INVALID_ROOM_NUMBER\<close>.
\<close>

theorem chat_request:
  assumes ok: "app_ok a" and lv: "live a p"
  shows "(numbered (mRoomIndex (heap a p)) (rooms a) \<and> ptr + 262 \<le> PACKET_DATA_BUFFER_SIZE \<longrightarrow>
      run_recv d InRoom_ProcessRoomChatMessage p sz (Some ptr) a = Inr (a\<lparr>sent := sent a
        @ [(of_nat p, ack_cells ACK_ROOM_CHAT 100)]
        @ broadcast (heap a) (notify_chat_cells (c_str_cells 11 (mUserID (heap a p)))
              (block (ptr + 5) 257 (mPacketDataBuffer (heap a p))))
            (mUserList (room_numbered (mRoomIndex (heap a p)) (rooms a)))\<rparr>))
    \<and> (User_GetRoom p a = Inr None \<longrightarrow>
      run_recv d InRoom_ProcessRoomChatMessage p sz (Some ptr) a
        = Inr (a\<lparr>sent := sent a @ [(of_nat p, ack_cells ACK_ROOM_CHAT 80)]\<rparr>))"
proof -
  note s = app_ok_session[OF ok lv]
  have len: "length (mPacketDataBuffer (heap a p)) = PACKET_DATA_BUFFER_SIZE"
    using s by (simp add: session_ok_def user_ok_def)
  have "run_recv d InRoom_ProcessRoomChatMessage p sz (Some ptr) a
      = Inr (a\<lparr>sent := sent a @ [(of_nat p, ack_cells ACK_ROOM_CHAT 80)]\<rparr>)"
    if "User_GetRoom p a = Inr None"
    using that s by (simp add: ProcessRoomChatMessage_def GetNetConnIdx_live[OF ok lv] send_ack_eq)
  moreover have "run_recv d InRoom_ProcessRoomChatMessage p sz (Some ptr) a = Inr (a\<lparr>sent := sent a
        @ [(of_nat p, ack_cells ACK_ROOM_CHAT 100)]
        @ broadcast (heap a) (notify_chat_cells (c_str_cells 11 (mUserID (heap a p)))
              (block (ptr + 5) 257 (mPacketDataBuffer (heap a p))))
            (mUserList (room_numbered (mRoomIndex (heap a p)) (rooms a)))\<rparr>)"
    if n: "numbered (mRoomIndex (heap a p)) (rooms a)" and "ptr + 262 \<le> PACKET_DATA_BUFFER_SIZE"
    using that(2) s len NotifyChat_eq[OF room_numbered_send[OF n]]
    by (simp add: ProcessRoomChatMessage_def GetNetConnIdx_live[OF ok lv] send_ack_eq User_GetRoom_numbered[OF n]
        packet_offsets packet_sizes)
  ultimately show ?thesis
    by blast
qed

theorem chat_request_witness:
  "\<exists>cs. run_recv sample_odbc InRoom_ProcessRoomChatMessage 1 262 (Some 0) room_app = Inr (room_app\<lparr>sent :=
     [(1, ack_cells ACK_ROOM_CHAT 100), (0, cs), (1, cs)]\<rparr>)"
  using chat_request[OF room_app_ok room_app_live[of 1], of 0 sample_odbc 262] room_app_room
  by (intro exI[of _ "notify_chat_cells (c_str_cells 11 [98]) (block 5 257 (mPacketDataBuffer (ready_session 1)))"])
    (simp add: broadcast_def PACKET_DATA_BUFFER_SIZE_def)

text \<open>
  C27. The member list: a user in a room of the table gets one packet from which the ids of the
  room's members are read back in the order of the list.
\<close>

theorem room_info_request:
  assumes ok: "app_ok a" and lv: "live a p" and n: "numbered (mRoomIndex (heap a p)) (rooms a)"
    and ids: "ids = map (\<lambda>q. mUserID (heap a q)) (mUserList (room_numbered (mRoomIndex (heap a p)) (rooms a)))"
    and len: "room_info_length ids < 65536" and nul: "\<forall>s \<in> set ids. 0 \<notin> set s"
  shows "\<exists>cs. run_recv d InRoom_ProcessRoomInfo p sz q a = Inr (a\<lparr>sent := sent a @ [(of_nat p, cs)]\<rparr>)
    \<and> length cs = room_info_length ids \<and> parse_room_info cs = Inr ids"
proof -
  have "length xs \<le> sum_list (map (\<lambda>s. length s + 1) xs)" for xs :: "bytes list"
    by (induction xs) auto
  from this[of ids] have "length ids \<le> room_info_length ids"
    unfolding room_info_length_def by linarith
  then have small: "length ids < 2 ^ 31"
    using len by simp
  let ?cs = "ack_room_info_cells ENTER_ROOM_SUCCESS ids"
  have "run_recv d InRoom_ProcessRoomInfo p sz q a = Inr (a\<lparr>sent := sent a @ [(of_nat p, ?cs)]\<rparr>)"
    using send_to_whole[OF app_ok_session[OF ok lv], of ?cs "of_nat p"] len
    by (simp add: ProcessRoomInfo_def GetNetConnIdx_live[OF ok lv] User_GetRoom_numbered[OF n] GetRoomMemberList_def
        length_ack_room_info_cells flip: ids)
  then show ?thesis
    using parse_room_info_cells[OF nul small] length_ack_room_info_cells by blast
qed

theorem room_info_request_witness:
  "\<exists>cs. run_recv sample_odbc InRoom_ProcessRoomInfo 1 5 (Some 0) room_app = Inr (room_app\<lparr>sent := [(1, cs)]\<rparr>)
    \<and> parse_room_info cs = Inr [[97], [98]]"
  using room_info_request[OF room_app_ok room_app_live[of 1], of "[[97], [98]]" sample_odbc 5 "Some 0"] room_app_room
  by (auto simp: room_info_length_def packet_sizes)

text \<open>
  The lobby list: the client gets the acknowledgement \<open>LOBBY_INFO_SUCCESS\<close> and one packet from
  which the numbers of all rooms are read back in order; the state does not change. The packet is
  whole as long as the table has fewer than 16380 rooms (its length is a 16-bit field).
\<close>

lemma lobby_info_request:
  assumes ok: "app_ok a" and lv: "live a p" and len: "length (mRoomList (rooms a)) < 16380"
    and fits: "\<forall>n \<in> set (GetRoomList (rooms a)). fits_int n"
  shows "\<exists>cs. run_recv d InLobby_ProcessLobbyInfo p sz q a =
      Inr (a\<lparr>sent := sent a @ [(of_nat p, ack_cells ACK_LOBBY_INFO 90), (of_nat p, cs)]\<rparr>)
    \<and> length cs = lobby_info_length (GetRoomList (rooms a)) \<and> parse_lobby cs = Inr (GetRoomList (rooms a))"
proof -
  let ?ns = "GetRoomList (rooms a)"
  let ?cs = "notify_lobby_cells ?ns"
  have n: "length ?ns < 16380"
    using len by (simp add: GetRoomList_def)
  note s = app_ok_session[OF ok lv]
  have l: "length ?cs < 65536"
    using n by (simp add: length_notify_lobby_cells lobby_info_length_def packet_sizes)
  have "run_recv d InLobby_ProcessLobbyInfo p sz q a =
      Inr (a\<lparr>sent := sent a @ [(of_nat p, ack_cells ACK_LOBBY_INFO 90), (of_nat p, ?cs)]\<rparr>)"
    using send_to_whole[of p "a\<lparr>sent := sent a @ [(of_nat p, ack_cells ACK_LOBBY_INFO 90)]\<rparr>", OF _ l, of "of_nat p"] s
    by (simp add: ProcessLobbyInfo_def GetNetConnIdx_live[OF ok lv] send_ack_eq length_notify_lobby_cells)
  then show ?thesis
    using parse_lobby_cells[OF fits] n length_notify_lobby_cells by fastforce
qed

lemma lobby_info_request_witness:
  "\<exists>cs. run_recv sample_odbc InLobby_ProcessLobbyInfo 1 5 (Some 0) (ready_app 100 init_db chat_rooms) =
      Inr ((ready_app 100 init_db chat_rooms)\<lparr>sent := [(1, ack_cells ACK_LOBBY_INFO 90), (1, cs)]\<rparr>)
    \<and> parse_lobby cs = Inr [0, 1, 2, 3, 4, 5, 6, 7, 8, 9]"
proof -
  have l: "GetRoomList chat_rooms = [0, 1, 2, 3, 4, 5, 6, 7, 8, 9]"
    by (simp add: GetRoomList_def chat_rooms_def RoomManager_SetSendPacketFunc_def RoomManager_Init_def
        Room_Init_def upt_conv_Cons)
  have ok: "app_ok (ready_app 100 init_db chat_rooms)"
    by (intro ready_app_ok chat_rooms_ok) simp
  show ?thesis
    using lobby_info_request[OF ok, of 1 sample_odbc 5 "Some 0"] by (auto simp: l fits_int_def)
qed

text \<open>
  Account creation, end to end: the handler reads the id and the password of the client's 27-byte
  request back exactly, calls the data base once, and sends one acknowledgement: 0 when the call
  succeeded and \<open>CREATE_ACCOUNT_FAIL\<close> otherwise; no session changes. A packet of another length is
  dropped without an answer.
\<close>

lemma create_account_request:
  assumes ok: "app_ok a" and lv: "live a p"
    and mem: "drop ptr (mPacketDataBuffer (heap a p)) = map Some (account_request REQ_CREATE_ACCOUNT t uid pw) @ rest"
    and uid: "0 \<notin> set uid" "length uid \<le> MAX_USER_ID_LEN" and pw: "0 \<notin> set pw" "length pw \<le> MAX_USER_PW_LEN"
    and db: "CreateAccount d uid pw (accounts a) = (created, db')"
  shows "run_recv d Connected_ProcessCreateAccount p sz (Some ptr) a =
    (if sz = 27 then Inr (a\<lparr>accounts := db',
        sent := sent a @ [(of_nat p, ack_cells ACK_CREATE_ACCOUNT (if created then 0 else 20))]\<rparr>)
     else Inr a)"
proof (cases "sz = 27")
  case False
  then have "unat sz \<noteq> 27"
    by (simp add: word_unat_eq_iff)
  then show ?thesis
    using False by (simp add: ProcessCreateAccount_def packet_sizes)
next
  case True
  have "session_ok p (heap (a\<lparr>accounts := db'\<rparr>) p)"
    using app_ok_session[OF ok lv] by simp
  then show ?thesis
    using True read_account_request[OF mem uid pw] db
    by (simp add: ProcessCreateAccount_def UserManager_CreateAccount_def GetNetConnIdx_live[OF ok lv]
        packet_sizes send_ack_eq)
qed

lemma create_account_request_witness:
  "\<exists>db'. run_recv sample_odbc Connected_ProcessCreateAccount 1 27 (Some 0) (enter_app 0\<lparr>heap := (heap (enter_app 0))
      (1 := appended (account_request REQ_CREATE_ACCOUNT 0 [97] [98]) (ready_session 1))\<rparr>)
    = Inr (enter_app 0\<lparr>heap := (heap (enter_app 0))
      (1 := appended (account_request REQ_CREATE_ACCOUNT 0 [97] [98]) (ready_session 1)), accounts := db',
      sent := [(1, ack_cells ACK_CREATE_ACCOUNT 0)]\<rparr>)"
proof -
  let ?req = "account_request REQ_CREATE_ACCOUNT 0 [97] [98]"
  let ?u = "appended ?req (ready_session 1)"
  let ?a = "enter_app 0\<lparr>heap := (heap (enter_app 0))(1 := ?u)\<rparr>"
  have l: "length ?req = 27"
    by (simp add: length_account_request packet_sizes)
  have s: "session_ok 1 ?u"
    using l by (intro session_appended ready_session_ok) (simp add: PACKET_DATA_BUFFER_SIZE_def)
  have id: "mUserID ?u = mUserID (heap (enter_app 0) 1)"
    by (simp add: appended_def enter_app_def)
  have ok: "app_ok ?a" and lv: "live ?a 1"
    using app_ok_set_user[OF enter_app_ok enter_app_live s] id enter_app_live by simp_all
  have mem: "drop 0 (mPacketDataBuffer (heap ?a 1)) = map Some ?req @ drop 27 (mPacketDataBuffer (ready_session 1))"
    using l by (simp add: appended_def blit_def)
  obtain db' where "CreateAccount sample_odbc [97] [98] (accounts ?a) = (True, db')"
    by (simp add: CreateAccount_def sample_create_def sample_select_def enter_app_def init_db_def
        test001_def succeeded_def)
  moreover have "sent ?a = []"
    by (simp add: enter_app_def)
  ultimately show ?thesis
    using create_account_request[OF ok lv mem] by (auto simp: packet_sizes)
qed

end
