(* ===== verification/Queues.thy ===== *)
theory Queues
  imports LHJ_Prelude
begin

text \<open>
  The contract of the server's queues. Every one of them is a \<open>std::deque\<close> behind a lock with a push
  and a take; a take from an empty queue answers a default value instead of waiting. The locale
  \<open>fifo\<close> states the laws over an arbitrary state that holds such a queue, and derives what a
  whole history of pushes and takes delivers. The packet manager's queue of system packets and the two
  task queues of the Redis manager interpret it.
\<close>

datatype 'a queue_op = Push 'a | Take

fun run_queue :: "('a \<Rightarrow> 'q \<Rightarrow> 'q) \<Rightarrow> ('q \<Rightarrow> 'a \<times> 'q) \<Rightarrow> 'a queue_op list \<Rightarrow> 'q \<Rightarrow> 'a list \<times> 'q" where
  "run_queue push pop [] q = ([], q)"
| "run_queue push pop (Push x # xs) q = run_queue push pop xs (push x q)"
| "run_queue push pop (Take # xs) q =
     (case pop q of (x, q1) \<Rightarrow> case run_queue push pop xs q1 of (ys, q2) \<Rightarrow> (x # ys, q2))"

fun pushed :: "'a queue_op list \<Rightarrow> 'a list" where
  "pushed [] = []"
| "pushed (Push x # xs) = x # pushed xs"
| "pushed (Take # xs) = pushed xs"

lemma pushed_append [simp]: "pushed (xs @ ys) = pushed xs @ pushed ys"
  by (induction xs rule: pushed.induct) auto

lemma pushed_Takes [simp]: "pushed (replicate n Take) = []"
  by (induction n) auto

locale fifo =
  fixes items :: "'q \<Rightarrow> 'a list"
    and push :: "'a \<Rightarrow> 'q \<Rightarrow> 'q"
    and pop :: "'q \<Rightarrow> 'a \<times> 'q"
    and default :: 'a
  assumes items_push: "items (push x q) = items q @ [x]"
    and pop_empty: "items q = [] \<Longrightarrow> pop q = (default, q)"
    and pop_first: "items q = x # xs \<Longrightarrow> fst (pop q) = x \<and> items (snd (pop q)) = xs"
begin

text \<open>What was taken, then what is left, is what was there, then what was pushed: nothing is
  lost, repeated or reordered. Default answers of takes from an empty queue are left out.\<close>

lemma history:
  assumes "\<forall>x \<in> set (items q) \<union> set (pushed ops). x \<noteq> default" and "run_queue push pop ops q = (out, q')"
  shows "filter (\<lambda>x. x \<noteq> default) out @ items q' = items q @ pushed ops"
  using assms
proof (induction ops arbitrary: q out)
  case Nil
  then show ?case by simp
next
  case (Cons op ops)
  show ?case
  proof (cases op)
    case (Push x)
    then show ?thesis
      using Cons.IH[of "push x q" out] Cons.prems by (auto simp: items_push)
  next
    case Take
    note IH = Cons.IH and prems = Cons.prems(1)
    obtain x q1 where p: "pop q = (x, q1)" by fastforce
    obtain ys where ys: "run_queue push pop ops q1 = (ys, q')" and out: "out = x # ys"
      using Cons.prems(2) p Take by (auto split: prod.splits)
    show ?thesis
    proof (cases "items q")
      case Nil
      then have "x = default" and "q1 = q"
        using pop_empty[OF Nil] p by auto
      then show ?thesis
        using Cons.IH[of q ys] Cons.prems(1) ys out Take by simp
    next
      case (Cons y zs)
      then have "x = y" and "items q1 = zs"
        using pop_first[OF Cons] p by auto
      then show ?thesis
        using IH[of q1 ys] prems ys out Take Cons by auto
    qed
  qed
qed

text \<open>As many takes as there are items deliver all of them, in order.\<close>

lemma drain:
  "\<exists>q'. run_queue push pop (replicate (length (items q)) Take) q = (items q, q') \<and> items q' = []"
proof (induction "items q" arbitrary: q)
  case Nil
  then show ?case by (simp flip: Nil)
next
  case (Cons x xs)
  obtain q1 where p: "pop q = (x, q1)" and q1: "items q1 = xs"
    using pop_first[OF Cons(2)[symmetric]] by (metis prod.collapse)
  then show ?case
    using Cons(1)[of q1] Cons(2)[symmetric] by auto
qed

end

end
