(* ===== verification/Redis_Tasks.thy ===== *)
theory Redis_Tasks
  imports Queues
begin

text \<open>
  The Redis task queues: \<open>RedisManager\<close> (\<open>RedisManager.*\<close>, \<open>RedisTaskDefine.h\<close>). The connection
  class \<open>CRedisConn\<close> is third-party code: its \<open>connect\<close> is an argument. Task data is a
  pointer to an array from \<open>new char[]\<close>; \<open>blocks\<close> are the arrays not yet deleted, and deleting
  another one is a fault. The server as committed never creates a \<open>RedisManager\<close>: the two places
  that would are commented out (\<open>PacketManager.cpp\<close>).
\<close>

section \<open>Tasks\<close>

text \<open>\<open>RedisTaskID\<close> is a 16-bit enumeration with the one enumerator \<open>INVALID\<close>.\<close>

definition INVALID :: u16 where
  "INVALID = 0"

record RedisTask =
  UserIndex :: u32
  TaskID :: u16
  TaskDataSize :: u16
  pData :: "nat option"

definition empty_RedisTask :: RedisTask where
  "empty_RedisTask = \<lparr>UserIndex = 0, TaskID = INVALID, TaskDataSize = 0, pData = None\<rparr>"

definition RedisTask_Release :: "RedisTask \<Rightarrow> nat set \<Rightarrow> nat set result" where
  "RedisTask_Release task blocks =
     (case pData task of
        None \<Rightarrow> Inr blocks
      | Some b \<Rightarrow> if b \<in> blocks then Inr (blocks - {b}) else Inl DoubleFree)"

section \<open>The manager\<close>

record 'conn redis_manager =
  mConn :: "'conn option"
  mIsTaskRun :: bool
  mTaskThreads :: nat
  mRequestTask :: "RedisTask list"
  mResponseTask :: "RedisTask list"
  blocks :: "nat set"

definition RedisManager_Init :: "'conn \<Rightarrow> 'conn redis_manager \<Rightarrow> 'conn redis_manager" where
  "RedisManager_Init new_conn r = r\<lparr>mConn := Some new_conn\<rparr>"

definition RedisManager_Connect :: "(bytes \<Rightarrow> u16 \<Rightarrow> 'conn \<Rightarrow> bool \<times> 'conn) \<Rightarrow> bytes \<Rightarrow> u16 \<Rightarrow> 'conn redis_manager
    \<Rightarrow> (bool \<times> 'conn redis_manager) result" where
  "RedisManager_Connect connect ip port r =
     (case mConn r of
        None \<Rightarrow> Inl NullDeref
      | Some c \<Rightarrow> (case connect ip port c of (b, c1) \<Rightarrow> Inr (b, r\<lparr>mConn := Some c1\<rparr>)))"

definition RedisManager_Run :: "(bytes \<Rightarrow> u16 \<Rightarrow> 'conn \<Rightarrow> bool \<times> 'conn) \<Rightarrow> bytes \<Rightarrow> u16 \<Rightarrow> nat \<Rightarrow> 'conn redis_manager
    \<Rightarrow> (bool \<times> 'conn redis_manager) result" where
  "RedisManager_Run connect ip port threadCount r =
     bindr (RedisManager_Connect connect ip port r) (\<lambda>(connected, r1).
       if \<not> connected then Inr (False, r1)
       else Inr (True, r1\<lparr>mIsTaskRun := True, mTaskThreads := mTaskThreads r1 + threadCount\<rparr>))"

text \<open>\<open>End\<close> joins the threads, which leave their loop when the flag is false.\<close>

definition RedisManager_End :: "'conn redis_manager \<Rightarrow> 'conn redis_manager" where
  "RedisManager_End r = r\<lparr>mIsTaskRun := False, mTaskThreads := 0, mConn := None\<rparr>"

definition PushTask :: "RedisTask \<Rightarrow> 'conn redis_manager \<Rightarrow> 'conn redis_manager" where
  "PushTask task r = r\<lparr>mRequestTask := mRequestTask r @ [task]\<rparr>"

definition PushResponse :: "RedisTask \<Rightarrow> 'conn redis_manager \<Rightarrow> 'conn redis_manager" where
  "PushResponse task r = r\<lparr>mResponseTask := mResponseTask r @ [task]\<rparr>"

definition TakeRequestTask :: "'conn redis_manager \<Rightarrow> RedisTask \<times> 'conn redis_manager" where
  "TakeRequestTask r =
     (case mRequestTask r of [] \<Rightarrow> (empty_RedisTask, r) | t # ts \<Rightarrow> (t, r\<lparr>mRequestTask := ts\<rparr>))"

definition TakeResponseTask :: "'conn redis_manager \<Rightarrow> RedisTask \<times> 'conn redis_manager" where
  "TakeResponseTask r =
     (case mResponseTask r of [] \<Rightarrow> (empty_RedisTask, r) | t # ts \<Rightarrow> (t, r\<lparr>mResponseTask := ts\<rparr>))"

text \<open>One round of the loop of \<open>TaskProcessThread\<close>; the handling of a login task in it is
  commented out.\<close>

definition TaskProcessThread :: "'conn redis_manager \<Rightarrow> 'conn redis_manager result" where
  "TaskProcessThread r =
     (if \<not> mIsTaskRun r then Inr r
      else case TakeRequestTask r of (task, r1) \<Rightarrow>
        if TaskID task \<noteq> INVALID
        then bindr (RedisTask_Release task (blocks r1)) (\<lambda>bs. Inr (r1\<lparr>blocks := bs\<rparr>))
        else Inr r1)"

fun task_rounds :: "nat \<Rightarrow> 'conn redis_manager \<Rightarrow> 'conn redis_manager result" where
  "task_rounds 0 r = Inr r"
| "task_rounds (Suc n) r = bindr (TaskProcessThread r) (task_rounds n)"

interpretation requests: fifo mRequestTask PushTask TakeRequestTask empty_RedisTask
  by unfold_locales (auto simp: PushTask_def TakeRequestTask_def)

interpretation responses: fifo mResponseTask PushResponse TakeResponseTask empty_RedisTask
  by unfold_locales (auto simp: PushResponse_def TakeResponseTask_def)

section \<open>Properties\<close>

text \<open>The arrays the queued tasks own, and the ones the thread will delete.\<close>

definition owned :: "RedisTask list \<Rightarrow> nat list" where
  "owned ts = concat (map (\<lambda>t. case pData t of None \<Rightarrow> [] | Some b \<Rightarrow> [b]) ts)"

definition released :: "RedisTask list \<Rightarrow> nat list" where
  "released ts = owned (filter (\<lambda>t. TaskID t \<noteq> INVALID) ts)"

lemma owned_Cons: "owned (t # ts) = owned [t] @ owned ts"
  by (simp add: owned_def)

lemma released_Cons: "released (t # ts) = released [t] @ released ts"
  by (simp add: released_def owned_def)

lemma released_owned: "set (released ts) \<subseteq> set (owned ts)"
  by (auto simp: released_def owned_def)

lemma owned_one: "owned [t] = (case pData t of None \<Rightarrow> [] | Some b \<Rightarrow> [b])"
  by (simp add: owned_def)

lemma released_one: "released [t] = (if TaskID t \<noteq> INVALID then owned [t] else [])"
  by (simp add: released_def owned_def)

lemma one_round:
  assumes "mIsTaskRun r" and "mRequestTask r = t # ts" and "set (owned [t]) \<subseteq> blocks r"
  shows "TaskProcessThread r = Inr (r\<lparr>mRequestTask := ts, blocks := blocks r - set (released [t])\<rparr>)"
  using assms
  by (cases "pData t")
     (simp_all add: TaskProcessThread_def TakeRequestTask_def RedisTask_Release_def owned_one released_one)

lemma rounds_drain:
  assumes "mIsTaskRun r" and "mRequestTask r = ts @ us" and "distinct (owned ts)" and "set (owned ts) \<subseteq> blocks r"
  shows "task_rounds (length ts) r = Inr (r\<lparr>mRequestTask := us, blocks := blocks r - set (released ts)\<rparr>)"
  using assms
proof (induction ts arbitrary: r)
  case Nil
  then show ?case by (simp add: released_def owned_def)
next
  case (Cons t ts)
  let ?r = "r\<lparr>mRequestTask := ts @ us, blocks := blocks r - set (released [t])\<rparr>"
  have e: "owned (t # ts) = owned [t] @ owned ts" and f: "released (t # ts) = released [t] @ released ts"
    by (rule owned_Cons released_Cons)+
  have own: "distinct (owned ts)" "set (owned [t]) \<inter> set (owned ts) = {}" "set (owned [t]) \<subseteq> blocks r"
    "set (owned ts) \<subseteq> blocks r"
    using Cons.prems(3,4) by (simp_all add: e)
  then have "set (owned ts) \<subseteq> blocks ?r"
    using released_owned[of "[t]"] by auto
  then have "task_rounds (length ts) ?r = Inr (?r\<lparr>mRequestTask := us, blocks := blocks ?r - set (released ts)\<rparr>)"
    using Cons.prems(1) own(1) by (intro Cons.IH) simp_all
  moreover have "TaskProcessThread r = Inr ?r"
    using one_round[OF Cons.prems(1) _ own(3)] Cons.prems(2) by simp
  ultimately show ?case
    by (simp add: f Diff_eq ac_simps)
qed

lemma owned_append: "owned (ts @ us) = owned ts @ owned us"
  by (simp add: owned_def)

text \<open>
  C33. The Redis thread works its queue off in order and deletes every array exactly once: when the
  arrays of the queued tasks are allocated and distinct, then after every number of rounds up to the
  length of the queue there was no fault, exactly that many tasks were taken, from the front, and exactly
  the arrays of the taken tasks with a valid id are gone. So the arrays are deleted in the order of the queue, and after as
  many rounds as there are tasks it is empty. The arrays of tasks with the id \<open>INVALID\<close>, the only
  enumerator there is, are never deleted.
\<close>

theorem redis_tasks_drained:
  assumes "mIsTaskRun r" and "distinct (owned (mRequestTask r))" and "set (owned (mRequestTask r)) \<subseteq> blocks r"
    and "k \<le> length (mRequestTask r)"
  shows "task_rounds k r =
    Inr (r\<lparr>mRequestTask := drop k (mRequestTask r), blocks := blocks r - set (released (take k (mRequestTask r)))\<rparr>)"
proof -
  have "owned (mRequestTask r) = owned (take k (mRequestTask r)) @ owned (drop k (mRequestTask r))"
    by (simp flip: owned_append)
  then show ?thesis
    using rounds_drain[OF assms(1), of "take k (mRequestTask r)" "drop k (mRequestTask r)"] assms(2-4) by simp
qed

text \<open>Three tasks: only the order in which they were pushed says which arrays the first two rounds delete.\<close>

definition three_tasks :: "unit redis_manager" where
  "three_tasks = foldr PushTask [\<lparr>UserIndex = 3, TaskID = 1001, TaskDataSize = 22, pData = Some 9\<rparr>,
       \<lparr>UserIndex = 2, TaskID = INVALID, TaskDataSize = 22, pData = Some 8\<rparr>,
       \<lparr>UserIndex = 1, TaskID = 1001, TaskDataSize = 22, pData = Some 7\<rparr>]
     \<lparr>mConn = Some (), mIsTaskRun = True, mTaskThreads = 1, mRequestTask = [], mResponseTask = [], blocks = {7, 8, 9}\<rparr>"

theorem redis_tasks_drained_witness:
  "task_rounds 2 three_tasks = Inr (three_tasks\<lparr>mRequestTask := [\<lparr>UserIndex = 3, TaskID = 1001, TaskDataSize = 22, pData = Some 9\<rparr>],
     blocks := {8, 9}\<rparr>)"
  using redis_tasks_drained[of three_tasks 2]
  by (simp add: three_tasks_def PushTask_def owned_def released_def INVALID_def insert_Diff_if)

end
