(* ===== verification/Packet_Manager.thy ===== *)
theory Packet_Manager
  imports Handlers Redis_Tasks
begin

text \<open>
  The packet manager: \<open>PacketManager\<close> (\<open>PacketManager.*\<close>). Network threads call
  \<open>ReceivePacketData\<close> and \<open>PushSystemPacket\<close>; one packet thread runs \<open>ProcessPacket\<close>, whose
  loop body takes one client packet and one system packet. Each of these calls is one step of the
  model: the queues are behind a lock in the code, the packet buffers are not.

  Shown here: the invariant of the manager over every step, the dispatch of requests (unknown ids, ids
  reserved for the system and requests a session's state does not admit have no effect), what
  connecting and disconnecting do, and the consequences of taking one packet per receive.
\<close>

section \<open>State\<close>

datatype packet_fun =
    Fn_ProcessUserConnect | Fn_ProcessUserDisConnect
  | Fn_ProcessCreateAccount | Fn_ProcessLogin | Fn_ProcessLobbyInfo | Fn_ProcessEnterRoom
  | Fn_ProcessRoomInfo | Fn_ProcessLeaveRoom | Fn_ProcessRoomChatMessage

record ('db, 'conn) packet_manager =
  mUserManager :: "'db app"
  mRecvFuntionDictionary :: "int \<rightharpoonup> packet_fun"
  mRedisMgr :: "'conn redis_manager option"
  mIsRunProcessThread :: bool
  mProcessThread :: bool
  mInComingPacketUserIndex :: "u32 list"
  mSystemPacketQueue :: "PacketInfo list"

definition packet_table :: "int \<rightharpoonup> packet_fun" where
  "packet_table = [packet_id SYS_USER_CONNECT \<mapsto> Fn_ProcessUserConnect,
     packet_id SYS_USER_DISCONNECT \<mapsto> Fn_ProcessUserDisConnect,
     packet_id REQ_CREATE_ACCOUNT \<mapsto> Fn_ProcessCreateAccount,
     packet_id REQ_LOGIN \<mapsto> Fn_ProcessLogin,
     packet_id REQ_LOBBY_INFO \<mapsto> Fn_ProcessLobbyInfo,
     packet_id REQ_ROOM_ENTER \<mapsto> Fn_ProcessEnterRoom,
     packet_id REQ_ROOM_INFO \<mapsto> Fn_ProcessRoomInfo,
     packet_id REQ_ROOM_LEAVE \<mapsto> Fn_ProcessLeaveRoom,
     packet_id REQ_ROOM_CHAT \<mapsto> Fn_ProcessRoomChatMessage]"

text \<open>\<open>new PacketManager()\<close>, followed by \<open>Init\<close> with the user manager. The creation of the Redis
  manager is commented out, so \<open>mRedisMgr\<close> stays null.\<close>

definition PacketManager_Init :: "'db app \<Rightarrow> ('db, 'conn) packet_manager" where
  "PacketManager_Init um = \<lparr>mUserManager = um, mRecvFuntionDictionary = packet_table, mRedisMgr = None,
     mIsRunProcessThread = False, mProcessThread = False, mInComingPacketUserIndex = [],
     mSystemPacketQueue = []\<rparr>"

definition PacketManager_Run :: "('db, 'conn) packet_manager \<Rightarrow> bool \<times> ('db, 'conn) packet_manager" where
  "PacketManager_Run s = (True, s\<lparr>mIsRunProcessThread := True, mProcessThread := True\<rparr>)"

text \<open>\<open>mRedisMgr->End()\<close> through a null pointer writes a member of the object.\<close>

definition PacketManager_End :: "('db, 'conn) packet_manager \<Rightarrow> ('db, 'conn) packet_manager result" where
  "PacketManager_End s =
     (case mRedisMgr s of
        None \<Rightarrow> Inl NullDeref
      | Some r \<Rightarrow> Inr (s\<lparr>mRedisMgr := Some (RedisManager_End r), mIsRunProcessThread := False,
                          mProcessThread := False\<rparr>))"

text \<open>The destructor is empty, but the members are destroyed, and \<open>mProcessThread\<close> must not be joinable then.\<close>

definition PacketManager_delete :: "('db, 'conn) packet_manager \<Rightarrow> unit result" where
  "PacketManager_delete s = (if mProcessThread s then Inl StdTerminate else Inr ())"

section \<open>Queues\<close>

definition EnqueuePacketData :: "u32 \<Rightarrow> ('db, 'conn) packet_manager \<Rightarrow> ('db, 'conn) packet_manager" where
  "EnqueuePacketData clientIndex s = s\<lparr>mInComingPacketUserIndex := mInComingPacketUserIndex s @ [clientIndex]\<rparr>"

definition on_app :: "('db app \<Rightarrow> 'db app result) \<Rightarrow> ('db, 'conn) packet_manager \<Rightarrow> ('db, 'conn) packet_manager result" where
  "on_app f s = bindr (f (mUserManager s)) (\<lambda>a. Inr (s\<lparr>mUserManager := a\<rparr>))"

definition ReceivePacketData :: "memcpy_mode \<Rightarrow> u32 \<Rightarrow> u32 \<Rightarrow> cell list \<Rightarrow> ('db, 'conn) packet_manager
    \<Rightarrow> ('db, 'conn) packet_manager result" where
  "ReceivePacketData m clientIndex dataSize data s =
     bindr (GetUserByConnIdx (sint clientIndex) (mUserManager s)) (\<lambda>pUser.
     bindr (on_app (on_user pUser (SetPacketData m dataSize data)) s) (\<lambda>s1.
       Inr (EnqueuePacketData clientIndex s1)))"

text \<open>The block under the lock: the front index is taken out.\<close>

definition take_user_index :: "('db, 'conn) packet_manager \<Rightarrow> u32 option \<times> ('db, 'conn) packet_manager" where
  "take_user_index s =
     (case mInComingPacketUserIndex s of
        [] \<Rightarrow> (None, s) | i # is \<Rightarrow> (Some i, s\<lparr>mInComingPacketUserIndex := is\<rparr>))"

definition DequePacketData :: "('db, 'conn) packet_manager \<Rightarrow> (PacketInfo \<times> ('db, 'conn) packet_manager) result" where
  "DequePacketData s =
     (case take_user_index s of
        (None, s1) \<Rightarrow> Inr (empty_PacketInfo, s1)
      | (Some userIndex, s1) \<Rightarrow>
          bindr (GetUserByConnIdx (sint userIndex) (mUserManager s1)) (\<lambda>pUser.
          bindr (GetPacket (heap (mUserManager s1) pUser)) (\<lambda>(packetData, u).
            Inr (packetData\<lparr>ClientIndex := userIndex\<rparr>,
                 s1\<lparr>mUserManager := (mUserManager s1)\<lparr>heap := (heap (mUserManager s1))(pUser := u)\<rparr>\<rparr>))))"

definition PushSystemPacket :: "PacketInfo \<Rightarrow> ('db, 'conn) packet_manager \<Rightarrow> ('db, 'conn) packet_manager" where
  "PushSystemPacket packet s = s\<lparr>mSystemPacketQueue := mSystemPacketQueue s @ [packet]\<rparr>"

definition DequeSystemPacketData :: "('db, 'conn) packet_manager \<Rightarrow> PacketInfo \<times> ('db, 'conn) packet_manager" where
  "DequeSystemPacketData s =
     (case mSystemPacketQueue s of
        [] \<Rightarrow> (empty_PacketInfo, s) | x # xs \<Rightarrow> (x, s\<lparr>mSystemPacketQueue := xs\<rparr>))"

interpretation system_queue: fifo mSystemPacketQueue PushSystemPacket DequeSystemPacketData empty_PacketInfo
  by unfold_locales (auto simp: PushSystemPacket_def DequeSystemPacketData_def)

section \<open>Dispatch\<close>

definition ClearConnectionInfo :: "u32 \<Rightarrow> 'db app \<Rightarrow> 'db app result" where
  "ClearConnectionInfo clientIndex a =
     bindr (GetUserByConnIdx (sint clientIndex) a) (\<lambda>pReqUser.
       if mState (heap a pReqUser) \<noteq> NoneState then DeleteUserInfo pReqUser a else Inr a)"

definition PM_ProcessUserConnect :: "u32 \<Rightarrow> 'db app \<Rightarrow> 'db app result" where
  "PM_ProcessUserConnect clientIndex a =
     bindr (GetUserByConnIdx (sint clientIndex) a) (\<lambda>pUser.
     bindr (on_user pUser User_Clear a) (on_user pUser (ChangeState Connected)))"

text \<open>The seven request functions have one shape: the session's function object for the request.\<close>

definition PM_ProcessRequest :: "'db odbc \<Rightarrow> PACKET_ID \<Rightarrow> u32 \<Rightarrow> u16 \<Rightarrow> nat option \<Rightarrow> 'db app \<Rightarrow> 'db app result" where
  "PM_ProcessRequest d pid clientIndex packetSize pPacket a =
     bindr (GetUserByConnIdx (sint clientIndex) a) (\<lambda>user.
     bindr (recv_lookup pid (heap a user)) (\<lambda>f. run_recv d f user packetSize pPacket a))"

fun run_packet_fun :: "'db odbc \<Rightarrow> packet_fun \<Rightarrow> u32 \<Rightarrow> u16 \<Rightarrow> nat option \<Rightarrow> 'db app \<Rightarrow> 'db app result" where
  "run_packet_fun d Fn_ProcessUserConnect c n q a = PM_ProcessUserConnect c a"
| "run_packet_fun d Fn_ProcessUserDisConnect c n q a = ClearConnectionInfo c a"
| "run_packet_fun d Fn_ProcessCreateAccount c n q a = PM_ProcessRequest d REQ_CREATE_ACCOUNT c n q a"
| "run_packet_fun d Fn_ProcessLogin c n q a = PM_ProcessRequest d REQ_LOGIN c n q a"
| "run_packet_fun d Fn_ProcessLobbyInfo c n q a = PM_ProcessRequest d REQ_LOBBY_INFO c n q a"
| "run_packet_fun d Fn_ProcessEnterRoom c n q a = PM_ProcessRequest d REQ_ROOM_ENTER c n q a"
| "run_packet_fun d Fn_ProcessRoomInfo c n q a = PM_ProcessRequest d REQ_ROOM_INFO c n q a"
| "run_packet_fun d Fn_ProcessLeaveRoom c n q a = PM_ProcessRequest d REQ_ROOM_LEAVE c n q a"
| "run_packet_fun d Fn_ProcessRoomChatMessage c n q a = PM_ProcessRequest d REQ_ROOM_CHAT c n q a"

definition ProcessRecvPacket :: "'db odbc \<Rightarrow> PacketInfo \<Rightarrow> ('db, 'conn) packet_manager \<Rightarrow> ('db, 'conn) packet_manager result" where
  "ProcessRecvPacket d p s =
     (case mRecvFuntionDictionary s (uint (PacketId p)) of
        None \<Rightarrow> Inr s
      | Some f \<Rightarrow> on_app (run_packet_fun d f (ClientIndex p) (DataSize p) (pDataPtr p)) s)"

section \<open>The packet thread\<close>

text \<open>The two halves of the loop body.\<close>

definition ProcessPacket_recv :: "'db odbc \<Rightarrow> ('db, 'conn) packet_manager \<Rightarrow> ('db, 'conn) packet_manager result" where
  "ProcessPacket_recv d s =
     bindr (DequePacketData s) (\<lambda>(packetData, s1).
       if PacketId packetData > pid16 SYS_END then ProcessRecvPacket d packetData s1 else Inr s1)"

definition ProcessPacket_system :: "'db odbc \<Rightarrow> ('db, 'conn) packet_manager \<Rightarrow> ('db, 'conn) packet_manager result" where
  "ProcessPacket_system d s =
     (case DequeSystemPacketData s of (packetData, s1) \<Rightarrow>
        if PacketId packetData \<noteq> 0 then ProcessRecvPacket d packetData s1 else Inr s1)"

definition ProcessPacket :: "'db odbc \<Rightarrow> ('db, 'conn) packet_manager \<Rightarrow> ('db, 'conn) packet_manager result" where
  "ProcessPacket d s =
     (if \<not> mIsRunProcessThread s then Inr s
      else bindr (ProcessPacket_recv d s) (ProcessPacket_system d))"

section \<open>The invariant\<close>

definition known_client :: "'db app \<Rightarrow> u32 \<Rightarrow> bool" where
  "known_client a c \<longleftrightarrow> (\<exists>p. live a p \<and> c = of_nat p)"

definition system_packet_ok :: "'db app \<Rightarrow> PacketInfo \<Rightarrow> bool" where
  "system_packet_ok a x \<longleftrightarrow> known_client a (ClientIndex x)
     \<and> PacketId x \<in> {pid16 SYS_USER_CONNECT, pid16 SYS_USER_DISCONNECT}"

definition pm_ok :: "('db, 'conn) packet_manager \<Rightarrow> bool" where
  "pm_ok s \<longleftrightarrow> app_ok (mUserManager s) \<and> mRecvFuntionDictionary s = packet_table
     \<and> (\<forall>i \<in> set (mInComingPacketUserIndex s). known_client (mUserManager s) i)
     \<and> (\<forall>x \<in> set (mSystemPacketQueue s). system_packet_ok (mUserManager s) x)"

text \<open>A step may change the application state if the pool stays.\<close>

lemma pm_ok_set_app:
  assumes "pm_ok s" and "app_ok a" and "mUserObjPool a = mUserObjPool (mUserManager s)"
  shows "pm_ok (s\<lparr>mUserManager := a\<rparr>)"
  using assms by (auto simp: pm_ok_def system_packet_ok_def known_client_def live_def)

lemma GetUserByConnIdx_known:
  assumes "app_ok a" and "live a p"
  shows "GetUserByConnIdx (sint (of_nat p :: u32)) a = Inr p"
  using GetUserByConnIdx_live[OF assms] live_index[OF assms] by simp

lemma live_same_pool: "mUserObjPool b = mUserObjPool a \<Longrightarrow> live b = live a"
  by (simp add: live_def fun_eq_iff)

lemma session_same_but_buffer:
  assumes s: "session_ok p u" and b: "buffer_ok u'"
    and same: "u' = u\<lparr>mPacketDataBuffer := mPacketDataBuffer u', mPacketDataBufferWPos := mPacketDataBufferWPos u',
      mPacketDataBufferRPos := mPacketDataBufferRPos u'\<rparr>"
  shows "session_ok p u'"
proof -
  have "length (mPacketDataBuffer u') = PACKET_DATA_BUFFER_SIZE"
    using b by (simp add: buffer_ok_def)
  moreover have "mStates u' = mStates u" "mState u' = mState u" "recvFuntionDictionary u' = recvFuntionDictionary u"
    "mIndex u' = mIndex u" "sendPacketFunc u' = sendPacketFunc u"
    by (subst same, simp)+
  ultimately show ?thesis
    using s b by (auto simp: session_ok_def user_ok_def cleared_def in_state_def)
qed

text \<open>Receiving: the bytes are appended to the client's stream and its index to the queue.\<close>

lemma SetPacketData_session:
  assumes s: "session_ok p u" and n: "length bs < 2 ^ 31"
    and ret: "SetPacketData m (of_nat (length bs)) (map Some bs) u = Inr u'"
  shows "session_ok p u'" and "stream u' = stream u @ bs" and "mUserID u' = mUserID u" and "mState u' = mState u"
    and "recvFuntionDictionary u' = recvFuntionDictionary u" and "mRoomIndex u' = mRoomIndex u"
proof -
  have b: "buffer_ok u"
    using s by (simp add: session_ok_def)
  note a = SetPacketData_appends[OF b n ret]
  have u': "u' = appended bs u \<or> u' = appended bs (compacted u)"
    using ret unfolding SetPacketData_eq[OF b n] by (auto split: if_splits)
  then show "session_ok p u'"
    by (intro session_same_but_buffer[OF s a(1)]) (auto simp: appended_def compacted_def)
  show "stream u' = stream u @ bs"
    using a(2) .
  show "mUserID u' = mUserID u" "mState u' = mState u" "recvFuntionDictionary u' = recvFuntionDictionary u"
    "mRoomIndex u' = mRoomIndex u"
    using u' by (auto simp: appended_def compacted_def)
qed

lemma ReceivePacketData_ok:
  assumes ok: "pm_ok s" and lv: "live (mUserManager s) p" and n: "length bs < 2 ^ 31"
    and ret: "ReceivePacketData m (of_nat p) (of_nat (length bs)) (map Some bs) s = Inr s'"
  obtains u' where "s' = s\<lparr>mUserManager := (mUserManager s)\<lparr>heap := (heap (mUserManager s))(p := u')\<rparr>,
      mInComingPacketUserIndex := mInComingPacketUserIndex s @ [of_nat p]\<rparr>"
    and "SetPacketData m (of_nat (length bs)) (map Some bs) (heap (mUserManager s) p) = Inr u'"
    and "pm_ok s'"
proof -
  let ?a = "mUserManager s"
  have a: "app_ok ?a"
    using ok by (simp add: pm_ok_def)
  obtain u' where u': "SetPacketData m (of_nat (length bs)) (map Some bs) (heap ?a p) = Inr u'"
    and s': "s' = s\<lparr>mUserManager := ?a\<lparr>heap := (heap ?a)(p := u')\<rparr>,
      mInComingPacketUserIndex := mInComingPacketUserIndex s @ [of_nat p]\<rparr>"
    using ret by (auto simp: ReceivePacketData_def GetUserByConnIdx_known[OF a lv] on_app_def on_user_def
        EnqueuePacketData_def bindr_simps)
  note r = SetPacketData_session[OF app_ok_session[OF a lv] n u']
  have "app_ok (?a\<lparr>heap := (heap ?a)(p := u')\<rparr>)"
    using r(1,3) by (intro set_session[OF a lv]) auto
  then have "pm_ok (s\<lparr>mUserManager := ?a\<lparr>heap := (heap ?a)(p := u')\<rparr>\<rparr>)"
    using ok by (intro pm_ok_set_app) auto
  then have "pm_ok s'"
    using lv by (auto simp: s' pm_ok_def known_client_def)
  then show thesis
    using s' u' that by blast
qed

text \<open>Dequeuing: the front client's first packet is taken off its stream.\<close>

lemma advanced_session:
  assumes s: "session_ok p u" and n: "unat n \<le> length (stream u)"
  shows "session_ok p (advanced n u)"
  using s advanced_ok(1)[of u n] n
  by (intro session_same_but_buffer[OF s]) (auto simp: session_ok_def advanced_def)

definition taken :: "user \<Rightarrow> user" where
  "taken u = (if spec_get (stream u) = None then u else advanced (ucast (of_le16 (stream u))) u)"

definition front_packet :: "u32 \<Rightarrow> user \<Rightarrow> PacketInfo" where
  "front_packet c u = (if spec_get (stream u) = None then empty_PacketInfo else packet_at u)\<lparr>ClientIndex := c\<rparr>"

lemma taken_ok:
  assumes s: "session_ok p u"
  shows "session_ok p (taken u)" and "mUserID (taken u) = mUserID u" and "mState (taken u) = mState u"
    and "recvFuntionDictionary (taken u) = recvFuntionDictionary u" and "mRoomIndex (taken u) = mRoomIndex u"
    and "stream (taken u) = (case spec_get (stream u) of None \<Rightarrow> stream u | Some (f, r) \<Rightarrow> r)"
proof -
  have b: "buffer_ok u"
    using s by (simp add: session_ok_def)
  have n: "unat (ucast (of_le16 (stream u)) :: u32) \<le> length (stream u)" if "spec_get (stream u) \<noteq> None"
    using that by (auto simp: spec_get_def Let_def unat_ucast_u16_u32 split: if_splits)
  show "session_ok p (taken u)"
    using s advanced_session[OF s n] by (simp add: taken_def)
  show "mUserID (taken u) = mUserID u" "mState (taken u) = mState u"
    "recvFuntionDictionary (taken u) = recvFuntionDictionary u" "mRoomIndex (taken u) = mRoomIndex u"
    by (simp_all add: taken_def advanced_def)
  show "stream (taken u) = (case spec_get (stream u) of None \<Rightarrow> stream u | Some (f, r) \<Rightarrow> r)"
    using advanced_ok(2)[OF b n]
    by (auto simp: taken_def spec_get_def Let_def unat_ucast_u16_u32 split: option.splits if_splits)
qed

lemma DequePacketData_front:
  assumes ok: "pm_ok s" and q: "mInComingPacketUserIndex s = of_nat p # is" and lv: "live (mUserManager s) p"
  shows "DequePacketData s = Inr (front_packet (of_nat p) (heap (mUserManager s) p),
    s\<lparr>mInComingPacketUserIndex := is,
      mUserManager := (mUserManager s)\<lparr>heap := (heap (mUserManager s))(p := taken (heap (mUserManager s) p))\<rparr>\<rparr>)"
proof -
  have a: "app_ok (mUserManager s)"
    using ok by (simp add: pm_ok_def)
  have "buffer_ok (heap (mUserManager s) p)"
    using app_ok_session[OF a lv] by (simp add: session_ok_def)
  from GetPacket_eq[OF this] have "GetPacket (heap (mUserManager s) p) =
     Inr (if spec_get (stream (heap (mUserManager s) p)) = None then empty_PacketInfo else packet_at (heap (mUserManager s) p),
          taken (heap (mUserManager s) p))"
    by (auto simp: taken_def split: option.splits)
  then show ?thesis
    using q by (simp add: DequePacketData_def take_user_index_def GetUserByConnIdx_known[OF a lv] front_packet_def)
qed

lemma DequePacketData_empty:
  "mInComingPacketUserIndex s = [] \<Longrightarrow> DequePacketData s = Inr (empty_PacketInfo, s)"
  by (simp add: DequePacketData_def take_user_index_def)

lemma taken_pm_ok:
  assumes ok: "pm_ok s" and q: "mInComingPacketUserIndex s = of_nat p # is" and lv: "live (mUserManager s) p"
  shows "pm_ok (s\<lparr>mInComingPacketUserIndex := is,
      mUserManager := (mUserManager s)\<lparr>heap := (heap (mUserManager s))(p := taken (heap (mUserManager s) p))\<rparr>\<rparr>)"
proof -
  let ?a = "mUserManager s"
  have a: "app_ok ?a"
    using ok by (simp add: pm_ok_def)
  note t = taken_ok[OF app_ok_session[OF a lv]]
  have "app_ok (?a\<lparr>heap := (heap ?a)(p := taken (heap ?a p))\<rparr>)"
    using t by (intro set_session[OF a lv]) auto
  moreover have "pm_ok (s\<lparr>mInComingPacketUserIndex := is\<rparr>)"
    using ok q by (auto simp: pm_ok_def)
  ultimately show ?thesis
    using pm_ok_set_app[of "s\<lparr>mInComingPacketUserIndex := is\<rparr>"] by simp
qed

section \<open>What dispatching does\<close>

text \<open>Connecting clears the session and puts it in the state \<open>Connected\<close>.\<close>

lemma PM_ProcessUserConnect_ok:
  assumes ok: "app_ok a" and lv: "live a p"
  obtains u' where "PM_ProcessUserConnect (of_nat p) a = Inr (a\<lparr>heap := (heap a)(p := u')\<rparr>)"
    and "app_ok (a\<lparr>heap := (heap a)(p := u')\<rparr>)" and "session_ok p u'" and "mState u' = Connected"
    and "in_state u'" and "mUserID u' = []" and "stream u' = []" and "mRoomIndex u' = -1"
proof -
  obtain u1 where u1: "User_Clear (heap a p) = Inr u1" "session_ok p u1" "mUserID u1 = []" "mRoomIndex u1 = -1" "stream u1 = []"
    by (rule session_Clear[OF app_ok_session[OF ok lv]])
  have b: "user_ok u1"
    using u1(2) by (simp add: session_ok_def)
  obtain u2 where u2: "ChangeState Connected u1 = Inr u2" "session_ok p u2" "mState u2 = Connected" "in_state u2"
      "mUserID u2 = mUserID u1" "mRoomIndex u2 = mRoomIndex u1"
    by (rule session_ChangeState[OF u1(2), of Connected]) auto
  have "stream u2 = stream u1"
    by (rule ChangeState_ok[OF b, of Connected]) (use u2(1) in \<open>auto simp: stream_def unread_def\<close>)
  moreover have "PM_ProcessUserConnect (of_nat p) a = Inr (a\<lparr>heap := (heap a)(p := u2)\<rparr>)"
    using u1(1) u2(1) by (simp add: PM_ProcessUserConnect_def GetUserByConnIdx_known[OF ok lv] on_user_def)
  moreover have "app_ok (a\<lparr>heap := (heap a)(p := u2)\<rparr>)"
    using app_ok_set_user[OF ok lv u2(2)] u2(5) u1(3) by simp
  ultimately show thesis
    using u1 u2 by (intro that[of u2]) auto
qed

lemma ClearConnectionInfo_ok:
  assumes ok: "app_ok a" and lv: "live a p" and st: "mState (heap a p) \<noteq> NoneState"
  obtains u' where "ClearConnectionInfo (of_nat p) a =
      Inr (a\<lparr>mUserIDDictionary := (mUserIDDictionary a)(mUserID (heap a p) := None), heap := (heap a)(p := u')\<rparr>)"
    and "app_ok (a\<lparr>mUserIDDictionary := (mUserIDDictionary a)(mUserID (heap a p) := None), heap := (heap a)(p := u')\<rparr>)"
    and "session_ok p u'" and "cleared u'" and "mUserID u' = []" and "mState u' = mState (heap a p)" and "stream u' = []"
    and "mRoomIndex u' = -1"
  by (rule DeleteUserInfo_ok[OF ok lv])
     (use st in \<open>auto simp: ClearConnectionInfo_def GetUserByConnIdx_known[OF ok lv] intro: that\<close>)

lemma ClearConnectionInfo_none:
  "app_ok a \<Longrightarrow> live a p \<Longrightarrow> mState (heap a p) = NoneState \<Longrightarrow> ClearConnectionInfo (of_nat p) a = Inr a"
  by (simp add: ClearConnectionInfo_def GetUserByConnIdx_known)

lemma PM_ProcessRequest_eq:
  assumes "app_ok a" and "live a p"
  shows "PM_ProcessRequest d pid (of_nat p) n q a =
    bindr (recv_lookup pid (heap a p)) (\<lambda>f. run_recv d f p n q a)"
  by (simp add: PM_ProcessRequest_def GetUserByConnIdx_known[OF assms])

lemma PM_ProcessRequest_keeps:
  assumes "app_ok a" and "live a p" and "PM_ProcessRequest d pid (of_nat p) n q a = Inr a'"
  shows "keeps p a a'"
  using assms run_recv_keeps[OF assms(1,2)] by (auto simp: PM_ProcessRequest_eq bindr_simps)

lemma run_packet_fun_keeps:
  assumes ok: "app_ok a" and lv: "live a p" and ret: "run_packet_fun d f (of_nat p) n q a = Inr a'"
  shows "keeps p a a'"
proof -
  have "keeps p a a'" if "PM_ProcessUserConnect (of_nat p) a = Inr a'"
    by (rule PM_ProcessUserConnect_ok[OF ok lv]) (use that in \<open>auto simp: keeps_def\<close>)
  moreover have "keeps p a a'" if "ClearConnectionInfo (of_nat p) a = Inr a'"
  proof (cases "mState (heap a p) = NoneState")
    case True
    then show ?thesis
      using that ok ClearConnectionInfo_none[OF ok lv] by (simp add: keeps_refl)
  next
    case False
    show ?thesis
      by (rule ClearConnectionInfo_ok[OF ok lv False]) (use that in \<open>auto simp: keeps_def\<close>)
  qed
  ultimately show ?thesis
    using ret by (cases f) (auto intro: PM_ProcessRequest_keeps[OF ok lv])
qed

lemma known_client_live: "known_client a c \<Longrightarrow> \<exists>p. live a p \<and> c = of_nat p"
  by (simp add: known_client_def)

lemma ProcessRecvPacket_ok:
  assumes ok: "pm_ok s" and c: "known_client (mUserManager s) (ClientIndex x)"
    and ret: "ProcessRecvPacket d x s = Inr s'"
  shows "pm_ok s'" and "mInComingPacketUserIndex s' = mInComingPacketUserIndex s"
    and "mSystemPacketQueue s' = mSystemPacketQueue s" and "mUserObjPool (mUserManager s') = mUserObjPool (mUserManager s)"
proof -
  obtain p where p: "live (mUserManager s) p" "ClientIndex x = of_nat p"
    using c by (auto simp: known_client_def)
  have a: "app_ok (mUserManager s)"
    using ok by (simp add: pm_ok_def)
  have "s' = s \<or> (\<exists>a'. s' = s\<lparr>mUserManager := a'\<rparr> \<and> keeps p (mUserManager s) a')"
    using ret p run_packet_fun_keeps[OF a p(1)]
    by (auto simp: ProcessRecvPacket_def on_app_def bindr_simps split: option.splits)
  then have "pm_ok s' \<and> mInComingPacketUserIndex s' = mInComingPacketUserIndex s
      \<and> mSystemPacketQueue s' = mSystemPacketQueue s \<and> mUserObjPool (mUserManager s') = mUserObjPool (mUserManager s)"
    using ok pm_ok_set_app[OF ok] by (auto simp: keeps_def)
  then show "pm_ok s'" and "mInComingPacketUserIndex s' = mInComingPacketUserIndex s"
    and "mSystemPacketQueue s' = mSystemPacketQueue s" and "mUserObjPool (mUserManager s') = mUserObjPool (mUserManager s)"
    by auto
qed

lemma run_packet_fun_shape:
  assumes ok: "app_ok a" and lv: "live a p" and ret: "run_packet_fun d f (of_nat p) n q a = Inr a'"
  shows "shape a' = shape a"
proof -
  have c: "shape a' = shape a" if "PM_ProcessUserConnect (of_nat p) a = Inr a'"
    by (rule PM_ProcessUserConnect_ok[OF ok lv]) (use that in \<open>auto simp: shape_def\<close>)
  have e: "shape a' = shape a" if "ClearConnectionInfo (of_nat p) a = Inr a'"
    using that by (auto simp: ClearConnectionInfo_def DeleteUserInfo_def on_user_def bindr_simps shape_def split: if_splits)
  have r: "shape a' = shape a" if "PM_ProcessRequest d pid (of_nat p) n q a = Inr a'" for pid
    using that run_recv_shape[OF ok] by (auto simp: PM_ProcessRequest_eq[OF ok lv] bindr_simps)
  show ?thesis
    using ret by (cases f) (auto intro: c e r)
qed

lemma ProcessRecvPacket_shape:
  assumes ok: "pm_ok s" and c: "known_client (mUserManager s) (ClientIndex x)"
    and ret: "ProcessRecvPacket d x s = Inr s'"
  shows "shape (mUserManager s') = shape (mUserManager s)"
proof -
  obtain p where p: "live (mUserManager s) p" "ClientIndex x = of_nat p"
    using c by (auto simp: known_client_def)
  have a: "app_ok (mUserManager s)"
    using ok by (simp add: pm_ok_def)
  show ?thesis
    using ret run_packet_fun_shape[OF a p(1)] p(2)
    by (auto simp: ProcessRecvPacket_def on_app_def bindr_simps split: option.splits)
qed

section \<open>The loop body keeps the invariant\<close>

lemma pm_ok_front:
  assumes "pm_ok s" and "mInComingPacketUserIndex s = i # is"
  obtains p where "live (mUserManager s) p" and "i = of_nat p"
  using assms by (auto simp: pm_ok_def known_client_def)

lemma ProcessPacket_recv_ok:
  assumes ok: "pm_ok s" and ret: "ProcessPacket_recv d s = Inr s'"
  shows "pm_ok s'" and "mInComingPacketUserIndex s' = tl (mInComingPacketUserIndex s)"
    and "mSystemPacketQueue s' = mSystemPacketQueue s" and "mUserObjPool (mUserManager s') = mUserObjPool (mUserManager s)"
proof -
  have "pm_ok s' \<and> mInComingPacketUserIndex s' = tl (mInComingPacketUserIndex s)
      \<and> mSystemPacketQueue s' = mSystemPacketQueue s \<and> mUserObjPool (mUserManager s') = mUserObjPool (mUserManager s)"
  proof (cases "mInComingPacketUserIndex s")
    case Nil
    then show ?thesis
      using ret ok DequePacketData_empty[OF Nil] by (simp add: ProcessPacket_recv_def empty_PacketInfo_def)
  next
    case (Cons i "is")
    obtain p where p: "live (mUserManager s) p" "i = of_nat p"
      using pm_ok_front[OF ok Cons] .
    note q = Cons[unfolded p(2)]
    note t = taken_pm_ok[OF ok q p(1)]
    have "known_client (mUserManager s) (ClientIndex (front_packet (of_nat p) u))" for u
      using p(1) by (auto simp: known_client_def front_packet_def)
    then show ?thesis
      using ret t DequePacketData_front[OF ok q p(1)] Cons
      by (fastforce simp: ProcessPacket_recv_def known_client_def live_def split: if_splits
          dest: ProcessRecvPacket_ok[OF t, rotated])
  qed
  then show "pm_ok s'" and "mInComingPacketUserIndex s' = tl (mInComingPacketUserIndex s)"
    and "mSystemPacketQueue s' = mSystemPacketQueue s" and "mUserObjPool (mUserManager s') = mUserObjPool (mUserManager s)"
    by auto
qed

lemma ProcessPacket_system_ok:
  assumes ok: "pm_ok s" and ret: "ProcessPacket_system d s = Inr s'"
  shows "pm_ok s'" and "mSystemPacketQueue s' = tl (mSystemPacketQueue s)"
    and "mInComingPacketUserIndex s' = mInComingPacketUserIndex s" and "mUserObjPool (mUserManager s') = mUserObjPool (mUserManager s)"
proof -
  have "pm_ok s' \<and> mSystemPacketQueue s' = tl (mSystemPacketQueue s)
      \<and> mInComingPacketUserIndex s' = mInComingPacketUserIndex s \<and> mUserObjPool (mUserManager s') = mUserObjPool (mUserManager s)"
  proof (cases "mSystemPacketQueue s")
    case Nil
    then show ?thesis
      using ret ok by (simp add: ProcessPacket_system_def DequeSystemPacketData_def empty_PacketInfo_def)
  next
    case (Cons x xs)
    let ?s = "s\<lparr>mSystemPacketQueue := xs\<rparr>"
    have t: "pm_ok ?s" and c: "known_client (mUserManager ?s) (ClientIndex x)"
      using ok Cons by (auto simp: pm_ok_def system_packet_ok_def)
    show ?thesis
      using ret t Cons ProcessRecvPacket_ok[OF t c]
      by (auto simp: ProcessPacket_system_def DequeSystemPacketData_def split: if_splits)
  qed
  then show "pm_ok s'" and "mSystemPacketQueue s' = tl (mSystemPacketQueue s)"
    and "mInComingPacketUserIndex s' = mInComingPacketUserIndex s" and "mUserObjPool (mUserManager s') = mUserObjPool (mUserManager s)"
    by auto
qed

lemma ProcessPacket_ok:
  assumes ok: "pm_ok s" and ret: "ProcessPacket d s = Inr s'"
  shows "pm_ok s'" and "mUserObjPool (mUserManager s') = mUserObjPool (mUserManager s)"
proof -
  have "pm_ok s' \<and> mUserObjPool (mUserManager s') = mUserObjPool (mUserManager s)"
  proof (cases "mIsRunProcessThread s")
    case True
    then obtain s1 where 1: "ProcessPacket_recv d s = Inr s1" and 2: "ProcessPacket_system d s1 = Inr s'"
      using ret by (auto simp: ProcessPacket_def bindr_simps)
    show ?thesis
      using ProcessPacket_recv_ok[OF ok 1] ProcessPacket_system_ok[OF _ 2] by auto
  qed (use ret ok in \<open>simp add: ProcessPacket_def\<close>)
  then show "pm_ok s'" and "mUserObjPool (mUserManager s') = mUserObjPool (mUserManager s)"
    by auto
qed

lemma ProcessPacket_recv_shape:
  assumes ok: "pm_ok s" and ret: "ProcessPacket_recv d s = Inr s'"
  shows "shape (mUserManager s') = shape (mUserManager s)"
proof (cases "mInComingPacketUserIndex s")
  case Nil
  then show ?thesis
    using ret DequePacketData_empty[OF Nil] by (simp add: ProcessPacket_recv_def empty_PacketInfo_def)
next
  case (Cons i "is")
  obtain p where p: "live (mUserManager s) p" "i = of_nat p"
    using pm_ok_front[OF ok Cons] .
  note q = Cons[unfolded p(2)]
  let ?u = "heap (mUserManager s) p"
  let ?s = "s\<lparr>mInComingPacketUserIndex := is, mUserManager := (mUserManager s)\<lparr>heap := (heap (mUserManager s))(p := taken ?u)\<rparr>\<rparr>"
  let ?x = "front_packet (of_nat p) ?u"
  have ok1: "pm_ok ?s" and c: "known_client (mUserManager ?s) (ClientIndex ?x)"
    using taken_pm_ok[OF ok q p(1)] p(1) by (auto simp: known_client_def front_packet_def live_def)
  have "(if PacketId ?x > pid16 SYS_END then ProcessRecvPacket d ?x ?s else Inr ?s) = Inr s'"
    using ret DequePacketData_front[OF ok q p(1)] by (simp add: ProcessPacket_recv_def)
  then have "shape (mUserManager s') = shape (mUserManager ?s)"
    using ProcessRecvPacket_shape[OF ok1 c] by (auto split: if_splits)
  then show ?thesis
    by (simp add: shape_def)
qed

lemma ProcessPacket_system_shape:
  assumes ok: "pm_ok s" and ret: "ProcessPacket_system d s = Inr s'"
  shows "shape (mUserManager s') = shape (mUserManager s)"
proof (cases "mSystemPacketQueue s")
  case Nil
  then show ?thesis
    using ret by (simp add: ProcessPacket_system_def DequeSystemPacketData_def empty_PacketInfo_def)
next
  case (Cons x xs)
  have "pm_ok (s\<lparr>mSystemPacketQueue := xs\<rparr>)" and "known_client (mUserManager (s\<lparr>mSystemPacketQueue := xs\<rparr>)) (ClientIndex x)"
    using ok Cons by (auto simp: pm_ok_def system_packet_ok_def)
  from ProcessRecvPacket_shape[OF this] show ?thesis
    using ret Cons by (auto simp: ProcessPacket_system_def DequeSystemPacketData_def split: if_splits)
qed

lemma ProcessPacket_shape:
  assumes ok: "pm_ok s" and ret: "ProcessPacket d s = Inr s'"
  shows "shape (mUserManager s') = shape (mUserManager s)"
  using ret ProcessPacket_recv_shape[OF ok] ProcessPacket_recv_ok(1)[OF ok] ProcessPacket_system_shape
  by (fastforce simp: ProcessPacket_def bindr_simps split: if_splits)

section \<open>Properties\<close>

text \<open>The packet thread dispatches a request to the handler of the session's state.\<close>

definition served :: "user \<Rightarrow> u16 \<Rightarrow> bool" where
  "served u k \<longleftrightarrow> (\<exists>pid \<in> set requests. k = pid16 pid \<and> \<not> cleared u \<and> allowed (mState u) pid \<noteq> RecvNothing)"

lemma recv_lookup_ok:
  assumes "user_ok u" and "pid \<in> set requests"
  shows "recv_lookup pid u = Inr (if cleared u then RecvNothing else allowed (mState u) pid)"
  using assms by (auto simp: user_ok_def recv_lookup_def cleared_def in_state_def)

lemma packet_table_cases:
  assumes "packet_table (uint (k :: u16)) = Some f"
  obtains (system) "k \<le> pid16 SYS_END"
    | (request) pid where "pid \<in> set requests" and "k = pid16 pid" and "run_packet_fun d f = PM_ProcessRequest d pid"
proof -
  have id: "k = pid16 pid" if "uint k = packet_id pid" for pid
    using that by (metis uint_pid16 word_uint_eq_iff)
  have sys: "k \<le> pid16 SYS_END" if "uint k \<le> 30"
    using that by (simp add: word_le_def)
  have "uint k = 11 \<or> uint k = 12 \<or> uint k = packet_id REQ_CREATE_ACCOUNT \<and> f = Fn_ProcessCreateAccount
      \<or> uint k = packet_id REQ_LOGIN \<and> f = Fn_ProcessLogin
      \<or> uint k = packet_id REQ_LOBBY_INFO \<and> f = Fn_ProcessLobbyInfo
      \<or> uint k = packet_id REQ_ROOM_ENTER \<and> f = Fn_ProcessEnterRoom
      \<or> uint k = packet_id REQ_ROOM_INFO \<and> f = Fn_ProcessRoomInfo
      \<or> uint k = packet_id REQ_ROOM_LEAVE \<and> f = Fn_ProcessLeaveRoom
      \<or> uint k = packet_id REQ_ROOM_CHAT \<and> f = Fn_ProcessRoomChatMessage"
    using assms by (simp add: packet_table_def split: if_splits)
  then have "uint k \<le> 30 \<or> (\<exists>pid \<in> set requests. uint k = packet_id pid \<and> run_packet_fun d f = PM_ProcessRequest d pid)"
    by (elim disjE conjE) (simp_all add: requests_def fun_eq_iff)
  then show thesis
    using system request sys id by blast
qed

lemma unserved_dispatch:
  assumes ok: "pm_ok s" and lv: "live (mUserManager s) p" and c: "ClientIndex x = of_nat p"
    and un: "\<not> served (heap (mUserManager s) p) (PacketId x)" and big: "PacketId x > pid16 SYS_END"
  shows "ProcessRecvPacket d x s = Inr s"
proof (cases "packet_table (uint (PacketId x))")
  case None
  then show ?thesis
    using ok by (simp add: ProcessRecvPacket_def pm_ok_def)
next
  case (Some f)
  have a: "app_ok (mUserManager s)" and t: "mRecvFuntionDictionary s = packet_table"
    using ok by (simp_all add: pm_ok_def)
  have u: "user_ok (heap (mUserManager s) p)"
    using app_ok_session[OF a lv] by (simp add: session_ok_def)
  from Some show ?thesis
  proof (cases rule: packet_table_cases[where d=d])
    case system
    then show ?thesis using big by simp
  next
    case (request pid)
    have "recv_lookup pid (heap (mUserManager s) p) = Inr RecvNothing"
      using recv_lookup_ok[OF u request(1)] un request(1,2) by (auto simp: served_def)
    then show ?thesis
      using Some t c request(3) by (simp add: ProcessRecvPacket_def on_app_def PM_ProcessRequest_eq[OF a lv])
  qed
qed

lemma served_same:
  "recvFuntionDictionary u' = recvFuntionDictionary u \<Longrightarrow> mState u' = mState u \<Longrightarrow> served u' k = served u k"
  by (simp add: served_def cleared_def)

lemma unserved_packet_step:
  assumes ok: "pm_ok s" and q: "mInComingPacketUserIndex s = of_nat p # is" and lv: "live (mUserManager s) p"
    and u: "u = heap (mUserManager s) p"
    and un: "spec_get (stream u) = None \<or> \<not> served u (of_le16 (drop 2 (stream u)))"
  shows "ProcessPacket_recv d s = Inr (s\<lparr>mInComingPacketUserIndex := is,
      mUserManager := (mUserManager s)\<lparr>heap := (heap (mUserManager s))(p := taken u)\<rparr>\<rparr>)"
proof -
  let ?s = "s\<lparr>mInComingPacketUserIndex := is,
      mUserManager := (mUserManager s)\<lparr>heap := (heap (mUserManager s))(p := taken u)\<rparr>\<rparr>"
  let ?x = "front_packet (of_nat p) u"
  have a: "app_ok (mUserManager s)"
    using ok by (simp add: pm_ok_def)
  note t = taken_ok[OF app_ok_session[OF a lv]]
  have s1: "pm_ok ?s" "live (mUserManager ?s) p"
    using taken_pm_ok[OF ok q lv] lv u by (simp_all add: live_def)
  have "ProcessRecvPacket d ?x ?s = Inr ?s" if big: "PacketId ?x > pid16 SYS_END"
  proof (rule unserved_dispatch[OF s1 _ _ big])
    have "spec_get (stream u) \<noteq> None"
      using big by (cases "spec_get (stream u)") (simp_all add: front_packet_def empty_PacketInfo_def)
    then have "PacketId ?x = of_le16 (drop 2 (stream u))"
      unfolding front_packet_def if_not_P[OF \<open>spec_get (stream u) \<noteq> None\<close>] by (simp add: packet_at_def)
    then show "\<not> served (heap (mUserManager ?s) p) (PacketId ?x)"
      using un \<open>spec_get (stream u) \<noteq> None\<close> served_same[of "taken u" u] t(3,4) u by auto
    show "ClientIndex ?x = of_nat p"
      by (simp add: front_packet_def)
  qed
  then show ?thesis
    using DequePacketData_front[OF ok q lv] u by (simp add: ProcessPacket_recv_def)
qed

text \<open>
  C28. Packets without effect: a packet whose id is reserved for the system (a client cannot forge a
  connect or a disconnect), is no request, or is a request that the session's state does not admit is
  taken off the stream, and nothing else in the whole server changes.
\<close>

theorem packet_without_effect:
  assumes ok: "pm_ok s" and q: "mInComingPacketUserIndex s = of_nat p # is" and lv: "live (mUserManager s) p"
    and u: "u = heap (mUserManager s) p" and f: "spec_get (stream u) = Some (f, r)"
    and un: "\<not> served u (of_le16 (drop 2 (stream u)))"
  shows "\<exists>u'. ProcessPacket_recv d s = Inr (s\<lparr>mInComingPacketUserIndex := is,
      mUserManager := (mUserManager s)\<lparr>heap := (heap (mUserManager s))(p := u')\<rparr>\<rparr>)
    \<and> stream u' = r \<and> mState u' = mState u \<and> mUserID u' = mUserID u \<and> mRoomIndex u' = mRoomIndex u
    \<and> recvFuntionDictionary u' = recvFuntionDictionary u"
proof -
  have "session_ok p u"
    using ok lv u by (auto simp: pm_ok_def intro: app_ok_session)
  then show ?thesis
    using unserved_packet_step[OF ok q lv u] un taken_ok[of p u] f by auto
qed

text \<open>A running manager in which client 1 has sent some bytes that were not looked at yet.\<close>

definition waiting_pm :: "bytes \<Rightarrow> (account_db, unit) packet_manager" where
  "waiting_pm bs = (PacketManager_Init ((ready_app 100 init_db chat_rooms)\<lparr>heap :=
      (heap (ready_app 100 init_db chat_rooms))(1 := appended bs (ready_session 1))\<rparr>))
    \<lparr>mIsRunProcessThread := True, mInComingPacketUserIndex := [1]\<rparr>"

lemma waiting_pm_sel [simp]:
  "mInComingPacketUserIndex (waiting_pm bs) = [1]" "mSystemPacketQueue (waiting_pm bs) = []"
  "mIsRunProcessThread (waiting_pm bs)" "heap (mUserManager (waiting_pm bs)) 1 = appended bs (ready_session 1)"
  "live (mUserManager (waiting_pm bs)) p \<longleftrightarrow> p < 100" "sent (mUserManager (waiting_pm bs)) = []"
  by (simp_all add: waiting_pm_def PacketManager_Init_def)

lemma waiting_pm_ok:
  assumes "length bs \<le> PACKET_DATA_BUFFER_SIZE"
  shows "pm_ok (waiting_pm bs)"
proof -
  have s: "session_ok 1 (appended bs (ready_session 1))"
    using assms by (intro session_appended ready_session_ok) simp
  have "app_ok (ready_app 100 init_db chat_rooms)"
    by (intro ready_app_ok chat_rooms_ok) simp
  from app_ok_set_user[OF this _ s] have "app_ok (mUserManager (waiting_pm bs))"
    by (simp add: waiting_pm_def PacketManager_Init_def appended_def)
  moreover have "known_client (mUserManager (waiting_pm bs)) 1"
    unfolding known_client_def by (intro exI[of _ 1]) simp
  ultimately show ?thesis
    by (simp add: pm_ok_def) (simp add: waiting_pm_def PacketManager_Init_def)
qed

lemma waiting_stream:
  assumes "length bs \<le> PACKET_DATA_BUFFER_SIZE"
  shows "stream (appended bs (ready_session 1)) = bs"
proof -
  have "buffer_ok (ready_session 1)"
    using ready_session_ok(1)[of 1] by (simp add: session_ok_def)
  then show ?thesis
    using appended_ok(2)[of "ready_session 1" bs] assms ready_session_ok(2)[of 1] by simp
qed

text \<open>A forged \<open>SYS_USER_CONNECT\<close>, and a login request of a session that is not connected.\<close>

definition forged_connect :: bytes where
  "forged_connect = [5, 0, 11, 0, 0]"

theorem packet_without_effect_witness:
  "\<exists>u'. ProcessPacket_recv sample_odbc (waiting_pm forged_connect) = Inr ((waiting_pm forged_connect)
      \<lparr>mInComingPacketUserIndex := [], mUserManager := (mUserManager (waiting_pm forged_connect))
        \<lparr>heap := (heap (mUserManager (waiting_pm forged_connect)))(1 := u')\<rparr>\<rparr>)
    \<and> stream u' = [] \<and> mState u' = NoneState"
proof -
  have len: "length forged_connect \<le> PACKET_DATA_BUFFER_SIZE"
    by (simp add: forged_connect_def PACKET_DATA_BUFFER_SIZE_def)
  have st: "stream (appended forged_connect (ready_session 1)) = forged_connect"
    by (rule waiting_stream[OF len])
  have "\<not> served (appended forged_connect (ready_session 1)) k" for k
    using ready_session_ok(3)[of 1] by (simp add: served_def appended_def cleared_def)
  moreover have "spec_get (stream (appended forged_connect (ready_session 1))) = Some (forged_connect, [])"
    unfolding st by (simp add: forged_connect_def spec_get_def packet_sizes)
  moreover have "mState (appended forged_connect (ready_session 1)) = NoneState"
    by (simp add: appended_def)
  moreover have "heap (mUserManager (waiting_pm forged_connect)) 1 = appended forged_connect (ready_session 1)"
    "mInComingPacketUserIndex (waiting_pm forged_connect) = of_nat 1 # []"
    "live (mUserManager (waiting_pm forged_connect)) 1"
    by (simp_all del: One_nat_def)
  ultimately show ?thesis
    using packet_without_effect[OF waiting_pm_ok[OF len], of 1 "[]" "appended forged_connect (ready_session 1)"
        forged_connect "[]" sample_odbc] by auto
qed

text \<open>A client's bytes that fit a small backlog are received.\<close>

lemma ReceivePacketData_small:
  assumes ok: "pm_ok s" and lv: "live (mUserManager s) p" and n: "length bs \<le> MAX_SOCKBUF"
    and bl: "length (stream (heap (mUserManager s) p)) \<le> 3920"
  obtains u' where "ReceivePacketData m (of_nat p) (of_nat (length bs)) (map Some bs) s =
      Inr (s\<lparr>mUserManager := (mUserManager s)\<lparr>heap := (heap (mUserManager s))(p := u')\<rparr>,
        mInComingPacketUserIndex := mInComingPacketUserIndex s @ [of_nat p]\<rparr>)"
    and "pm_ok (s\<lparr>mUserManager := (mUserManager s)\<lparr>heap := (heap (mUserManager s))(p := u')\<rparr>,
        mInComingPacketUserIndex := mInComingPacketUserIndex s @ [of_nat p]\<rparr>)"
    and "session_ok p u'" and "stream u' = stream (heap (mUserManager s) p) @ bs"
    and "mUserID u' = mUserID (heap (mUserManager s) p)" and "mState u' = mState (heap (mUserManager s) p)"
    and "recvFuntionDictionary u' = recvFuntionDictionary (heap (mUserManager s) p)"
    and "mRoomIndex u' = mRoomIndex (heap (mUserManager s) p)" and "deliver m bs (heap (mUserManager s) p) = Inr u'"
proof -
  have a: "app_ok (mUserManager s)"
    using ok by (simp add: pm_ok_def)
  note u = app_ok_session[OF a lv]
  have n31: "length bs < 2 ^ 31"
    using n by (simp add: MAX_SOCKBUF_def)
  have b: "buffer_ok (heap (mUserManager s) p)"
    using u by (simp add: session_ok_def)
  obtain u' where u': "SetPacketData m (of_nat (length bs)) (map Some bs) (heap (mUserManager s) p) = Inr u'"
    using deliver_small_backlog[OF b n bl, of m] by (auto simp: deliver_def)
  have r: "ReceivePacketData m (of_nat p) (of_nat (length bs)) (map Some bs) s =
      Inr (s\<lparr>mUserManager := (mUserManager s)\<lparr>heap := (heap (mUserManager s))(p := u')\<rparr>,
        mInComingPacketUserIndex := mInComingPacketUserIndex s @ [of_nat p]\<rparr>)"
    using u' by (simp add: ReceivePacketData_def GetUserByConnIdx_known[OF a lv] on_app_def on_user_def EnqueuePacketData_def)
  have "pm_ok (s\<lparr>mUserManager := (mUserManager s)\<lparr>heap := (heap (mUserManager s))(p := u')\<rparr>,
        mInComingPacketUserIndex := mInComingPacketUserIndex s @ [of_nat p]\<rparr>)"
    by (rule ReceivePacketData_ok[OF ok lv n31 r]) blast
  moreover have "deliver m bs (heap (mUserManager s) p) = Inr u'"
    using u' by (simp add: deliver_def)
  ultimately show thesis
    using that r SetPacketData_session[OF u n31 u'] by blast
qed

text \<open>Where the packet at the front of a stream lies in the buffer.\<close>

lemma packet_at_memory:
  assumes b: "buffer_ok u" and st: "stream u = f @ r"
  shows "\<exists>rest. drop (unat (mPacketDataBufferRPos u)) (mPacketDataBuffer u) = map Some f @ rest"
proof -
  let ?r = "unat (mPacketDataBufferRPos u)" and ?n = "unat (mPacketDataBufferWPos u) - unat (mPacketDataBufferRPos u)"
  have "drop ?r (mPacketDataBuffer u) = take ?n (drop ?r (mPacketDataBuffer u)) @ drop ?n (drop ?r (mPacketDataBuffer u))"
    by (rule append_take_drop_id[symmetric])
  moreover have "take ?n (drop ?r (mPacketDataBuffer u)) = map Some f @ map Some r"
    using unread_stream[OF b] st by (simp add: unread_def block_def)
  ultimately show ?thesis
    by (metis append_assoc)
qed

lemma taken_memory [simp]: "mPacketDataBuffer (taken u) = mPacketDataBuffer u"
  by (simp add: taken_def advanced_def)

lemma account_request_fields:
  "frame (account_request pid t uid pw)" if "length uid \<le> 10" "length pw \<le> 10" for uid pw
  using length_account_request[of uid pw pid t] that
  by (simp add: frame_def packet_sizes account_request_def wire_simps)

lemma account_request_header:
  "of_le16 (account_request pid t uid pw @ r) = 27"
  "of_le16 (drop 2 (account_request pid t uid pw @ r)) = pid16 pid"
  by (simp_all add: account_request_def packet_sizes wire_simps)

lemma request_fun:
  assumes "pid \<in> set requests"
  shows "\<exists>f. packet_table (packet_id pid) = Some f \<and> run_packet_fun d f = PM_ProcessRequest d pid"
  using assms by (auto simp: requests_def packet_table_def fun_eq_iff)

lemma request_id_big: "pid \<in> set requests \<Longrightarrow> pid16 SYS_END < pid16 pid"
  by (auto simp: requests_def word_less_def)

text \<open>A request frame that arrives in one piece on an empty stream: the next turn of the packet thread
  runs the session's function object for it, with the frame at the packet pointer.\<close>

lemma received_request:
  assumes ok: "pm_ok s" and lv: "live (mUserManager s) p" and q: "mInComingPacketUserIndex s = []"
    and st: "stream (heap (mUserManager s) p) = []"
    and f: "frame f" "length f \<le> MAX_SOCKBUF" and pid: "pid \<in> set requests" "of_le16 (drop 2 f) = pid16 pid"
  obtains s1 u ptr rest a2 where "ReceivePacketData m (of_nat p) (of_nat (length f)) (map Some f) s = Inr s1"
    and "ProcessPacket_recv d s1 = bindr (bindr (recv_lookup pid u) (\<lambda>h. run_recv d h p (of_le16 f) (Some ptr) a2))
           (\<lambda>a'. Inr (s\<lparr>mInComingPacketUserIndex := [], mUserManager := a'\<rparr>))"
    and "a2 = (mUserManager s)\<lparr>heap := (heap (mUserManager s))(p := u)\<rparr>"
    and "pm_ok (s\<lparr>mInComingPacketUserIndex := [], mUserManager := a2\<rparr>)"
    and "drop ptr (mPacketDataBuffer u) = map Some f @ rest"
    and "mUserID u = mUserID (heap (mUserManager s) p)" and "mState u = mState (heap (mUserManager s) p)"
    and "recvFuntionDictionary u = recvFuntionDictionary (heap (mUserManager s) p)"
    and "mRoomIndex u = mRoomIndex (heap (mUserManager s) p)" and "user_ok u"
proof -
  let ?a = "mUserManager s"
  have bl: "length (stream (heap ?a p)) \<le> 3920"
    using st by simp
  obtain u where recv: "ReceivePacketData m (of_nat p) (of_nat (length f)) (map Some f) s =
      Inr (s\<lparr>mUserManager := ?a\<lparr>heap := (heap ?a)(p := u)\<rparr>, mInComingPacketUserIndex := mInComingPacketUserIndex s @ [of_nat p]\<rparr>)"
    and ok1: "pm_ok (s\<lparr>mUserManager := ?a\<lparr>heap := (heap ?a)(p := u)\<rparr>, mInComingPacketUserIndex := mInComingPacketUserIndex s @ [of_nat p]\<rparr>)"
    and u: "session_ok p u" "stream u = stream (heap ?a p) @ f" "mUserID u = mUserID (heap ?a p)"
      "mState u = mState (heap ?a p)" "recvFuntionDictionary u = recvFuntionDictionary (heap ?a p)"
      "mRoomIndex u = mRoomIndex (heap ?a p)"
    by (rule ReceivePacketData_small[OF ok lv f(2) bl])
  let ?s1 = "s\<lparr>mUserManager := ?a\<lparr>heap := (heap ?a)(p := u)\<rparr>, mInComingPacketUserIndex := [of_nat p]\<rparr>"
  let ?a2 = "?a\<lparr>heap := (heap ?a)(p := taken u)\<rparr>" and ?ptr = "unat (mPacketDataBufferRPos u)"
  let ?s2 = "s\<lparr>mInComingPacketUserIndex := [], mUserManager := ?a2\<rparr>"
  have s1: "pm_ok ?s1" "live (mUserManager ?s1) p"
    using ok1 q lv by (simp_all add: live_def)
  have us: "stream u = f" and get: "spec_get (stream u) = Some (f, [])"
    using u(2) st spec_get_frame[OF f(1), of "[]"] by simp_all
  have s2: "pm_ok ?s2" "app_ok ?a2" "live ?a2 p" "mRecvFuntionDictionary s = packet_table"
    using taken_pm_ok[OF s1(1) _ s1(2), of "[]"] lv ok by (simp_all add: pm_ok_def live_def)
  obtain h where h: "packet_table (packet_id pid) = Some h" "run_packet_fun d h = PM_ProcessRequest d pid"
    using request_fun[OF pid(1), of d] by blast
  have proc: "ProcessPacket_recv d ?s1 = bindr (bindr (recv_lookup pid (taken u))
       (\<lambda>h. run_recv d h p (of_le16 f) (Some ?ptr) ?a2)) (\<lambda>a'. Inr (s\<lparr>mInComingPacketUserIndex := [], mUserManager := a'\<rparr>))"
    using DequePacketData_front[OF s1(1) _ s1(2), of "[]"] get us pid(2) request_id_big[OF pid(1)] s2(4) h
    by (simp add: ProcessPacket_recv_def front_packet_def packet_at_def ProcessRecvPacket_def on_app_def
        PM_ProcessRequest_eq[OF s2(2,3)])
  obtain rest where mem: "drop ?ptr (mPacketDataBuffer (taken u)) = map Some f @ rest"
    using packet_at_memory[of u f "[]"] u(1) us by (auto simp: session_ok_def)
  show thesis
    by (rule that[of ?s1 "taken u" ?ptr ?a2 rest])
       (use recv q proc s2(1) mem taken_ok[OF u(1)] u in \<open>simp_all add: session_ok_def\<close>)
qed

lemma recv_lookup_connected:
  assumes "user_ok u" and "mState u = Connected" and "\<not> cleared u"
  shows "recv_lookup REQ_LOGIN u = Inr Connected_ProcessLogin"
  using recv_lookup_ok[of u REQ_LOGIN] assms by (simp add: requests_def)

lemma login_received:
  assumes ok: "pm_ok s" and lv: "live (mUserManager s) p" and q: "mInComingPacketUserIndex s = []"
    and cnt: "mCurrentUserCnt (mUserManager s) < mMaxUserCnt (mUserManager s)"
    and st: "stream (heap (mUserManager s) p) = []"
    and conn: "mState (heap (mUserManager s) p) = Connected" "\<not> cleared (heap (mUserManager s) p)"
    and uid: "0 \<notin> set uid" "length uid \<le> MAX_USER_ID_LEN" and pw: "0 \<notin> set pw" "length pw \<le> MAX_USER_PW_LEN"
    and db: "SelectAccount d uid pw (accounts (mUserManager s)) = Some (found, db')"
  shows "\<exists>s1 s2. ReceivePacketData m (of_nat p) 27 (map Some (account_request REQ_LOGIN t uid pw)) s = Inr s1
    \<and> ProcessPacket_recv d s1 = Inr s2 \<and> pm_ok s2 \<and> mInComingPacketUserIndex s2 = []
    \<and> sent (mUserManager s2) = sent (mUserManager s) @ [(of_nat p, ack_cells ACK_LOGIN
          (if mUserIDDictionary (mUserManager s) uid \<noteq> None then 31 else if found then 30 else 33))]
    \<and> (if mUserIDDictionary (mUserManager s) uid = None \<and> found
       then mState (heap (mUserManager s2) p) = InLobby \<and> mUserID (heap (mUserManager s2) p) = uid
         \<and> mUserIDDictionary (mUserManager s2) = (mUserIDDictionary (mUserManager s))(uid \<mapsto> int p)
       else mState (heap (mUserManager s2) p) = Connected
         \<and> mUserIDDictionary (mUserManager s2) = mUserIDDictionary (mUserManager s))"
proof -
  let ?f = "account_request REQ_LOGIN t uid pw" and ?a = "mUserManager s"
  have len: "length ?f = 27" and fr: "frame ?f"
    using length_account_request[of uid pw] uid(2) pw(2) by (simp_all add: packet_sizes account_request_fields)
  have hdr: "of_le16 ?f = 27" "of_le16 (drop 2 ?f) = pid16 REQ_LOGIN"
    using account_request_header[of REQ_LOGIN t uid pw "[]"] by simp_all
  obtain s1 u ptr rest a2 where recv: "ReceivePacketData m (of_nat p) (of_nat (length ?f)) (map Some ?f) s = Inr s1"
    and proc: "ProcessPacket_recv d s1 = bindr (bindr (recv_lookup REQ_LOGIN u)
       (\<lambda>h. run_recv d h p (of_le16 ?f) (Some ptr) a2)) (\<lambda>a'. Inr (s\<lparr>mInComingPacketUserIndex := [], mUserManager := a'\<rparr>))"
    and a2: "a2 = ?a\<lparr>heap := (heap ?a)(p := u)\<rparr>" and ok2: "pm_ok (s\<lparr>mInComingPacketUserIndex := [], mUserManager := a2\<rparr>)"
    and mem: "drop ptr (mPacketDataBuffer u) = map Some ?f @ rest"
    and u: "mState u = mState (heap ?a p)" "recvFuntionDictionary u = recvFuntionDictionary (heap ?a p)" "user_ok u"
    by (rule received_request[where m=m and d=d, OF ok lv q st fr _ _ hdr(2)]) (use len in \<open>auto simp: MAX_SOCKBUF_def requests_def\<close>)
  have ok2': "app_ok a2" "live a2 p"
    using ok2 lv a2 by (simp_all add: pm_ok_def live_def)
  have mem2: "drop ptr (mPacketDataBuffer (heap a2 p)) = map Some ?f @ rest"
    using mem a2 by simp
  have look: "recv_lookup REQ_LOGIN u = Inr Connected_ProcessLogin"
    using recv_lookup_connected[OF u(3)] u(1,2) conn by (simp add: cleared_def)
  obtain a' where run: "run_recv d Connected_ProcessLogin p 27 (Some ptr) a2 = Inr a'" and a': "app_ok a'"
    and eff: "if mUserIDDictionary a2 uid \<noteq> None then a' = a2\<lparr>sent := sent a2 @ [(of_nat p, ack_cells ACK_LOGIN 31)]\<rparr>
     else if \<not> found then a' = a2\<lparr>accounts := db', sent := sent a2 @ [(of_nat p, ack_cells ACK_LOGIN 33)]\<rparr>
     else sent a' = sent a2 @ [(of_nat p, ack_cells ACK_LOGIN 30)]
       \<and> mState (heap a' p) = InLobby \<and> in_state (heap a' p) \<and> mUserID (heap a' p) = uid
       \<and> mUserIDDictionary a' = (mUserIDDictionary a2)(uid \<mapsto> int p)"
    using login_handled[OF ok2' _ mem2 uid pw, of d found db'] cnt db a2 by auto
  have "pm_ok (s\<lparr>mInComingPacketUserIndex := [], mUserManager := a'\<rparr>)"
    using run_recv_keeps[OF ok2' run] pm_ok_set_app[OF ok2 a'] by (simp add: keeps_def)
  then show ?thesis
    using recv proc look run hdr(1) len eff a2 u(1) conn(1) by auto
qed

text \<open>
  A login over the wire: a connected session sends the 27 bytes of a login request in one piece. The
  receive puts them into its buffer, and the next turn of the packet thread answers with exactly one
  packet: \<open>LOGIN_USER_ALREADY\<close> when the id is registered, \<open>LOGIN_SUCCESS\<close> when the data base
  has the password, \<open>LOGIN_USER_INVALID_PW\<close> otherwise. After a success the session is in the lobby
  under that id, the directory has it, and the stream is empty again.
\<close>

lemma login_over_the_wire:
  assumes ok: "pm_ok s" and lv: "live (mUserManager s) p" and q: "mInComingPacketUserIndex s = []"
    and cnt: "mCurrentUserCnt (mUserManager s) < mMaxUserCnt (mUserManager s)"
    and st: "stream (heap (mUserManager s) p) = []"
    and conn: "mState (heap (mUserManager s) p) = Connected" "\<not> cleared (heap (mUserManager s) p)"
    and uid: "0 \<notin> set uid" "length uid \<le> MAX_USER_ID_LEN" and pw: "0 \<notin> set pw" "length pw \<le> MAX_USER_PW_LEN"
    and db: "SelectAccount d uid pw (accounts (mUserManager s)) = Some (found, db')"
  shows "\<exists>s1 s2. ReceivePacketData m (of_nat p) 27 (map Some (account_request REQ_LOGIN t uid pw)) s = Inr s1
    \<and> ProcessPacket_recv d s1 = Inr s2 \<and> pm_ok s2 \<and> mInComingPacketUserIndex s2 = []
    \<and> sent (mUserManager s2) = sent (mUserManager s) @ [(of_nat p, ack_cells ACK_LOGIN
          (if mUserIDDictionary (mUserManager s) uid \<noteq> None then 31 else if found then 30 else 33))]
    \<and> (if mUserIDDictionary (mUserManager s) uid = None \<and> found
       then mState (heap (mUserManager s2) p) = InLobby \<and> mUserID (heap (mUserManager s2) p) = uid
         \<and> mUserIDDictionary (mUserManager s2) = (mUserIDDictionary (mUserManager s))(uid \<mapsto> int p)
       else mState (heap (mUserManager s2) p) = Connected
         \<and> mUserIDDictionary (mUserManager s2) = mUserIDDictionary (mUserManager s))"
  using login_received[OF assms] .

lemma login_over_the_wire_witness:
  "\<exists>(s :: (account_db, unit) packet_manager) s1 s2. ReceivePacketData Disjoint_only 1 27 (map Some (account_request REQ_LOGIN 0 test001 test001)) s = Inr s1
    \<and> ProcessPacket_recv sample_odbc s1 = Inr s2 \<and> sent (mUserManager s2) = [(1, ack_cells ACK_LOGIN 30)]
    \<and> mUserIDDictionary (mUserManager s2) test001 = Some 1"
proof -
  let ?a = "ready_app 100 init_db chat_rooms"
  have ok: "app_ok ?a"
    by (intro ready_app_ok chat_rooms_ok) simp
  obtain u where c: "app_ok (?a\<lparr>heap := (heap ?a)(1 := u)\<rparr>)" "session_ok 1 u" "mState u = Connected" "in_state u" "stream u = []"
    by (rule PM_ProcessUserConnect_ok[OF ok, of 1]) auto
  let ?s = "PacketManager_Init (?a\<lparr>heap := (heap ?a)(1 := u)\<rparr>) :: (account_db, unit) packet_manager"
  have s: "pm_ok ?s" "live (mUserManager ?s) 1" "mInComingPacketUserIndex ?s = []" "stream (heap (mUserManager ?s) 1) = []"
    "mState (heap (mUserManager ?s) 1) = Connected" "mUserIDDictionary (mUserManager ?s) = Map.empty"
    "accounts (mUserManager ?s) = init_db" "sent (mUserManager ?s) = []"
    using c by (simp_all add: PacketManager_Init_def pm_ok_def live_def)
  have "recvFuntionDictionary u (packet_id REQ_LOGIN) = Some Connected_ProcessLogin"
    using c(3,4) by (simp add: in_state_def requests_def)
  then have nc: "\<not> cleared (heap (mUserManager ?s) 1)"
    by (auto simp: PacketManager_Init_def cleared_def requests_def)
  obtain db' where db: "SelectAccount sample_odbc test001 test001 (accounts (mUserManager ?s)) = Some (True, db')"
    using sample_login s(7) by auto
  have cnt: "mCurrentUserCnt (mUserManager ?s) < mMaxUserCnt (mUserManager ?s)"
    by (simp add: PacketManager_Init_def)
  note w = login_over_the_wire[OF s(1,2,3) cnt s(4,5) nc test001_bounds(1,2,1,3) db, of Disjoint_only 0]
  show ?thesis
    by (rule exI[of _ ?s]) (use w s(6,8) in auto)
qed

text \<open>How the packets of the two virtual calls are dispatched.\<close>

definition system_packet :: "PACKET_ID \<Rightarrow> u32 \<Rightarrow> PacketInfo" where
  "system_packet pid clientIndex = empty_PacketInfo\<lparr>ClientIndex := clientIndex, PacketId := pid16 pid\<rparr>"

lemma connect_dispatch:
  assumes ok: "pm_ok s" and lv: "live (mUserManager s) p"
    and q: "mSystemPacketQueue s = system_packet SYS_USER_CONNECT (of_nat p) # xs"
  obtains u where "ProcessPacket_system d s = Inr (s\<lparr>mSystemPacketQueue := xs,
      mUserManager := (mUserManager s)\<lparr>heap := (heap (mUserManager s))(p := u)\<rparr>\<rparr>)"
    and "app_ok ((mUserManager s)\<lparr>heap := (heap (mUserManager s))(p := u)\<rparr>)"
    and "mState u = Connected" and "\<not> cleared u" and "mUserID u = []" and "stream u = []"
proof -
  have a: "app_ok (mUserManager s)"
    using ok by (simp add: pm_ok_def)
  obtain u where c: "PM_ProcessUserConnect (of_nat p) (mUserManager s) = Inr ((mUserManager s)\<lparr>heap := (heap (mUserManager s))(p := u)\<rparr>)"
    and a': "app_ok ((mUserManager s)\<lparr>heap := (heap (mUserManager s))(p := u)\<rparr>)"
    and u: "mState u = Connected" "in_state u" "mUserID u = []" "stream u = []"
    by (rule PM_ProcessUserConnect_ok[OF a lv])
  have "recvFuntionDictionary u (packet_id REQ_LOGIN) = Some Connected_ProcessLogin"
    using u(1,2) by (simp add: in_state_def requests_def)
  then have nc: "\<not> cleared u"
    by (auto simp: cleared_def requests_def)
  have nz: "pid16 SYS_USER_CONNECT \<noteq> 0"
    by (simp add: pid16_def)
  have "ProcessPacket_system d s = Inr (s\<lparr>mSystemPacketQueue := xs,
      mUserManager := (mUserManager s)\<lparr>heap := (heap (mUserManager s))(p := u)\<rparr>\<rparr>)"
    using q c ok nz by (simp add: ProcessPacket_system_def DequeSystemPacketData_def ProcessRecvPacket_def pm_ok_def
        packet_table_def on_app_def system_packet_def)
  then show thesis
    using that a' u nc by blast
qed

lemma disconnect_dispatch:
  assumes ok: "pm_ok s" and q: "mSystemPacketQueue s = x # xs" and lv: "live (mUserManager s) p"
    and x: "ClientIndex x = of_nat p" "PacketId x = pid16 SYS_USER_DISCONNECT"
  shows "ProcessPacket_system d s = bindr (ClearConnectionInfo (of_nat p) (mUserManager s))
    (\<lambda>a. Inr (s\<lparr>mSystemPacketQueue := xs, mUserManager := a\<rparr>))"
proof -
  have "pid16 SYS_USER_DISCONNECT \<noteq> 0"
    by (simp add: pid16_def)
  then show ?thesis
    using assms by (simp add: ProcessPacket_system_def DequeSystemPacketData_def ProcessRecvPacket_def pm_ok_def
        packet_table_def on_app_def)
qed

text \<open>
  C29. Disconnecting: the system packet frees the user id in the directory, clears the session (no id, no
  room, no handlers, an empty stream) and touches no other session. The room table is untouched, so a
  user who was in a room stays in its member list with an empty id and is sent every later notice.
\<close>

theorem disconnect_effect:
  assumes ok: "pm_ok s" and q: "mSystemPacketQueue s = x # xs" and lv: "live (mUserManager s) p"
    and x: "ClientIndex x = of_nat p" "PacketId x = pid16 SYS_USER_DISCONNECT"
    and st: "mState (heap (mUserManager s) p) \<noteq> NoneState"
  shows "\<exists>s' u. ProcessPacket_system d s = Inr s' \<and> pm_ok s' \<and> mSystemPacketQueue s' = xs
    \<and> heap (mUserManager s') = (heap (mUserManager s))(p := u)
    \<and> cleared u \<and> mUserID u = [] \<and> mRoomIndex u = -1 \<and> stream u = []
    \<and> mUserIDDictionary (mUserManager s') = (mUserIDDictionary (mUserManager s))(mUserID (heap (mUserManager s) p) := None)
    \<and> rooms (mUserManager s') = rooms (mUserManager s) \<and> sent (mUserManager s') = sent (mUserManager s)"
proof -
  let ?a = "mUserManager s"
  have a: "app_ok ?a"
    using ok by (simp add: pm_ok_def)
  obtain u where c: "ClearConnectionInfo (of_nat p) ?a =
      Inr (?a\<lparr>mUserIDDictionary := (mUserIDDictionary ?a)(mUserID (heap ?a p) := None), heap := (heap ?a)(p := u)\<rparr>)"
    and a': "app_ok (?a\<lparr>mUserIDDictionary := (mUserIDDictionary ?a)(mUserID (heap ?a p) := None), heap := (heap ?a)(p := u)\<rparr>)"
    and u: "cleared u" "mUserID u = []" "stream u = []" "mRoomIndex u = -1"
    by (rule ClearConnectionInfo_ok[OF a lv st])
  have "pm_ok (s\<lparr>mSystemPacketQueue := xs\<rparr>)"
    using ok q by (auto simp: pm_ok_def)
  from pm_ok_set_app[OF this a'] show ?thesis
    using disconnect_dispatch[OF ok q lv x, of d] c u by (intro exI[of _ "s\<lparr>mSystemPacketQueue := xs, mUserManager :=
      ?a\<lparr>mUserIDDictionary := (mUserIDDictionary ?a)(mUserID (heap ?a p) := None), heap := (heap ?a)(p := u)\<rparr>\<rparr>"] exI[of _ u]) simp
qed

text \<open>The two users of room 3, the second one gone.\<close>

definition leaving_pm :: "(account_db, unit) packet_manager" where
  "leaving_pm = (PacketManager_Init room_app)\<lparr>mSystemPacketQueue := [system_packet SYS_USER_DISCONNECT 1]\<rparr>"

theorem disconnect_effect_witness:
  "\<exists>s'. ProcessPacket_system sample_odbc leaving_pm = Inr s' \<and> mUserIDDictionary (mUserManager s') [98] = None
    \<and> mUserList (room_numbered 3 (rooms (mUserManager s'))) = [0, 1] \<and> mUserID (heap (mUserManager s') 1) = []"
proof -
  have known: "known_client room_app 1"
    unfolding known_client_def by (intro exI[of _ 1]) (simp add: live_def)
  then have ok: "pm_ok leaving_pm"
    using room_app_ok by (simp add: leaving_pm_def PacketManager_Init_def pm_ok_def system_packet_ok_def system_packet_def)
  have st: "mState (heap (mUserManager leaving_pm) 1) \<noteq> NoneState"
    by (simp add: leaving_pm_def PacketManager_Init_def room_session_def del: state_Enter.simps)
  have r: "mUserList (room_numbered 3 (rooms (mUserManager leaving_pm))) = [0, 1]"
    "mUserID (heap (mUserManager leaving_pm) 1) = [98]"
    using room_app_room by (simp_all add: leaving_pm_def PacketManager_Init_def)
  have q: "mSystemPacketQueue leaving_pm = system_packet SYS_USER_DISCONNECT 1 # []" and lv: "live (mUserManager leaving_pm) 1"
    by (simp_all add: leaving_pm_def PacketManager_Init_def live_def)
  obtain s' u where e: "ProcessPacket_system sample_odbc leaving_pm = Inr s'"
    "heap (mUserManager s') = (heap (mUserManager leaving_pm))(1 := u)" "mUserID u = []"
    "mUserIDDictionary (mUserManager s') = (mUserIDDictionary (mUserManager leaving_pm))(mUserID (heap (mUserManager leaving_pm) 1) := None)"
    "rooms (mUserManager s') = rooms (mUserManager leaving_pm)"
    using disconnect_effect[OF ok q lv _ _ st, of sample_odbc] by (auto simp: system_packet_def)
  then show ?thesis
    using r by (intro exI[of _ s']) simp
qed

text \<open>Dispatching a client's packet leaves the packet buffers alone.\<close>

lemma request_buffers:
  assumes ok: "pm_ok s" and c: "known_client (mUserManager s) (ClientIndex x)"
    and big: "PacketId x > pid16 SYS_END" and ret: "ProcessRecvPacket d x s = Inr s'"
  shows "same_buffers (mUserManager s) (mUserManager s')"
proof (cases "packet_table (uint (PacketId x))")
  case None
  then show ?thesis
    using ret ok by (auto simp: ProcessRecvPacket_def pm_ok_def intro: same_buffers_refl)
next
  case (Some f)
  obtain p where p: "live (mUserManager s) p" "ClientIndex x = of_nat p"
    using c by (auto simp: known_client_def)
  have a: "app_ok (mUserManager s)" and t: "mRecvFuntionDictionary s = packet_table"
    using ok by (simp_all add: pm_ok_def)
  from Some show ?thesis
  proof (cases rule: packet_table_cases[where d=d])
    case system
    then show ?thesis using big by simp
  next
    case (request pid)
    then show ?thesis
      using Some t p(2) ret
      by (auto simp: ProcessRecvPacket_def on_app_def PM_ProcessRequest_eq[OF a p(1)] bindr_simps intro: run_recv_buffers)
  qed
qed

lemma ProcessPacket_idle:
  "mInComingPacketUserIndex s = [] \<Longrightarrow> mSystemPacketQueue s = [] \<Longrightarrow> ProcessPacket d s = Inr s"
  by (simp add: ProcessPacket_def ProcessPacket_recv_def DequePacketData_empty ProcessPacket_system_def
      DequeSystemPacketData_def empty_PacketInfo_def)

fun packet_rounds :: "'db odbc \<Rightarrow> nat \<Rightarrow> ('db, 'conn) packet_manager \<Rightarrow> ('db, 'conn) packet_manager result" where
  "packet_rounds d 0 s = Inr s"
| "packet_rounds d (Suc n) s = bindr (ProcessPacket d s) (packet_rounds d n)"

lemma packet_rounds_idle:
  "mInComingPacketUserIndex s = [] \<Longrightarrow> mSystemPacketQueue s = [] \<Longrightarrow> packet_rounds d n s = Inr s"
  by (induction n) (simp_all add: ProcessPacket_idle)

lemma recv_takes_front:
  assumes ok: "pm_ok s" and q: "mInComingPacketUserIndex s = of_nat p # is" and lv: "live (mUserManager s) p"
    and st: "stream (heap (mUserManager s) p) = f @ r" and f: "frame f" and ret: "ProcessPacket_recv d s = Inr s'"
  shows "stream (heap (mUserManager s') p) = r"
proof -
  let ?u = "heap (mUserManager s) p"
  let ?s = "s\<lparr>mInComingPacketUserIndex := is, mUserManager := (mUserManager s)\<lparr>heap := (heap (mUserManager s))(p := taken ?u)\<rparr>\<rparr>"
  let ?x = "front_packet (of_nat p) ?u"
  have ok1: "pm_ok ?s" and c: "known_client (mUserManager ?s) (ClientIndex ?x)"
    using taken_pm_ok[OF ok q lv] lv by (auto simp: known_client_def front_packet_def live_def)
  have u: "session_ok p ?u"
    using ok lv by (auto simp: pm_ok_def intro: app_ok_session)
  have "spec_get (stream ?u) = Some (f, r)"
    using spec_get_frame[OF f, of r] st by simp
  then have t: "stream (taken ?u) = r"
    using taken_ok(6)[OF u] by simp
  have "(if PacketId ?x > pid16 SYS_END then ProcessRecvPacket d ?x ?s else Inr ?s) = Inr s'"
    using ret DequePacketData_front[OF ok q lv] by (simp add: ProcessPacket_recv_def)
  then have "same_buffers (mUserManager ?s) (mUserManager s')"
    using request_buffers[OF ok1 c] by (auto simp: same_buffers_refl split: if_splits)
  then have "same_buffer (heap (mUserManager ?s) p) (heap (mUserManager s') p)"
    unfolding same_buffers_def by blast
  from same_buffer_stream[OF this] show ?thesis
    using t by simp
qed

text \<open>A system packet concerns the session of its client and sends nothing.\<close>

lemma system_packet_effect:
  assumes ok: "pm_ok s" and q: "mSystemPacketQueue s = x # xs"
  obtains s' where "ProcessPacket_system d s = Inr s'" and "pm_ok s'" and "mSystemPacketQueue s' = xs"
    and "mInComingPacketUserIndex s' = mInComingPacketUserIndex s" and "mIsRunProcessThread s' = mIsRunProcessThread s"
    and "mUserObjPool (mUserManager s') = mUserObjPool (mUserManager s)" and "sent (mUserManager s') = sent (mUserManager s)"
    and "\<And>k. of_nat k \<noteq> ClientIndex x \<Longrightarrow> heap (mUserManager s') k = heap (mUserManager s) k"
proof -
  let ?a = "mUserManager s"
  have a: "app_ok ?a" and t: "mRecvFuntionDictionary s = packet_table"
    using ok by (simp_all add: pm_ok_def)
  obtain p where lv: "live ?a p" and i: "ClientIndex x = of_nat p"
    and x: "PacketId x = pid16 SYS_USER_CONNECT \<or> PacketId x = pid16 SYS_USER_DISCONNECT"
    using ok q by (auto simp: pm_ok_def system_packet_ok_def known_client_def)
  have c: "\<exists>u. PM_ProcessUserConnect (of_nat p) ?a = Inr (?a\<lparr>heap := (heap ?a)(p := u)\<rparr>)"
    by (rule PM_ProcessUserConnect_ok[OF a lv]) blast
  have e: "\<exists>m u. ClearConnectionInfo (of_nat p) ?a = Inr (?a\<lparr>mUserIDDictionary := m, heap := (heap ?a)(p := u)\<rparr>)"
  proof (cases "mState (heap ?a p) = NoneState")
    case True
    then show ?thesis
      using ClearConnectionInfo_none[OF a lv] by (intro exI[of _ "mUserIDDictionary ?a"] exI[of _ "heap ?a p"]) simp
  next
    case False
    show ?thesis
      by (rule ClearConnectionInfo_ok[OF a lv False]) blast
  qed
  have "PacketId x \<noteq> 0"
    using x by (auto simp: pid16_def)
  with x c e obtain m u where r: "ProcessPacket_system d s =
      Inr (s\<lparr>mSystemPacketQueue := xs, mUserManager := ?a\<lparr>mUserIDDictionary := m, heap := (heap ?a)(p := u)\<rparr>\<rparr>)"
    using t i q
  proof (elim disjE exE)
    fix u
    assume "PacketId x = pid16 SYS_USER_CONNECT" and "PM_ProcessUserConnect (of_nat p) ?a = Inr (?a\<lparr>heap := (heap ?a)(p := u)\<rparr>)"
    then show thesis
      using that[of u "mUserIDDictionary ?a"] \<open>PacketId x \<noteq> 0\<close> t i q
      by (simp add: ProcessPacket_system_def DequeSystemPacketData_def ProcessRecvPacket_def packet_table_def uint_pid16 on_app_def)
  next
    fix m u
    assume "PacketId x = pid16 SYS_USER_DISCONNECT"
      and "ClearConnectionInfo (of_nat p) ?a = Inr (?a\<lparr>mUserIDDictionary := m, heap := (heap ?a)(p := u)\<rparr>)"
    then show thesis
      using that[of u m] \<open>PacketId x \<noteq> 0\<close> t i q
      by (simp add: ProcessPacket_system_def DequeSystemPacketData_def ProcessRecvPacket_def packet_table_def uint_pid16 on_app_def)
  qed
  show thesis
    by (rule that[OF r]) (use ProcessPacket_system_ok[OF ok r] i in auto)
qed

text \<open>A receive of a client without handlers has no effect but to take its bytes.\<close>

lemma cleared_receive:
  assumes ok: "pm_ok s" and lv: "live (mUserManager s) p" and cl: "cleared (heap (mUserManager s) p)"
    and q: "\<forall>i \<in> set (mInComingPacketUserIndex s). i = of_nat p"
  obtains s' where "ProcessPacket_recv d s = Inr s'" and "pm_ok s'" and "mInComingPacketUserIndex s' = drop 1 (mInComingPacketUserIndex s)"
    and "mSystemPacketQueue s' = mSystemPacketQueue s" and "mIsRunProcessThread s' = mIsRunProcessThread s"
    and "mUserObjPool (mUserManager s') = mUserObjPool (mUserManager s)" and "sent (mUserManager s') = sent (mUserManager s)"
    and "cleared (heap (mUserManager s') p)" and "\<And>k. k \<noteq> p \<Longrightarrow> heap (mUserManager s') k = heap (mUserManager s) k"
proof (cases "mInComingPacketUserIndex s")
  case Nil
  then show thesis
    using that[of s] ok cl by (simp add: ProcessPacket_recv_def DequePacketData_empty empty_PacketInfo_def)
next
  case (Cons i js)
  then have q': "mInComingPacketUserIndex s = of_nat p # js"
    using q by simp
  let ?u = "heap (mUserManager s) p"
  have "session_ok p ?u"
    using ok lv by (auto simp: pm_ok_def intro: app_ok_session)
  then have t: "cleared (taken ?u)"
    using cl taken_ok(4) by (simp add: cleared_def)
  have "ProcessPacket_recv d s = Inr (s\<lparr>mInComingPacketUserIndex := js,
      mUserManager := (mUserManager s)\<lparr>heap := (heap (mUserManager s))(p := taken ?u)\<rparr>\<rparr>)"
    using unserved_packet_step[OF ok q' lv refl] cl by (simp add: served_def)
  then show thesis
    by (rule that) (use taken_pm_ok[OF ok q' lv] t q' in auto)
qed

lemma cleared_turn:
  assumes ok: "pm_ok s" and run: "mIsRunProcessThread s" and lv: "live (mUserManager s) p" and cl: "cleared (heap (mUserManager s) p)"
    and q: "\<forall>i \<in> set (mInComingPacketUserIndex s). i = of_nat p"
    and y: "mSystemPacketQueue s = y # zs" "ClientIndex y \<noteq> of_nat p"
  obtains s' where "ProcessPacket d s = Inr s'" and "pm_ok s'" and "mIsRunProcessThread s'" and "live (mUserManager s') p"
    and "cleared (heap (mUserManager s') p)" and "mInComingPacketUserIndex s' = drop 1 (mInComingPacketUserIndex s)"
    and "mSystemPacketQueue s' = zs" and "sent (mUserManager s') = sent (mUserManager s)"
    and "\<forall>k. k \<noteq> p \<and> of_nat k \<noteq> ClientIndex y \<longrightarrow> heap (mUserManager s') k = heap (mUserManager s) k"
proof -
  obtain s1 where s1: "ProcessPacket_recv d s = Inr s1" "pm_ok s1" "mInComingPacketUserIndex s1 = drop 1 (mInComingPacketUserIndex s)"
    "mSystemPacketQueue s1 = mSystemPacketQueue s" "mIsRunProcessThread s1 = mIsRunProcessThread s"
    "mUserObjPool (mUserManager s1) = mUserObjPool (mUserManager s)" "sent (mUserManager s1) = sent (mUserManager s)"
    "cleared (heap (mUserManager s1) p)" "\<And>k. k \<noteq> p \<Longrightarrow> heap (mUserManager s1) k = heap (mUserManager s) k"
    by (rule cleared_receive[OF ok lv cl q, of d]) simp
  obtain s2 where s2: "ProcessPacket_system d s1 = Inr s2" "pm_ok s2" "mSystemPacketQueue s2 = zs"
    "mInComingPacketUserIndex s2 = mInComingPacketUserIndex s1" "mIsRunProcessThread s2 = mIsRunProcessThread s1"
    "mUserObjPool (mUserManager s2) = mUserObjPool (mUserManager s1)" "sent (mUserManager s2) = sent (mUserManager s1)"
    "\<And>k. of_nat k \<noteq> ClientIndex y \<Longrightarrow> heap (mUserManager s2) k = heap (mUserManager s1) k"
    by (rule system_packet_effect[OF s1(2), of y zs d]) (use y(1) s1(4) in auto)
  show thesis
    by (rule that[of s2]) (use s1 s2 run lv y(2) in \<open>auto simp: ProcessPacket_def live_def\<close>)
qed

text \<open>
  C31. A request that is taken before the connect of its client, or in the same turn, is lost: the packet thread looks
  at the client queue first, and the session has no handlers until the connect clears it. However many system
  packets of other clients are waiting before the connect, and however many receives of the client are queued, the
  turns up to the one that takes the connect all return and send nothing, and then the session is connected
  with nothing left to read.
\<close>

theorem request_before_connect_lost:
  assumes "pm_ok s" and "mIsRunProcessThread s" and "live (mUserManager s) p" and "cleared (heap (mUserManager s) p)"
    and "\<forall>i \<in> set (mInComingPacketUserIndex s). i = of_nat p"
    and "mSystemPacketQueue s = ys @ system_packet SYS_USER_CONNECT (of_nat p) # xs" and "\<forall>y \<in> set ys. ClientIndex y \<noteq> of_nat p"
  shows "\<exists>s'. packet_rounds d (Suc (length ys)) s = Inr s'
    \<and> mInComingPacketUserIndex s' = drop (Suc (length ys)) (mInComingPacketUserIndex s) \<and> mSystemPacketQueue s' = xs
    \<and> mState (heap (mUserManager s') p) = Connected \<and> stream (heap (mUserManager s') p) = []
    \<and> (\<forall>k. k \<noteq> p \<and> of_nat k \<notin> ClientIndex ` set ys \<longrightarrow> heap (mUserManager s') k = heap (mUserManager s) k)
    \<and> sent (mUserManager s') = sent (mUserManager s)"
  using assms
proof (induction ys arbitrary: s)
  case Nil
  obtain s1 where s1: "ProcessPacket_recv d s = Inr s1" "pm_ok s1" "mInComingPacketUserIndex s1 = drop 1 (mInComingPacketUserIndex s)"
    "mSystemPacketQueue s1 = mSystemPacketQueue s" "mUserObjPool (mUserManager s1) = mUserObjPool (mUserManager s)"
    "sent (mUserManager s1) = sent (mUserManager s)" "\<And>k. k \<noteq> p \<Longrightarrow> heap (mUserManager s1) k = heap (mUserManager s) k"
    by (rule cleared_receive[OF Nil.prems(1,3,4,5), of d]) simp
  have lv1: "live (mUserManager s1) p"
    using Nil.prems(3) s1(5) by (simp add: live_def)
  obtain u where c: "ProcessPacket_system d s1 = Inr (s1\<lparr>mSystemPacketQueue := xs,
      mUserManager := (mUserManager s1)\<lparr>heap := (heap (mUserManager s1))(p := u)\<rparr>\<rparr>)"
    and u: "mState u = Connected" "stream u = []"
    by (rule connect_dispatch[OF s1(2) lv1, of xs d]) (use Nil.prems(6) s1(4) in auto)
  then show ?case
    using s1 Nil.prems(2) by (simp add: ProcessPacket_def)
next
  case (Cons y ys)
  obtain s1 where turn: "ProcessPacket d s = Inr s1" and s1: "pm_ok s1" "mIsRunProcessThread s1" "live (mUserManager s1) p"
    "cleared (heap (mUserManager s1) p)" "mInComingPacketUserIndex s1 = drop 1 (mInComingPacketUserIndex s)"
    "mSystemPacketQueue s1 = ys @ system_packet SYS_USER_CONNECT (of_nat p) # xs" "sent (mUserManager s1) = sent (mUserManager s)"
    "\<forall>k. k \<noteq> p \<and> of_nat k \<noteq> ClientIndex y \<longrightarrow> heap (mUserManager s1) k = heap (mUserManager s) k"
    by (rule cleared_turn[OF Cons.prems(1-5), of y "ys @ system_packet SYS_USER_CONNECT (of_nat p) # xs" d])
      (use Cons.prems(6,7) in auto)
  have "\<forall>i \<in> set (mInComingPacketUserIndex s1). i = of_nat p"
    using Cons.prems(5) s1(5) by (auto dest: in_set_dropD)
  from Cons.IH[OF s1(1-4) this s1(6)] Cons.prems(7) obtain s' where s': "packet_rounds d (Suc (length ys)) s1 = Inr s'"
    "mInComingPacketUserIndex s' = drop (Suc (length ys)) (mInComingPacketUserIndex s1)" "mSystemPacketQueue s' = xs"
    "mState (heap (mUserManager s') p) = Connected" "stream (heap (mUserManager s') p) = []"
    "\<forall>k. k \<noteq> p \<and> of_nat k \<notin> ClientIndex ` set ys \<longrightarrow> heap (mUserManager s') k = heap (mUserManager s1) k"
    "sent (mUserManager s') = sent (mUserManager s1)"
    by auto
  have "packet_rounds d (Suc (length (y # ys))) s = Inr s'"
    using turn s'(1) by simp
  moreover have "\<forall>k. k \<noteq> p \<and> of_nat k \<notin> ClientIndex ` set (y # ys) \<longrightarrow> heap (mUserManager s') k = heap (mUserManager s) k"
    using s'(6) s1(8) by auto
  ultimately show ?case
    using s' s1(5,7) by (intro exI[of _ s']) (simp add: drop_drop)
qed

text \<open>A login is queued; the disconnect of another client is waiting before the connect.\<close>

theorem request_before_connect_lost_witness:
  "\<exists>s'. packet_rounds sample_odbc 2 ((waiting_pm login_frame)\<lparr>mSystemPacketQueue :=
        [system_packet SYS_USER_DISCONNECT 0, system_packet SYS_USER_CONNECT 1]\<rparr>) = Inr s'
    \<and> stream (heap (mUserManager (waiting_pm login_frame)) 1) = login_frame
    \<and> mState (heap (mUserManager s') 1) = Connected \<and> stream (heap (mUserManager s') 1) = [] \<and> sent (mUserManager s') = []"
proof -
  let ?s = "(waiting_pm login_frame)\<lparr>mSystemPacketQueue := [system_packet SYS_USER_DISCONNECT 0] @ system_packet SYS_USER_CONNECT (of_nat 1) # []\<rparr>"
  have len: "length login_frame \<le> PACKET_DATA_BUFFER_SIZE"
    by (simp add: login_frame_def length_account_request packet_sizes PACKET_DATA_BUFFER_SIZE_def)
  have "known_client (mUserManager (waiting_pm login_frame)) 1" and "known_client (mUserManager (waiting_pm login_frame)) 0"
    unfolding known_client_def by (intro exI[of _ 1], simp) (intro exI[of _ 0], simp)
  then have ok: "pm_ok ?s"
    using waiting_pm_ok[OF len] by (simp add: pm_ok_def system_packet_ok_def system_packet_def)
  have h: "heap (mUserManager ?s) 1 = appended login_frame (ready_session 1)"
    by (simp del: One_nat_def)
  then have cl: "cleared (heap (mUserManager ?s) 1)"
    using ready_session_ok(3)[of 1] by (simp add: appended_def cleared_def)
  have "stream (heap (mUserManager (waiting_pm login_frame)) 1) = login_frame"
    using h waiting_stream[OF len] by simp
  moreover have "\<exists>s'. packet_rounds sample_odbc (Suc (length [system_packet SYS_USER_DISCONNECT 0])) ?s = Inr s'
    \<and> mInComingPacketUserIndex s' = drop (Suc (length [system_packet SYS_USER_DISCONNECT 0])) (mInComingPacketUserIndex ?s) \<and> mSystemPacketQueue s' = []
    \<and> mState (heap (mUserManager s') 1) = Connected \<and> stream (heap (mUserManager s') 1) = []
    \<and> (\<forall>k. k \<noteq> 1 \<and> of_nat k \<notin> ClientIndex ` set [system_packet SYS_USER_DISCONNECT 0] \<longrightarrow> heap (mUserManager s') k = heap (mUserManager ?s) k)
    \<and> sent (mUserManager s') = sent (mUserManager ?s)"
    by (rule request_before_connect_lost[OF ok _ _ cl]) (simp_all add: system_packet_def)
  ultimately show ?thesis
    by (auto simp: eval_nat_numeral)
qed

text \<open>
  C30. One packet per receive: when two complete packets arrive in one receive, the packet thread handles
  the first, and however many turns it makes afterwards the second stays in the buffer, until the
  client sends something else.
\<close>

theorem second_packet_waits:
  assumes ok: "pm_ok s" and run: "mIsRunProcessThread s" and lv: "live (mUserManager s) p"
    and q: "mInComingPacketUserIndex s = []" "mSystemPacketQueue s = []"
    and st: "stream (heap (mUserManager s) p) = []" and f: "frame f1" "frame f2" "length (f1 @ f2) \<le> MAX_SOCKBUF"
    and recv: "ReceivePacketData m (of_nat p) (of_nat (length (f1 @ f2))) (map Some (f1 @ f2)) s = Inr s1"
    and rounds: "packet_rounds d (Suc k) s1 = Inr s2"
  shows "stream (heap (mUserManager s2) p) = f2 \<and> mInComingPacketUserIndex s2 = [] \<and> packet_rounds d k s2 = Inr s2"
proof -
  have bl: "length (stream (heap (mUserManager s) p)) \<le> 3920"
    using st by simp
  obtain u where s1: "s1 = s\<lparr>mUserManager := (mUserManager s)\<lparr>heap := (heap (mUserManager s))(p := u)\<rparr>,
      mInComingPacketUserIndex := [of_nat p]\<rparr>" and ok1: "pm_ok s1" and u: "stream u = f1 @ f2"
    by (rule ReceivePacketData_small[OF ok lv f(3) bl, of m]) (use recv q st in auto)
  have q1: "mInComingPacketUserIndex s1 = of_nat p # []" "mSystemPacketQueue s1 = []" "mIsRunProcessThread s1"
    and lv1: "live (mUserManager s1) p" and u1: "stream (heap (mUserManager s1) p) = f1 @ f2"
    using q(2) lv run u by (simp_all add: s1 live_def)
  obtain s' where s': "ProcessPacket d s1 = Inr s'" and r: "packet_rounds d k s' = Inr s2"
    using rounds by (auto simp: bindr_simps)
  then obtain t where t: "ProcessPacket_recv d s1 = Inr t" and sys: "ProcessPacket_system d t = Inr s'"
    using q1(3) by (auto simp: ProcessPacket_def bindr_simps)
  note tq = ProcessPacket_recv_ok[OF ok1 t]
  have "s' = t"
    using sys tq(3) q1(2) by (simp add: ProcessPacket_system_def DequeSystemPacketData_def empty_PacketInfo_def)
  moreover have "mInComingPacketUserIndex t = []" "mSystemPacketQueue t = []"
    using tq(2,3) q1 by simp_all
  moreover have "stream (heap (mUserManager t) p) = f2"
    using recv_takes_front[OF ok1 q1(1) lv1 u1 f(1) t] .
  ultimately show ?thesis
    using r packet_rounds_idle by fastforce
qed

text \<open>A running manager with nothing received yet.\<close>

definition idle_pm :: "(account_db, unit) packet_manager" where
  "idle_pm = (PacketManager_Init (ready_app 100 init_db chat_rooms))\<lparr>mIsRunProcessThread := True\<rparr>"

lemma idle_pm_ok: "pm_ok idle_pm" and idle_pm_sel [simp]:
  "mInComingPacketUserIndex idle_pm = []" "mSystemPacketQueue idle_pm = []" "mIsRunProcessThread idle_pm"
  "p < 100 \<Longrightarrow> heap (mUserManager idle_pm) p = ready_session p" "live (mUserManager idle_pm) p \<longleftrightarrow> p < 100"
  using ready_app_ok[of 100 chat_rooms init_db] chat_rooms_ok
  by (simp_all add: idle_pm_def PacketManager_Init_def pm_ok_def)

theorem second_packet_waits_witness:
  "\<exists>s1 s2. ReceivePacketData Disjoint_only 1 54 (map Some (login_frame @ login_frame)) idle_pm = Inr s1
    \<and> packet_rounds sample_odbc 1 s1 = Inr s2 \<and> stream (heap (mUserManager s2) 1) = login_frame"
proof -
  have len: "length login_frame = 27"
    by (simp add: login_frame_def length_account_request packet_sizes)
  have n: "length (login_frame @ login_frame) \<le> MAX_SOCKBUF"
    using len by (simp add: MAX_SOCKBUF_def)
  have lv: "live (mUserManager idle_pm) 1" and h: "heap (mUserManager idle_pm) 1 = ready_session 1"
    by (simp_all del: One_nat_def)
  have st: "stream (heap (mUserManager idle_pm) 1) = []"
    using ready_session_ok(2)[of 1] h by simp
  obtain u s1 where r: "ReceivePacketData Disjoint_only (of_nat 1) (of_nat (length (login_frame @ login_frame)))
      (map Some (login_frame @ login_frame)) idle_pm = Inr s1"
    and s1: "s1 = idle_pm\<lparr>mUserManager := (mUserManager idle_pm)\<lparr>heap := (heap (mUserManager idle_pm))(1 := u)\<rparr>,
        mInComingPacketUserIndex := [of_nat 1]\<rparr>"
    and ok1: "pm_ok s1" and d: "recvFuntionDictionary u = recvFuntionDictionary (heap (mUserManager idle_pm) 1)"
    by (rule ReceivePacketData_small[OF idle_pm_ok lv n, of Disjoint_only]) (use st in auto)
  have "cleared u"
    using ready_session_ok(3)[of 1] h d by (simp add: cleared_def)
  then have un: "\<not> served (heap (mUserManager s1) 1) k" for k
    by (simp add: served_def s1)
  have q1: "mInComingPacketUserIndex s1 = of_nat 1 # []" and lv1: "live (mUserManager s1) 1"
    by (simp_all add: s1 live_def idle_pm_def PacketManager_Init_def)
  obtain s2 where "packet_rounds sample_odbc (Suc 0) s1 = Inr s2"
    using unserved_packet_step[OF ok1 q1 lv1 refl, of sample_odbc] un
    by (auto simp: s1 ProcessPacket_def ProcessPacket_system_def DequeSystemPacketData_def empty_PacketInfo_def)
  then show ?thesis
    using second_packet_waits[OF idle_pm_ok _ lv _ _ st frame_login_frame frame_login_frame n r, of sample_odbc 0 s2] r len
    by auto
qed

end
