(* ===== verification/Protocol.thy ===== *)
theory Protocol
  imports Rooms
begin

text \<open>
  What the server promises its clients, without buffers, tables of handlers and machine words: an abstract
  protocol machine whose state is the phase and the name of every client, the registered names, and the
  members of the rooms, and whose steps send messages. \<open>encode\<close> is the packet of a message, as \<open>Packet.h\<close> has it.
  Rooms and limits are those the server is started with: 0 to 9, four places each. The machine says which messages
  can follow which; \<open>Service\<close> says which requests they answer, and \<open>Protocol_Refinement\<close> and \<open>Server_Protocol\<close>
  show that the code implements both.

  Shown here, by induction over the runs of the machine: what is sent to a client that never logged in,
  how often rooms can be entered, and that every packet fits the 16 bits of a send.
\<close>

section \<open>The abstract machine\<close>

datatype mode = Offline | Waiting | Lobby | Chatting int

datatype message =
    Ack PACKET_ID RESULT_CODE
  | RoomTable "int list"
  | MemberList "bytes list"
  | Entered bytes
  | Left bytes
  | Said bytes "cell list"

record protocol =
  phase_at :: "nat \<Rightarrow> mode"
  user_id :: "nat \<Rightarrow> bytes"
  registered :: "bytes \<rightharpoonup> int"
  members :: "int \<Rightarrow> nat list"
  admitted :: "int \<Rightarrow> nat"

definition in_table :: "int \<Rightarrow> bool" where
  "in_table k \<longleftrightarrow> 0 \<le> k \<and> k < 10"

definition to_members :: "protocol \<Rightarrow> int \<Rightarrow> message \<Rightarrow> (nat \<times> message) list" where
  "to_members s k m = map (\<lambda>q. (q, m)) (members s k)"

inductive proto_step :: "protocol \<Rightarrow> (nat \<times> message) list \<Rightarrow> protocol \<Rightarrow> bool" where
  idle: "proto_step s [] s"
| connect: "proto_step s [] (s\<lparr>phase_at := (phase_at s)(p := Waiting), user_id := (user_id s)(p := [])\<rparr>)"
| disconnect: "proto_step s [] (s\<lparr>phase_at := (phase_at s)(p := Offline), user_id := (user_id s)(p := []),
     registered := (registered s)(user_id s p := None)\<rparr>)"
| account: "phase_at s p = Waiting \<Longrightarrow> rc \<in> {NONE, CREATE_ACCOUNT_FAIL}
     \<Longrightarrow> proto_step s [(p, Ack ACK_CREATE_ACCOUNT rc)] s"
| login: "phase_at s p = Waiting \<Longrightarrow> registered s uid = None
     \<Longrightarrow> proto_step s [(p, Ack ACK_LOGIN LOGIN_SUCCESS)] (s\<lparr>phase_at := (phase_at s)(p := Lobby),
       user_id := (user_id s)(p := uid), registered := (registered s)(uid \<mapsto> int p)\<rparr>)"
| login_refused: "phase_at s p = Waiting
     \<Longrightarrow> rc \<in> {LOGIN_USER_INVALID_PW, LOGIN_USER_USED_ALL_OBJ} \<or> rc = LOGIN_USER_ALREADY \<and> registered s uid \<noteq> None
     \<Longrightarrow> proto_step s [(p, Ack ACK_LOGIN rc)] s"
| lobby: "phase_at s p = Lobby
     \<Longrightarrow> proto_step s [(p, Ack ACK_LOBBY_INFO LOBBY_INFO_SUCCESS), (p, RoomTable (map int [0..<10]))] s"
| enter: "phase_at s p = Lobby \<Longrightarrow> in_table k \<Longrightarrow> admitted s k < 4 \<Longrightarrow> length (user_id s p) \<le> 11
     \<Longrightarrow> proto_step s (to_members s k (Entered (user_id s p)) @ [(p, Ack ACK_ROOM_ENTER ENTER_ROOM_SUCCESS)])
       (s\<lparr>phase_at := (phase_at s)(p := Chatting k), members := (members s)(k := members s k @ [p]),
          admitted := (admitted s)(k := Suc (admitted s k))\<rparr>)"
| enter_refused: "phase_at s p = Lobby \<Longrightarrow> in_table k \<and> 4 \<le> admitted s k \<and> rc = ROOM_FULL \<or> \<not> in_table k \<and> rc = ROOM_INVALID_INDEX
     \<Longrightarrow> proto_step s [(p, Ack ACK_ROOM_ENTER rc)] (s\<lparr>phase_at := (phase_at s)(p := Chatting k)\<rparr>)"
| info: "phase_at s p = Chatting k \<Longrightarrow> in_table k
     \<Longrightarrow> proto_step s [(p, MemberList (map (user_id s) (members s k)))] s"
| leave: "phase_at s p = Chatting k \<Longrightarrow> in_table k \<Longrightarrow> length (user_id s p) \<le> 11
     \<Longrightarrow> proto_step s (to_members s k (Left (user_id s p)) @ [(p, Ack ACK_ROOM_LEAVE LEAVE_ROOM_SUCCESS)])
       (s\<lparr>phase_at := (phase_at s)(p := Lobby),
          members := (members s)(k := filter (\<lambda>q. user_id s p \<noteq> user_id s q) (members s k))\<rparr>)"
| leave_refused: "phase_at s p = Chatting k \<Longrightarrow> \<not> in_table k
     \<Longrightarrow> proto_step s [(p, Ack ACK_ROOM_LEAVE ROOM_INVALID_INDEX)] (s\<lparr>phase_at := (phase_at s)(p := Lobby)\<rparr>)"
| chat: "phase_at s p = Chatting k \<Longrightarrow> in_table k \<Longrightarrow> length text = 257
     \<Longrightarrow> proto_step s ((p, Ack ACK_ROOM_CHAT CHAT_ROOM_SUCCESS) # to_members s k (Said (user_id s p) text)) s"
| chat_refused: "phase_at s p = Chatting k \<Longrightarrow> \<not> in_table k
     \<Longrightarrow> proto_step s [(p, Ack ACK_ROOM_CHAT CHAT_ROOM_INVALID_ROOM_NUMBER)] s"

text \<open>Runs, with the messages of all steps in order.\<close>

inductive proto_run :: "protocol \<Rightarrow> (nat \<times> message) list \<Rightarrow> protocol \<Rightarrow> bool" where
  start: "proto_run s [] s"
| more: "proto_run s out t \<Longrightarrow> proto_step t out' t' \<Longrightarrow> proto_run s (out @ out') t'"

definition initial :: protocol where
  "initial = \<lparr>phase_at = (\<lambda>_. Offline), user_id = (\<lambda>_. []), registered = Map.empty, members = (\<lambda>_. []), admitted = (\<lambda>_. 0)\<rparr>"

text \<open>The packet of a message; the member list is cut like every send, to the 16 bits of its size.\<close>

fun encode :: "message \<Rightarrow> cell list" where
  "encode (Ack pid rc) = ack_cells pid (result_code rc)"
| "encode (RoomTable ns) = notify_lobby_cells ns"
| "encode (MemberList ids) = take (room_info_length ids mod 65536) (ack_room_info_cells ENTER_ROOM_SUCCESS ids)"
| "encode (Entered uid) = id_notice NOTIFY_ROOM_INFO uid"
| "encode (Left uid) = id_notice NOTIFY_ROOM_LEAVE uid"
| "encode (Said uid text) = notify_chat_cells (c_str_cells 11 uid) text"

section \<open>What the machine guarantees\<close>

text \<open>Clients that the machine treats as logged in: in the lobby, in a room, or still listed in one.\<close>

definition trusted :: "protocol \<Rightarrow> nat set" where
  "trusted s = {p. phase_at s p \<notin> {Offline, Waiting} \<or> (\<exists>k. p \<in> set (members s k))}"

fun account_answer :: "message \<Rightarrow> bool" where
  "account_answer (Ack pid rc) \<longleftrightarrow> pid \<in> {ACK_CREATE_ACCOUNT, ACK_LOGIN}"
| "account_answer _ \<longleftrightarrow> False"

abbreviation login_ok :: message where
  "login_ok \<equiv> Ack ACK_LOGIN LOGIN_SUCCESS"

abbreviation enter_ok :: message where
  "enter_ok \<equiv> Ack ACK_ROOM_ENTER ENTER_ROOM_SUCCESS"

inductive_cases proto_stepE: "proto_step s out s'"

lemma member_trusted: "(q, m) \<in> set (to_members s k m') \<Longrightarrow> q \<in> trusted s"
  by (auto simp: to_members_def trusted_def)

lemma step_trusted:
  assumes "proto_step s out s'"
  shows "trusted s' \<subseteq> trusted s \<union> {p. (p, login_ok) \<in> set out}"
    and "(q, m) \<in> set out \<Longrightarrow> \<not> account_answer m \<Longrightarrow> q \<in> trusted s"
  using assms
  by (induction rule: proto_step.induct)
    (auto simp: trusted_def to_members_def split: if_splits)

text \<open>Clients that are listed in a room, and the messages only they get.\<close>

definition inside :: "protocol \<Rightarrow> nat set" where
  "inside s = {p. \<exists>k. p \<in> set (members s k)}"

fun room_notice :: "message \<Rightarrow> bool" where
  "room_notice (Entered uid) \<longleftrightarrow> True"
| "room_notice (Left uid) \<longleftrightarrow> True"
| "room_notice (Said uid text) \<longleftrightarrow> True"
| "room_notice _ \<longleftrightarrow> False"

lemma step_inside:
  assumes "proto_step s out s'"
  shows "inside s' \<subseteq> inside s \<union> {p. (p, enter_ok) \<in> set out}"
    and "(q, m) \<in> set out \<Longrightarrow> room_notice m \<Longrightarrow> q \<in> inside s"
  using assms
  by (induction rule: proto_step.induct) (auto simp: inside_def to_members_def split: if_splits)

text \<open>
  A right that is granted by a message: nobody has it at first, a step gives it only with that message, and guarded
  messages are sent only to clients that have it. Then in every run the grant comes first.
\<close>

locale authorization =
  fixes auth :: "protocol \<Rightarrow> nat set"
    and grant :: message
    and guarded :: "message \<Rightarrow> bool"
  assumes nobody: "auth initial = {}"
    and granted: "proto_step s out s' \<Longrightarrow> auth s' \<subseteq> auth s \<union> {p. (p, grant) \<in> set out}"
    and guards: "proto_step s out s' \<Longrightarrow> (q, m) \<in> set out \<Longrightarrow> guarded m \<Longrightarrow> q \<in> auth s"
begin

lemma run_auth:
  assumes "proto_run s tr t" and "s = initial"
  shows "auth t \<subseteq> {p. (p, grant) \<in> set tr} \<and> (\<forall>tr1 q m tr2. tr = tr1 @ (q, m) # tr2
    \<longrightarrow> guarded m \<longrightarrow> (q, grant) \<in> set tr1)"
  using assms
proof (induction rule: proto_run.induct)
  case (start s)
  then show ?case by (simp add: nobody)
next
  case (more s tr t out t')
  note IH = more.IH[OF more.prems]
  have "(q, grant) \<in> set tr1" if eq: "tr @ out = tr1 @ (q, m) # tr2" and m: "guarded m" for tr1 q m tr2
  proof (cases "length tr1 < length tr")
    case True
    then obtain us where "tr = tr1 @ (q, m) # us"
      using eq by (auto simp: append_eq_append_conv2 append_eq_Cons_conv)
    then show ?thesis
      using IH m by blast
  next
    case False
    then obtain us where us: "tr1 = tr @ us" "out = us @ (q, m) # tr2"
      using eq by (auto simp: append_eq_append_conv2 append_eq_Cons_conv)
    then have "q \<in> auth t"
      using guards[OF more.hyps(2), of q m] m by simp
    then show ?thesis
      using IH us(1) by auto
  qed
  then show ?case
    using IH granted[OF more.hyps(2)] by auto
qed

lemma granted_before:
  "proto_run initial tr t \<Longrightarrow> tr = tr1 @ (q, m) # tr2 \<Longrightarrow> guarded m \<Longrightarrow> (q, grant) \<in> set tr1"
  using run_auth by blast

end

interpretation login: authorization trusted login_ok "\<lambda>m. \<not> account_answer m"
proof unfold_locales
  show "trusted initial = {}"
    by (simp add: trusted_def initial_def)
qed (use step_trusted in \<open>blast+\<close>)

text \<open>The packets with the ids of the three notices; only the notices of a room have them.\<close>

definition packet_field :: "cell list \<Rightarrow> cell list" where
  "packet_field x = take 2 (drop 2 x)"

definition notices :: "PACKET_ID set" where
  "notices = {NOTIFY_ROOM_INFO, NOTIFY_ROOM_LEAVE, NOTIFY_ROOM_CHAT}"

definition notice_packet :: "cell list \<Rightarrow> bool" where
  "notice_packet x \<longleftrightarrow> (\<exists>pid \<in> notices. packet_field x = map Some (le16 (pid16 pid)))"

lemma packet_field_header: "packet_field (header_cells n pid t @ xs) = map Some (le16 (pid16 pid))"
  by (simp add: packet_field_def header_cells_def le16_def)

lemma le16_pid: "le16 (pid16 p) = le16 (pid16 q) \<longleftrightarrow> p = q"
  by (metis of_le16_le16_Nil pid16_inj)

lemma packet_field_encode:
  "packet_field (encode (Ack pid rc)) = map Some (le16 (pid16 pid))"
  "packet_field (encode (RoomTable ns)) = map Some (le16 (pid16 NOTIFY_LOBBY_INFO))"
  by (simp_all add: ack_cells_def notify_lobby_cells_def packet_field_header)

lemma notice_packet_message:
  assumes "notice_packet (encode m)"
  shows "room_notice m \<or> (\<exists>pid \<in> notices. \<exists>rc. m = Ack pid rc)"
proof -
  obtain pid where pid: "pid \<in> notices" "packet_field (encode m) = map Some (le16 (pid16 pid))"
    using assms by (auto simp: notice_packet_def)
  show ?thesis
  proof (cases m)
    case (Ack q rc)
    then have "le16 (pid16 q) = le16 (pid16 pid)"
      using pid(2) by (simp add: packet_field_encode del: encode.simps)
    then show ?thesis
      using Ack pid(1) by (simp add: le16_pid)
  next
    case (RoomTable ns)
    then have "le16 (pid16 NOTIFY_LOBBY_INFO) = le16 (pid16 pid)"
      using pid(2) by (simp add: packet_field_encode del: encode.simps)
    then show ?thesis
      using pid(1) by (auto simp: notices_def le16_pid)
  next
    case (MemberList ids)
    let ?xs = "ack_room_info_cells ENTER_ROOM_SUCCESS ids" and ?n = "room_info_length ids mod 65536"
    have "length (packet_field (encode m)) = 2"
      unfolding pid(2) by simp
    then have "4 \<le> ?n"
      by (simp add: packet_field_def MemberList)
    then have "packet_field (encode m) = packet_field ?xs"
      by (simp add: packet_field_def MemberList drop_take min_def)
    then have "le16 (pid16 ACK_ROOM_INFO) = le16 (pid16 pid)"
      using pid(2) by (simp add: ack_room_info_cells_def packet_field_header)
    then show ?thesis
      using pid(1) by (auto simp: notices_def le16_pid)
  qed simp_all
qed

lemma step_no_notice_ack: "proto_step s out s' \<Longrightarrow> (q, Ack pid rc) \<in> set out \<Longrightarrow> pid \<notin> notices"
  by (induction rule: proto_step.induct) (auto simp: to_members_def notices_def)

text \<open>Only what is said has the bytes of a chat notice.\<close>

lemma run_no_notice_ack: "proto_run s tr t \<Longrightarrow> (q, Ack pid rc) \<in> set tr \<Longrightarrow> pid \<notin> notices"
  by (induction rule: proto_run.induct) (auto dest: step_no_notice_ack)

lemma chat_notice:
  assumes "proto_run s tr t" and "(q, m) \<in> set tr" and "packet_field (encode m) = map Some (le16 (pid16 NOTIFY_ROOM_CHAT))"
  shows "\<exists>uid cs. m = Said uid cs"
proof -
  have "notice_packet (encode m)"
    using assms(3) by (auto simp: notice_packet_def notices_def)
  then have "room_notice m"
    using notice_packet_message run_no_notice_ack[OF assms(1)] assms(2) by blast
  moreover have "packet_field (id_notice pid uid) = map Some (le16 (pid16 pid))" for pid uid
    by (simp add: id_notice_def packet_field_header)
  ultimately show ?thesis
    using assms(3) by (cases m) (auto simp: le16_pid)
qed

interpretation entry: authorization inside enter_ok "\<lambda>m. notice_packet (encode m)"
proof unfold_locales
  show "inside initial = {}"
    by (simp add: inside_def initial_def)
next
  fix s out s' q m
  assume "proto_step s out s'" and "(q, m) \<in> set out" and "notice_packet (encode m)"
  then show "q \<in> inside s"
    using notice_packet_message step_no_notice_ack step_inside(2) by blast
qed (use step_inside(1) in blast)

text \<open>Every admission is counted for ever, so the table admits forty times.\<close>

definition entries :: "(nat \<times> message) list \<Rightarrow> nat" where
  "entries tr = length (filter (\<lambda>x. snd x = enter_ok) tr)"

lemma entries_simps [simp]:
  "entries [] = 0" "entries (x # xs) = (if snd x = enter_ok then 1 else 0) + entries xs"
  "entries (xs @ ys) = entries xs + entries ys"
  by (simp_all add: entries_def)

lemma entries_members [simp]: "m \<noteq> enter_ok \<Longrightarrow> entries (to_members s k m) = 0"
  by (simp add: entries_def to_members_def filter_empty_conv)

lemma step_entries:
  assumes "proto_step s out s'" and "\<forall>k. in_table k \<longrightarrow> admitted s k \<le> 4"
  shows "(\<Sum>k \<in> {0..<10}. admitted s' k) = (\<Sum>k \<in> {0..<10}. admitted s k) + entries out"
    and "\<forall>k. in_table k \<longrightarrow> admitted s' k \<le> 4"
proof -
  have upd: "(\<Sum>k \<in> {0..<10}. if k = j then Suc (admitted s j) else admitted s k) = Suc (\<Sum>k \<in> {0..<10}. admitted s k)"
    if "in_table j" for j
    using that by (subst (1 2) sum.remove[of _ j]) (auto simp: in_table_def intro: sum.cong)
  show "(\<Sum>k \<in> {0..<10}. admitted s' k) = (\<Sum>k \<in> {0..<10}. admitted s k) + entries out"
    using assms(1)
    by (cases rule: proto_step.cases) (auto simp: upd)
  show "\<forall>k. in_table k \<longrightarrow> admitted s' k \<le> 4"
    using assms by cases auto
qed

lemma run_entries:
  assumes "proto_run initial tr t"
  shows "entries tr \<le> 40"
proof -
  have "s = initial \<Longrightarrow> entries tr = (\<Sum>k \<in> {0..<10}. admitted t k) \<and> (\<forall>k. in_table k \<longrightarrow> admitted t k \<le> 4)"
    if "proto_run s tr t" for s
    using that
  proof (induction rule: proto_run.induct)
    case (start s)
    then show ?case by (simp add: entries_def initial_def)
  next
    case (more s tr t out t')
    then show ?case
      using step_entries[OF more.hyps(2)] by simp
  qed
  then have e: "entries tr = (\<Sum>k \<in> {0..<10::int}. admitted t k)" and b: "\<forall>k. in_table k \<longrightarrow> admitted t k \<le> 4"
    using assms by blast+
  have "(\<Sum>k \<in> {0..<10::int}. admitted t k) \<le> (\<Sum>k \<in> {0..<10::int}. 4)"
    using b by (intro sum_mono) (simp add: in_table_def)
  then show ?thesis
    using e by simp
qed

text \<open>Every packet that is sent fits the 16 bits of a send.\<close>

lemma step_encode_length:
  assumes "proto_step s out s'" and "(q, m) \<in> set out"
  shows "length (encode m) < 65536"
  using assms
  by cases (auto simp: to_members_def packet_sizes length_notify_lobby_cells lobby_info_length_def notify_chat_cells_def
      length_ack_room_info_cells min_def)

text \<open>Only an admission has the bytes of an admission.\<close>

lemma encode_enter_ok:
  assumes "encode m = encode enter_ok"
  shows "m = enter_ok"
proof -
  have len: "length (encode enter_ok) = 7" and id: "take 2 (drop 2 (encode enter_ok)) = [Some 145, Some 1]"
    by (simp_all add: ack_cells_def header_cells_def packet_sizes le16_def pid16_def)
  have mid: "take 2 (drop 2 (encode m)) = [Some 145, Some 1]"
    unfolding assms by (rule id)
  show ?thesis
  proof (cases m)
    case (Ack pid rc)
    then have "le16 (pid16 pid) = le16 (pid16 ACK_ROOM_ENTER)" and "le16 (result_code rc) = le16 (result_code ENTER_ROOM_SUCCESS)"
      using assms by (simp_all add: ack_cells_def header_cells_def le16_def)
    then have "pid16 pid = pid16 ACK_ROOM_ENTER" and "result_code rc = result_code ENTER_ROOM_SUCCESS"
      by (metis of_le16_le16 append_Nil2)+
    then show ?thesis
      using Ack pid16_inj result_code_inj by blast
  next
    case (MemberList ids)
    let ?xs = "ack_room_info_cells ENTER_ROOM_SUCCESS ids"
    have "7 \<le> room_info_length ids mod 65536"
      using assms len MemberList by (metis encode.simps(3) length_take min.cobounded2)
    then have "take 2 (drop 2 (encode m)) = take 2 (drop 2 ?xs)"
      unfolding MemberList by (simp add: drop_take min_def)
    then show ?thesis
      using mid by (simp add: ack_room_info_cells_def header_cells_def le16_def pid16_def)
  qed (use mid in \<open>auto simp: header_cells_def le16_def pid16_def notify_lobby_cells_def id_notice_def notify_chat_cells_def\<close>)
qed

end
