(* ===== verification/Service.thy ===== *)
theory Service
  imports Protocol Accounts
begin

text \<open>
  The specification of the server as a service to its clients: what a client asks for is read from the bytes it
  sent (\<open>request_of\<close>), and every request has one answer, a function of the machine of \<open>Protocol\<close> and the
  account database (\<open>respond\<close>). The state of the service has the machine, the database and the bytes that wait
  at every client; its events are the bytes that arrive, connections that open and close, and packets that are
  answered or ignored. \<open>Protocol_Refinement\<close> and \<open>Server_Protocol\<close> show that the code implements it.

  Shown here, by induction over the histories of the service: a history is a run of the machine, the waiting
  bytes of a client are the last bytes it sent, a client that is past the login sent the packet it logged in
  with, and what is said in a room is said by the client that sent it.
\<close>

section \<open>Requests and answers\<close>

datatype request =
    Create bytes bytes
  | Login bytes bytes
  | Rooms
  | Enter int
  | Members
  | Leave
  | Chat "cell list"

text \<open>
  The request of a packet with the id \<open>x\<close> and the length \<open>n\<close> that starts at \<open>mem\<close>, for a client in a given
  phase: none, or one whose fields are read from \<open>mem\<close>, wherever the packet ends.
\<close>

definition account_fields :: "nat \<Rightarrow> cell list \<Rightarrow> (bytes \<Rightarrow> bytes \<Rightarrow> request) \<Rightarrow> request option result" where
  "account_fields n mem req =
     (if n = REQ_LOGIN_PACKET_SIZE then
        bindr (read_string off_UserID mem) (\<lambda>uid. bindr (read_string off_UserPW mem) (\<lambda>pw. Inr (Some (req uid pw))))
      else Inr None)"

fun request_of :: "mode \<Rightarrow> u16 \<Rightarrow> nat \<Rightarrow> cell list \<Rightarrow> request option result" where
  "request_of Offline x n mem = Inr None"
| "request_of Waiting x n mem =
     (if x = pid16 REQ_CREATE_ACCOUNT then account_fields n mem Create
      else if x = pid16 REQ_LOGIN then account_fields n mem Login
      else Inr None)"
| "request_of Lobby x n mem =
     (if x = pid16 REQ_LOBBY_INFO then Inr (Some Rooms)
      else if x = pid16 REQ_ROOM_ENTER then bindr (read_u32 off_RoomNumber mem) (\<lambda>w. Inr (Some (Enter (sint w))))
      else Inr None)"
| "request_of (Chatting k) x n mem =
     (if x = pid16 REQ_ROOM_INFO then Inr (Some Members)
      else if x = pid16 REQ_ROOM_LEAVE then Inr (Some Leave)
      else if x = pid16 REQ_ROOM_CHAT then
        (if in_table k then bindr (read_cells off_Message (MAX_CHAT_MSG_SIZE + 1) mem) (\<lambda>cs. Inr (Some (Chat cs)))
         else Inr (Some (Chat [])))
      else Inr None)"

text \<open>
  The answer: what is sent, the next state of the machine and of the database. There is none where the code ends
  in an error: a result set without end, an id that does not fit its field, the member list of a room that
  does not exist.
\<close>

type_synonym 'db answer = "((nat \<times> message) list \<times> protocol \<times> 'db) option"

definition respond_login :: "'db odbc \<Rightarrow> protocol \<Rightarrow> 'db \<Rightarrow> nat \<Rightarrow> bytes \<Rightarrow> bytes \<Rightarrow> 'db answer" where
  "respond_login d s db p uid pw =
     (if registered s uid \<noteq> None then Some ([(p, Ack ACK_LOGIN LOGIN_USER_ALREADY)], s, db)
      else case SelectAccount d uid pw db of
        None \<Rightarrow> None
      | Some (found, db') \<Rightarrow>
          if found then Some ([(p, login_ok)], s\<lparr>phase_at := (phase_at s)(p := Lobby),
            user_id := (user_id s)(p := uid), registered := (registered s)(uid \<mapsto> int p)\<rparr>, db')
          else Some ([(p, Ack ACK_LOGIN LOGIN_USER_INVALID_PW)], s, db'))"

definition respond_enter :: "protocol \<Rightarrow> nat \<Rightarrow> int \<Rightarrow> ((nat \<times> message) list \<times> protocol) option" where
  "respond_enter s p k =
     (let moved = s\<lparr>phase_at := (phase_at s)(p := Chatting k)\<rparr> in
      if \<not> in_table k then Some ([(p, Ack ACK_ROOM_ENTER ROOM_INVALID_INDEX)], moved)
      else if 4 \<le> admitted s k then Some ([(p, Ack ACK_ROOM_ENTER ROOM_FULL)], moved)
      else if 11 < length (user_id s p) then None
      else Some (to_members s k (Entered (user_id s p)) @ [(p, enter_ok)],
        moved\<lparr>members := (members s)(k := members s k @ [p]), admitted := (admitted s)(k := Suc (admitted s k))\<rparr>))"

definition respond_leave :: "protocol \<Rightarrow> nat \<Rightarrow> int \<Rightarrow> ((nat \<times> message) list \<times> protocol) option" where
  "respond_leave s p k =
     (let moved = s\<lparr>phase_at := (phase_at s)(p := Lobby)\<rparr> in
      if \<not> in_table k then Some ([(p, Ack ACK_ROOM_LEAVE ROOM_INVALID_INDEX)], moved)
      else if 11 < length (user_id s p) then None
      else Some (to_members s k (Left (user_id s p)) @ [(p, Ack ACK_ROOM_LEAVE LEAVE_ROOM_SUCCESS)],
        moved\<lparr>members := (members s)(k := filter (\<lambda>q. user_id s p \<noteq> user_id s q) (members s k))\<rparr>))"

definition with_db :: "'db \<Rightarrow> ((nat \<times> message) list \<times> protocol) option \<Rightarrow> 'db answer" where
  "with_db db = map_option (\<lambda>(out, s). (out, s, db))"

fun respond :: "'db odbc \<Rightarrow> protocol \<Rightarrow> 'db \<Rightarrow> nat \<Rightarrow> mode \<Rightarrow> request \<Rightarrow> 'db answer" where
  "respond d s db p Waiting (Create uid pw) = (case CreateAccount d uid pw db of (created, db') \<Rightarrow>
     Some ([(p, Ack ACK_CREATE_ACCOUNT (if created then NONE else CREATE_ACCOUNT_FAIL))], s, db'))"
| "respond d s db p Waiting (Login uid pw) = respond_login d s db p uid pw"
| "respond d s db p Lobby Rooms =
     Some ([(p, Ack ACK_LOBBY_INFO LOBBY_INFO_SUCCESS), (p, RoomTable (map int [0..<10]))], s, db)"
| "respond d s db p Lobby (Enter k) = with_db db (respond_enter s p k)"
| "respond d s db p (Chatting k) Members =
     (if in_table k then Some ([(p, MemberList (map (user_id s) (members s k)))], s, db) else None)"
| "respond d s db p (Chatting k) Leave = with_db db (respond_leave s p k)"
| "respond d s db p (Chatting k) (Chat cs) =
     (if in_table k then Some ((p, Ack ACK_ROOM_CHAT CHAT_ROOM_SUCCESS) # to_members s k (Said (user_id s p) cs), s, db)
      else Some ([(p, Ack ACK_ROOM_CHAT CHAT_ROOM_INVALID_ROOM_NUMBER)], s, db))"
| "respond d s db p _ _ = None"

section \<open>The service\<close>

record 'db service =
  machine :: protocol
  database :: 'db
  waiting :: "nat \<Rightarrow> bytes"

datatype event =
    Received nat bytes
  | Opened nat
  | Closed nat
  | Ignored nat bytes
  | Answered nat request "(nat \<times> message) list"

text \<open>The system packets: a connection opens or closes.\<close>

definition opened :: "nat \<Rightarrow> protocol \<Rightarrow> protocol" where
  "opened p s = s\<lparr>phase_at := (phase_at s)(p := Waiting), user_id := (user_id s)(p := [])\<rparr>"

definition closed :: "nat \<Rightarrow> protocol \<Rightarrow> protocol" where
  "closed p s = s\<lparr>phase_at := (phase_at s)(p := Offline), user_id := (user_id s)(p := []),
     registered := (registered s)(user_id s p := None)\<rparr>"

text \<open>The first packet of a client, and the request that the code reads there, with whatever follows in memory.\<close>

definition asks :: "'db service \<Rightarrow> nat \<Rightarrow> bytes \<Rightarrow> bytes \<Rightarrow> request option \<Rightarrow> bool" where
  "asks v p f rest r \<longleftrightarrow> spec_get (waiting v p) = Some (f, rest)
     \<and> (\<exists>junk. request_of (phase_at (machine v) p) (of_le16 (drop 2 (waiting v p))) (length f)
           (map Some (waiting v p) @ junk) = Inr r)"

text \<open>A request that was read from some memory is read from any longer one.\<close>

lemma cstr_append: "cstr xs = Inr s \<Longrightarrow> cstr (xs @ ys) = Inr s"
  by (induction xs arbitrary: s rule: cstr.induct) (auto simp: bindr_simps split: if_splits)

lemma reads_append:
  "read_string off mem = Inr s \<Longrightarrow> read_string off (mem @ junk) = Inr s"
  "read_cells off k mem = Inr cs \<Longrightarrow> read_cells off k (mem @ junk) = Inr cs"
  "read_u32 off mem = Inr w \<Longrightarrow> read_u32 off (mem @ junk) = Inr w"
  by (auto simp: read_string_def cstr_append read_cells_def block_def read_u32_def bindr_simps split: if_splits)

lemma request_of_append:
  assumes "request_of ph x n mem = Inr r"
  shows "request_of ph x n (mem @ junk) = Inr r"
  using assms by (cases ph) (auto simp: account_fields_def bindr_simps reads_append split: if_splits)

inductive service_step :: "'db odbc \<Rightarrow> 'db service \<Rightarrow> event \<Rightarrow> 'db service \<Rightarrow> bool" for d where
  received: "service_step d v (Received p bs) (v\<lparr>waiting := (waiting v)(p := waiting v p @ bs)\<rparr>)"
| opened: "service_step d v (Opened p) (v\<lparr>machine := opened p (machine v), waiting := (waiting v)(p := [])\<rparr>)"
| closed: "service_step d v (Closed p) (v\<lparr>machine := closed p (machine v), waiting := (waiting v)(p := [])\<rparr>)"
| ignored: "asks v p f rest None
     \<Longrightarrow> service_step d v (Ignored p f) (v\<lparr>waiting := (waiting v)(p := rest)\<rparr>)"
| answered: "asks v p f rest (Some r)
     \<Longrightarrow> respond d (machine v) (database v) p (phase_at (machine v) p) r = Some (out, s, db)
     \<Longrightarrow> service_step d v (Answered p r out) \<lparr>machine = s, database = db, waiting = (waiting v)(p := rest)\<rparr>"

definition initial_service :: "'db \<Rightarrow> 'db service" where
  "initial_service db = \<lparr>machine = initial, database = db, waiting = (\<lambda>_. [])\<rparr>"

inductive service_run :: "'db odbc \<Rightarrow> 'db service \<Rightarrow> event list \<Rightarrow> 'db service \<Rightarrow> bool" for d v0 where
  start: "service_run d v0 [] v0"
| more: "service_run d v0 h v \<Longrightarrow> service_step d v e v' \<Longrightarrow> service_run d v0 (h @ [e]) v'"

inductive_cases service_step_receivedE: "service_step d v (Received p bs) v'"

text \<open>Bytes that are put before the waiting ones of a client do not disturb what arrives.\<close>

definition hold :: "nat \<Rightarrow> bytes \<Rightarrow> 'db service \<Rightarrow> 'db service" where
  "hold p f v = v\<lparr>waiting := (waiting v)(p := f @ waiting v p)\<rparr>"

lemma hold_Nil [simp]: "hold p [] v = v"
  by (simp add: hold_def)

lemma hold_received:
  assumes "service_run d v h v'" and "set h \<subseteq> range (case_prod Received)"
  shows "service_run d (hold p f v) h (hold p f v')"
  using assms
proof (induction rule: service_run.induct)
  case (more h v1 e v2)
  then obtain q bs where e: "e = Received q bs"
    by auto
  have v2: "v2 = v1\<lparr>waiting := (waiting v1)(q := waiting v1 q @ bs)\<rparr>"
    using more.hyps(2) unfolding e by (rule service_step_receivedE)
  have "hold p f v2 = (hold p f v1)\<lparr>waiting := (waiting (hold p f v1))(q := waiting (hold p f v1) q @ bs)\<rparr>"
    by (auto simp: hold_def v2 fun_eq_iff)
  then have "service_step d (hold p f v1) e (hold p f v2)"
    using service_step.received[of d "hold p f v1" q bs] by (simp add: e)
  then show ?case
    using more.IH more.prems by (auto intro: service_run.more)
qed (rule service_run.start)

text \<open>What a history emits, and what a client has sent in it.\<close>

fun emits :: "event \<Rightarrow> (nat \<times> message) list" where
  "emits (Answered p r out) = out"
| "emits _ = []"

definition outputs :: "event list \<Rightarrow> (nat \<times> message) list" where
  "outputs h = concat (map emits h)"

fun arrived :: "nat \<Rightarrow> event \<Rightarrow> bytes" where
  "arrived p (Received q bs) = (if q = p then bs else [])"
| "arrived p _ = []"

definition inputs :: "nat \<Rightarrow> event list \<Rightarrow> bytes" where
  "inputs p h = concat (map (arrived p) h)"

lemma outputs_simps [simp]: "outputs [] = []" "outputs (h @ h') = outputs h @ outputs h'" "outputs [e] = emits e"
  by (simp_all add: outputs_def)

lemma inputs_simps [simp]: "inputs p [] = []" "inputs p (h @ h') = inputs p h @ inputs p h'" "inputs p [e] = arrived p e"
  by (simp_all add: inputs_def)

section \<open>A history of the service is a run of the machine\<close>

lemma chat_length:
  assumes "asks v p f rest (Some (Chat cs))" and "phase_at (machine v) p = Chatting k" and "in_table k"
  shows "length cs = 257"
  using assms by (auto simp: asks_def read_cells_def bindr_simps packet_sizes mem_simps split: if_splits)

lemma respond_step:
  assumes "respond d s db p (phase_at s p) r = Some (out, s', db')"
    and "\<And>cs k. r = Chat cs \<Longrightarrow> phase_at s p = Chatting k \<Longrightarrow> in_table k \<Longrightarrow> length cs = 257"
  shows "proto_step s out s'"
proof (cases "phase_at s p"; cases r)
  fix uid pw assume "phase_at s p = Waiting" and "r = Login uid pw"
  then show ?thesis
    using assms(1) by (auto simp: respond_login_def split: if_splits option.splits intro: proto_step.login_refused proto_step.login)
next
  fix k assume m: "phase_at s p = Lobby" and r: "r = Enter k"
  show ?thesis
    using assms(1) proto_step.enter[OF m, of k] proto_step.enter_refused[OF m, of k]
    by (auto simp: m r respond_enter_def with_db_def Let_def split: if_splits)
next
  fix k assume m: "phase_at s p = Chatting k" and r: "r = Leave"
  show ?thesis
    using assms(1) proto_step.leave[OF m] proto_step.leave_refused[OF m]
    by (auto simp: m r respond_leave_def with_db_def Let_def split: if_splits)
qed (use assms in \<open>auto split: if_splits prod.splits intro: proto_step.intros\<close>)

lemma service_step_proto:
  assumes "service_step d v e v'"
  shows "proto_step (machine v) (emits e) (machine v')"
  using assms
proof cases
  case (answered p f rest r out s db)
  have "proto_step (machine v) out s"
    by (rule respond_step[OF answered(4)]) (use answered(3) chat_length in blast)
  then show ?thesis
    using answered(1,2) by simp
qed (auto simp: opened_def closed_def intro: proto_step.intros)

lemma service_run_proto:
  assumes "service_run d v0 h v"
  shows "proto_run (machine v0) (outputs h) (machine v)"
  using assms
proof (induction rule: service_run.induct)
  case start
  show ?case by (simp add: proto_run.start)
next
  case (more h v e v')
  then show ?case
    using proto_run.more[OF more.IH service_step_proto[OF more.hyps(2)]] by simp
qed

section \<open>Who says it\<close>

text \<open>
  A login packet for an id and a password, and a chat packet for a message: the fields are read from the packet
  and what follows it in memory.
\<close>

definition login_packet :: "bytes \<Rightarrow> bytes \<Rightarrow> bytes \<Rightarrow> bool" where
  "login_packet g uid pw \<longleftrightarrow> frame g \<and> length g = REQ_LOGIN_PACKET_SIZE \<and> of_le16 (drop 2 g) = pid16 REQ_LOGIN
     \<and> (\<exists>junk. read_string off_UserID (map Some g @ junk) = Inr uid \<and> read_string off_UserPW (map Some g @ junk) = Inr pw)"

definition chat_packet :: "bytes \<Rightarrow> cell list \<Rightarrow> bool" where
  "chat_packet f cs \<longleftrightarrow> length f = max PACKET_HEADER_LENGTH (unat (of_le16 f)) \<and> of_le16 (drop 2 f) = pid16 REQ_ROOM_CHAT
     \<and> (\<exists>junk. cs = block off_Message (MAX_CHAT_MSG_SIZE + 1) (map Some f @ junk))"

text \<open>In the bytes that a client sent there is a login packet that the database accepts, and later a chat packet.\<close>

definition signed_in :: "'db odbc \<Rightarrow> bytes \<Rightarrow> bytes \<Rightarrow> bytes \<Rightarrow> bool" where
  "signed_in d w later uid \<longleftrightarrow> (\<exists>a g b pw db db'. w = a @ g @ b @ later \<and> login_packet g uid pw
     \<and> SelectAccount d uid pw db = Some (True, db'))"

definition spoken :: "'db odbc \<Rightarrow> bytes \<Rightarrow> bytes \<Rightarrow> cell list \<Rightarrow> bool" where
  "spoken d w uid cs \<longleftrightarrow> (\<exists>f c. signed_in d w (f @ c) uid \<and> chat_packet f cs)"

lemma signed_in_append: "signed_in d w later uid \<Longrightarrow> signed_in d (w @ bs) (later @ bs) uid"
  unfolding signed_in_def by fastforce

lemma signed_in_drop:
  assumes "signed_in d w later uid"
  shows "signed_in d w (drop n later) uid"
proof -
  obtain a g b pw db db' where "w = a @ g @ b @ later" and "login_packet g uid pw" and "SelectAccount d uid pw db = Some (True, db')"
    using assms unfolding signed_in_def by blast
  then have "w = a @ g @ (b @ take n later) @ drop n later"
    by simp
  then show ?thesis
    unfolding signed_in_def using \<open>login_packet g uid pw\<close> \<open>SelectAccount d uid pw db = Some (True, db')\<close> by blast
qed

lemma spoken_append: "spoken d w uid cs \<Longrightarrow> spoken d (w @ bs) uid cs"
  unfolding spoken_def using signed_in_append by fastforce

text \<open>The packet that was taken, in terms of the bytes that waited.\<close>

lemma spec_getD:
  assumes "spec_get w = Some (f, rest)"
  shows "PACKET_HEADER_LENGTH \<le> length w" and "f = take (unat (of_le16 w)) w" and "rest = drop (length f) w"
    and "length f = unat (of_le16 w)" and "w = f @ rest"
  using assms by (auto simp: spec_get_def Let_def split: if_splits)

lemma of_le16_take: "2 \<le> n \<Longrightarrow> of_le16 (take n w) = of_le16 w"
  by (cases w rule: of_le16.cases) (auto simp: take_Cons' numeral_2_eq_2)

lemma asked_login:
  assumes "asks v p f rest (Some (Login uid pw))"
  shows "login_packet f uid pw" and "phase_at (machine v) p = Waiting"
proof -
  let ?w = "waiting v p"
  obtain junk where g: "spec_get ?w = Some (f, rest)"
    and r: "request_of (phase_at (machine v) p) (of_le16 (drop 2 ?w)) (length f) (map Some ?w @ junk) = Inr (Some (Login uid pw))"
    using assms by (auto simp: asks_def)
  note w = spec_getD[OF g]
  show ph: "phase_at (machine v) p = Waiting"
    using r by (cases "phase_at (machine v) p") (auto simp: bindr_simps split: if_splits)
  then have n: "length f = REQ_LOGIN_PACKET_SIZE" and id: "of_le16 (drop 2 ?w) = pid16 REQ_LOGIN"
    and u: "read_string off_UserID (map Some ?w @ junk) = Inr uid" and pw: "read_string off_UserPW (map Some ?w @ junk) = Inr pw"
    using r by (auto simp: account_fields_def bindr_simps split: if_splits)
  have "of_le16 (drop 2 f) = of_le16 (drop 2 ?w)" and "of_le16 f = of_le16 ?w"
    using n w(2,4) by (simp_all add: drop_take of_le16_take packet_sizes)
  then show "login_packet f uid pw"
    unfolding login_packet_def frame_def using n id u pw w(4)
    by (intro conjI exI[of _ "map Some rest @ junk"]) (simp_all add: w(5)[symmetric] packet_sizes flip: map_append append_assoc)
qed

lemma asked_chat:
  assumes "asks v p f rest (Some (Chat cs))" and "phase_at (machine v) p = Chatting k" and "in_table k"
  shows "\<exists>f' c. waiting v p = f' @ c \<and> chat_packet f' cs"
proof -
  let ?w = "waiting v p"
  obtain junk where g: "spec_get ?w = Some (f, rest)"
    and r: "request_of (Chatting k) (of_le16 (drop 2 ?w)) (length f) (map Some ?w @ junk) = Inr (Some (Chat cs))"
    using assms by (auto simp: asks_def)
  let ?n = "max PACKET_HEADER_LENGTH (unat (of_le16 ?w))"
  have id: "of_le16 (drop 2 ?w) = pid16 REQ_ROOM_CHAT" and cs: "cs = block off_Message (MAX_CHAT_MSG_SIZE + 1) (map Some ?w @ junk)"
    using r assms(3) by (auto simp: bindr_simps read_cells_def split: if_splits)
  note w = spec_getD[OF g]
  have len: "length (take ?n ?w) = ?n"
    using w(1,2,4) by (simp add: max_def)
  have "of_le16 (drop 2 (take ?n ?w)) = pid16 REQ_ROOM_CHAT" and "of_le16 (take ?n ?w) = of_le16 ?w"
    using id by (simp_all add: drop_take of_le16_take packet_sizes)
  then have "chat_packet (take ?n ?w) cs"
    unfolding chat_packet_def using cs len
    by (intro conjI exI[of _ "map Some (drop ?n ?w) @ junk"]) (simp_all flip: map_append append_assoc)
  then show ?thesis
    by (metis append_take_drop_id)
qed

text \<open>The bytes that wait at a client are the last that it sent, and behind a login packet if it is logged in.\<close>

definition authentic :: "'db odbc \<Rightarrow> event list \<Rightarrow> 'db service \<Rightarrow> nat \<Rightarrow> bool" where
  "authentic d h v p \<longleftrightarrow> (\<exists>xs. inputs p h = xs @ waiting v p)
     \<and> (phase_at (machine v) p \<notin> {Offline, Waiting} \<longrightarrow> signed_in d (inputs p h) (waiting v p) (user_id (machine v) p))"

text \<open>An answer moves only the client that asked, and lets in only with an accepted login.\<close>

lemma respond_others:
  assumes "respond d s db p (phase_at s p) r = Some (out, s', db')" and "q \<noteq> p"
  shows "phase_at s' q = phase_at s q" and "user_id s' q = user_id s q"
  using assms
  by (cases "phase_at s p"; cases r; auto simp: respond_login_def respond_enter_def respond_leave_def with_db_def Let_def
      split: if_splits option.splits prod.splits)+

lemma respond_phase:
  assumes "respond d s db p (phase_at s p) r = Some (out, s', db')" and "phase_at s' p \<notin> {Offline, Waiting}"
  shows "phase_at s p \<notin> {Offline, Waiting} \<and> user_id s' p = user_id s p
    \<or> (\<exists>uid pw. r = Login uid pw \<and> user_id s' p = uid \<and> SelectAccount d uid pw db = Some (True, db'))"
  using assms
  by (cases "phase_at s p"; cases r; auto simp: respond_login_def respond_enter_def respond_leave_def with_db_def Let_def
      split: if_splits option.splits prod.splits)

lemma respond_said:
  assumes "respond d s db p (phase_at s p) r = Some (out, s', db')" and "(q, Said uid cs) \<in> set out"
  shows "r = Chat cs \<and> uid = user_id s p \<and> (\<exists>k. phase_at s p = Chatting k \<and> in_table k)"
  using assms
  by (cases "phase_at s p"; cases r; auto simp: respond_login_def respond_enter_def respond_leave_def with_db_def Let_def
      to_members_def split: if_splits option.splits prod.splits)

lemma asks_waiting: "asks v p f rest r \<Longrightarrow> waiting v p = f @ rest"
  using spec_getD unfolding asks_def by blast

lemma authentic_taken:
  assumes "authentic d h v p" and "waiting v p = f @ rest"
  shows "\<exists>xs. inputs p h = xs @ f @ rest"
    and "phase_at (machine v) p \<notin> {Offline, Waiting} \<Longrightarrow> signed_in d (inputs p h) rest (user_id (machine v) p)"
  using assms signed_in_drop[of d "inputs p h" "f @ rest" _ "length f"] by (simp_all add: authentic_def)

lemma authentic_step:
  assumes au: "authentic d h v p" and st: "service_step d v e v'"
  shows "authentic d (h @ [e]) v' p"
  using st
proof cases
  case (received q bs)
  then show ?thesis
    using au signed_in_append[of d "inputs p h" "waiting v p" "user_id (machine v) p" bs]
    by (cases "q = p") (auto simp: authentic_def)
next
  case (opened q)
  then show ?thesis
    using au by (auto simp: authentic_def opened_def)
next
  case (closed q)
  then show ?thesis
    using au by (auto simp: authentic_def closed_def)
next
  case (ignored q f rest)
  have w: "waiting v q = f @ rest"
    by (rule asks_waiting[OF ignored(3)])
  show ?thesis
  proof (cases "q = p")
    case True
    note t = authentic_taken[OF au w[unfolded True]]
    obtain xs where "inputs p h = (xs @ f) @ rest"
      using t(1) by auto
    then show ?thesis
      unfolding authentic_def using t(2) True ignored(1,2) by (intro conjI exI[of _ "xs @ f"]) simp_all
  qed (use au ignored(1,2) in \<open>simp add: authentic_def\<close>)
next
  case (answered q f rest r out s db)
  show ?thesis
  proof (cases "q = p")
    case False
    then show ?thesis
      using au answered respond_others[OF answered(4), of p] by (auto simp: authentic_def)
  next
    case True
    have w: "waiting v p = f @ rest"
      using asks_waiting[OF answered(3)] True by simp
    obtain xs where xs: "inputs p h = xs @ f @ rest"
      using authentic_taken(1)[OF au w] by blast
    have "signed_in d (inputs p h) rest (user_id s p)" if ph: "phase_at s p \<notin> {Offline, Waiting}"
    proof -
      consider "phase_at (machine v) p \<notin> {Offline, Waiting}" "user_id s p = user_id (machine v) p"
        | uid pw where "r = Login uid pw" "user_id s p = uid" "SelectAccount d uid pw (database v) = Some (True, db)"
        using respond_phase[OF answered(4)] ph unfolding True by blast
      then show ?thesis
      proof cases
        case 1
        then show ?thesis
          using authentic_taken(2)[OF au w] by simp
      next
        case (2 uid pw)
        have "login_packet f uid pw"
          using asked_login(1) answered(3) 2(1) by blast
        moreover have "inputs p h = xs @ f @ [] @ rest"
          using xs by simp
        ultimately show ?thesis
          using 2(2,3) unfolding signed_in_def by blast
      qed
    qed
    moreover have "inputs p h = (xs @ f) @ rest"
      using xs by simp
    ultimately show ?thesis
      unfolding authentic_def using answered(1,2) True by (intro conjI exI[of _ "xs @ f"]) simp_all
  qed
qed

lemma service_authentic:
  assumes "service_run d (initial_service db) h v"
  shows "authentic d h v p"
  using assms
proof (induction rule: service_run.induct)
  case start
  then show ?case
    by (simp add: authentic_def initial_service_def initial_def)
next
  case (more h v e v')
  then show ?case
    using authentic_step by blast
qed

text \<open>Agreement: what is said under an id was said by a client that logged in with it.\<close>

lemma said_spoken:
  assumes "service_run d (initial_service db) h v" and "(q, Said uid cs) \<in> set (outputs h)"
  shows "\<exists>p. spoken d (inputs p h) uid cs"
  using assms
proof (induction rule: service_run.induct)
  case start
  then show ?case by simp
next
  case (more h v e v')
  show ?case
  proof (cases "(q, Said uid cs) \<in> set (outputs h)")
    case True
    then show ?thesis
      using more.IH spoken_append by (metis inputs_simps(2))
  next
    case False
    then have said: "(q, Said uid cs) \<in> set (emits e)"
      using more.prems by simp
    show ?thesis
      using more.hyps(2)
    proof cases
      case (answered p f rest r out s db)
      have "(q, Said uid cs) \<in> set out"
        using said answered(1) by simp
      from respond_said[OF answered(4) this] obtain k where r: "r = Chat cs" "uid = user_id (machine v) p"
        and k: "phase_at (machine v) p = Chatting k" "in_table k"
        by blast
      obtain f' c where c: "waiting v p = f' @ c" "chat_packet f' cs"
        using asked_chat[OF answered(3)[unfolded r(1)] k] by blast
      have "signed_in d (inputs p h) (f' @ c) uid"
        using service_authentic[OF more.hyps(1), of p] k(1) c(1) r(2) by (simp add: authentic_def)
      then have "spoken d (inputs p h) uid cs"
        using c(2) unfolding spoken_def by blast
      then show ?thesis
        using spoken_append by (metis inputs_simps(2))
    qed (use said in simp_all)
  qed
qed

end
