(* ===== verification/Protocol_Refinement.thy ===== *)
theory Protocol_Refinement
  imports Packet_Manager Service
begin

text \<open>
  The packet manager implements the service: the application state is mapped to the machine's (\<open>abstraction\<close>) and,
  with the database and the streams of the sessions, to the service's (\<open>service_of\<close>). Every handler reads the
  request of the specification and gives its answer (\<open>serves\<close>), every packet, connect and disconnect is one step of
  the service with the same messages (\<open>performs\<close>), and every turn of the packet thread is a run of it (\<open>simulates\<close>).
\<close>

section \<open>From the code to the machine\<close>

definition mode_of :: "user \<Rightarrow> mode" where
  "mode_of u = (if cleared u then Offline else
     case mState u of Connected \<Rightarrow> Waiting | InLobby \<Rightarrow> Lobby | InRoom \<Rightarrow> Chatting (mRoomIndex u) | _ \<Rightarrow> Offline)"

definition abstraction :: "'db app \<Rightarrow> protocol" where
  "abstraction a = \<lparr>phase_at = (\<lambda>p. mode_of (heap a p)), user_id = (\<lambda>p. mUserID (heap a p)),
     registered = mUserIDDictionary a,
     members = (\<lambda>k. if in_table k then mUserList (room_numbered k (rooms a)) else []),
     admitted = (\<lambda>k. if in_table k then unat (mCurrentUserCount (room_numbered k (rooms a))) else 0)\<rparr>"

definition service_of :: "'db app \<Rightarrow> 'db service" where
  "service_of a = \<lparr>machine = abstraction a, database = accounts a, waiting = (\<lambda>p. stream (heap a p))\<rparr>"

definition wire :: "nat \<times> message \<Rightarrow> u32 \<times> cell list" where
  "wire = (\<lambda>(p, m). (of_nat p, encode m))"

text \<open>The members of every room are sessions of the pool.\<close>

definition members_live :: "'db app \<Rightarrow> bool" where
  "members_live a \<longleftrightarrow> (\<forall>r \<in> set (mRoomList (rooms a)). \<forall>q \<in> set (mUserList r). live a q)"

definition chat_ok :: "'db app \<Rightarrow> bool" where
  "chat_ok a \<longleftrightarrow> app_ok a \<and> shape a = (0, replicate 10 4) \<and> members_live a \<and> mCurrentUserCnt a = 0"

text \<open>From \<open>a\<close> to \<open>a'\<close> the code gives the answer to a request of the client \<open>p\<close>.\<close>

definition answers :: "'db odbc \<Rightarrow> nat \<Rightarrow> request \<Rightarrow> 'db app \<Rightarrow> 'db app \<Rightarrow> bool" where
  "answers d p r a a' \<longleftrightarrow> (\<exists>out. respond d (abstraction a) (accounts a) p (mode_of (heap a p)) r = Some (out, abstraction a', accounts a')
     \<and> sent a' = sent a @ map wire out \<and> (\<forall>(q, m) \<in> set out. live a q)) \<and> members_live a'"

text \<open>A packet with the id \<open>pid\<close> and the length \<open>n\<close> at the offset \<open>ptr\<close>: its request is read there and answered.\<close>

definition serves :: "'db odbc \<Rightarrow> PACKET_ID \<Rightarrow> u16 \<Rightarrow> nat \<Rightarrow> nat \<Rightarrow> 'db app \<Rightarrow> 'db app \<Rightarrow> bool" where
  "serves d pid n ptr p a a' \<longleftrightarrow> (\<exists>r. request_of (mode_of (heap a p)) (pid16 pid) (unat n) (drop ptr (mPacketDataBuffer (heap a p))) = Inr r
     \<and> (case r of None \<Rightarrow> a' = a | Some r \<Rightarrow> answers d p r a a'))"

text \<open>From \<open>a\<close> to \<open>a'\<close> the code does at most one step of the service, and sends its messages.\<close>

definition performs :: "'db odbc \<Rightarrow> 'db app \<Rightarrow> 'db app \<Rightarrow> bool" where
  "performs d a a' \<longleftrightarrow> (service_of a' = service_of a \<and> sent a' = sent a
     \<or> (\<exists>e. service_step d (service_of a) e (service_of a') \<and> sent a' = sent a @ map wire (emits e)
          \<and> (\<forall>(q, m) \<in> set (emits e). live a q) \<and> (\<forall>q. arrived q e = []))) \<and> members_live a'"

named_theorems abs_simps \<open>the abstraction of updated states\<close>

lemma abstraction_upd [abs_simps]:
  "abstraction (a\<lparr>sent := out\<rparr>) = abstraction a" "abstraction (a\<lparr>accounts := db\<rparr>) = abstraction a"
  "abstraction (a\<lparr>mUserIDDictionary := m\<rparr>) = (abstraction a)\<lparr>registered := m\<rparr>"
  by (simp_all add: abstraction_def cong: if_cong)

lemma abstraction_heap [abs_simps]:
  "abstraction (a\<lparr>heap := (heap a)(p := u)\<rparr>) = (abstraction a)\<lparr>
     phase_at := (phase_at (abstraction a))(p := mode_of u), user_id := (user_id (abstraction a))(p := mUserID u)\<rparr>"
  by (simp add: abstraction_def fun_eq_iff cong: if_cong)

lemma abstraction_sel [abs_simps]:
  "phase_at (abstraction a) p = mode_of (heap a p)" "user_id (abstraction a) p = mUserID (heap a p)"
  "registered (abstraction a) = mUserIDDictionary a"
  "in_table k \<Longrightarrow> members (abstraction a) k = mUserList (room_numbered k (rooms a))"
  "in_table k \<Longrightarrow> admitted (abstraction a) k = unat (mCurrentUserCount (room_numbered k (rooms a)))"
  by (simp_all add: abstraction_def)

lemma mode_of_in_state [simp]:
  assumes "in_state u"
  shows "mState u = Connected \<Longrightarrow> mode_of u = Waiting" and "mState u = InLobby \<Longrightarrow> mode_of u = Lobby"
    and "mState u = InRoom \<Longrightarrow> mode_of u = Chatting (mRoomIndex u)"
  using assms by (auto simp: mode_of_def in_state_def cleared_def requests_def)

lemma mode_of_cleared [simp]: "cleared u \<Longrightarrow> mode_of u = Offline"
  by (simp add: mode_of_def)

lemma mode_of_upd [simp]:
  "mode_of (u\<lparr>mPacketDataBuffer := b\<rparr>) = mode_of u" "mode_of (u\<lparr>mPacketDataBufferWPos := w\<rparr>) = mode_of u"
  "mode_of (u\<lparr>mPacketDataBufferRPos := w\<rparr>) = mode_of u" "mode_of (u\<lparr>mUserID := uid\<rparr>) = mode_of u"
  by (simp_all add: mode_of_def cleared_def split: UserState.split)

lemma members_live_upd [simp]:
  "members_live (a\<lparr>sent := out\<rparr>) = members_live a" "members_live (a\<lparr>accounts := db\<rparr>) = members_live a"
  "members_live (a\<lparr>heap := h\<rparr>) = members_live a" "members_live (a\<lparr>mUserIDDictionary := m\<rparr>) = members_live a"
  by (simp_all add: members_live_def)

text \<open>One message, to the client that asked.\<close>

lemma answers_one:
  assumes "respond d (abstraction a) (accounts a) p (mode_of (heap a p)) r = Some ([(p, m)], abstraction a', accounts a')"
    and "live a p" and "members_live a'" and "sent a' = sent a @ [(of_nat p, encode m)]"
  shows "answers d p r a a'"
  unfolding answers_def using assms by (intro conjI exI[of _ "[(p, m)]"]) (auto simp: wire_def)

section \<open>Rooms\<close>

lemma shape_limit:
  assumes "table_shape rm = (0, replicate 10 4)" and "rooms_ok rm" and "in_table k"
  shows "numbered k rm" and "mMaxUserCount (room_numbered k rm) = 4"
proof -
  have b: "mBeginRoomNumber rm = 0" and l: "map mMaxUserCount (mRoomList rm) = replicate 10 4"
    using assms(1) by (auto simp: table_shape_def)
  have len: "length (mRoomList rm) = 10"
    using l by (metis length_map length_replicate)
  then show "numbered k rm"
    using assms b by (simp add: numbered_def rooms_ok_def in_table_def)
  have "map mMaxUserCount (mRoomList rm) ! nat k = 4"
    using assms(3) unfolding l by (subst nth_replicate) (auto simp: in_table_def)
  then show "mMaxUserCount (room_numbered k rm) = 4"
    using len b assms(3) by (auto simp: room_numbered_def in_table_def)
qed

lemma not_in_table:
  assumes "table_shape rm = (0, replicate 10 4)" and "rooms_ok rm" and "\<not> in_table k"
  shows "GetRoomByNumber k rm = Inr None"
proof -
  have b: "mBeginRoomNumber rm = 0" and l: "map mMaxUserCount (mRoomList rm) = replicate 10 4"
    using assms(1) by (auto simp: table_shape_def)
  have "length (mRoomList rm) = 10"
    using l by (metis length_map length_replicate)
  then show ?thesis
    using assms(2,3) b by (auto simp: GetRoomByNumber_def rooms_ok_def in_table_def)
qed

text \<open>The room table with the room \<open>k\<close> replaced.\<close>

definition with_room :: "int \<Rightarrow> room \<Rightarrow> room_manager \<Rightarrow> room_manager" where
  "with_room k r rm = rm\<lparr>mRoomList := (mRoomList rm)[nat (k - mBeginRoomNumber rm) := r]\<rparr>"

lemma numbered_index:
  assumes "numbered k rm"
  shows "int (nat (k - mBeginRoomNumber rm)) = k - mBeginRoomNumber rm" and "nat (k - mBeginRoomNumber rm) < length (mRoomList rm)"
    and "mRoomList rm ! nat (k - mBeginRoomNumber rm) = room_numbered k rm"
  using assms by (auto simp: numbered_def rooms_ok_def room_numbered_def)

lemma RoomManager_EnterUser_table:
  assumes "table_shape rm = (0, replicate 10 4)" and "rooms_ok rm"
  shows "RoomManager_EnterUser h k p rm out =
    (if \<not> in_table k then Inr (ROOM_INVALID_INDEX, rm, out)
     else let r = room_numbered k rm in
       if 4 \<le> unat (mCurrentUserCount r) then Inr (ROOM_FULL, rm, out)
       else if 11 < length (mUserID (h p)) then Inl OutOfBoundsWrite
       else Inr (ENTER_ROOM_SUCCESS,
         with_room k (r\<lparr>mUserList := mUserList r @ [p], mCurrentUserCount := mCurrentUserCount r + 1\<rparr>) rm,
         out @ broadcast h (id_notice NOTIFY_ROOM_INFO (mUserID (h p))) (mUserList r)))"
proof (cases "in_table k")
  case True
  note n = shape_limit[OF assms True] and i = numbered_index[OF shape_limit(1)[OF assms True]]
  have "(4 \<le> uint (mCurrentUserCount (room_numbered k rm))) = (4 \<le> unat (mCurrentUserCount (room_numbered k rm)))"
  proof -
    have "uint (mCurrentUserCount (room_numbered k rm)) = int (unat (mCurrentUserCount (room_numbered k rm)))"
      by simp
    then show ?thesis by linarith
  qed
  then show ?thesis
    using True n i Room_EnterUser_eq[OF room_numbered_send[OF n(1)], of h p out]
    by (simp add: RoomManager_EnterUser_def GetRoomByNumber_numbered[OF n(1)] Let_def with_room_def)
qed (simp add: RoomManager_EnterUser_def not_in_table[OF assms])

lemma RoomManager_LeaveUser_table:
  assumes "table_shape rm = (0, replicate 10 4)" and "rooms_ok rm"
  shows "RoomManager_LeaveUser h k p rm out =
    (if \<not> in_table k then Inr (ROOM_INVALID_INDEX, rm, out)
     else let r = room_numbered k rm in
       if 11 < length (mUserID (h p)) then Inl OutOfBoundsWrite
       else Inr (LEAVE_ROOM_SUCCESS,
         with_room k (r\<lparr>mUserList := filter (\<lambda>q. mUserID (h p) \<noteq> mUserID (h q)) (mUserList r)\<rparr>) rm,
         out @ broadcast h (id_notice NOTIFY_ROOM_LEAVE (mUserID (h p))) (mUserList r)))"
proof (cases "in_table k")
  case True
  note n = shape_limit[OF assms True] and i = numbered_index[OF shape_limit(1)[OF assms True]]
  show ?thesis
    using True n i Room_LeaveUser_eq[OF room_numbered_send[OF n(1)], of h p out]
    by (simp add: RoomManager_LeaveUser_def GetRoomByNumber_numbered[OF n(1)] Let_def with_room_def)
qed (simp add: RoomManager_LeaveUser_def not_in_table[OF assms])

lemma room_numbered_with_room:
  assumes "numbered k rm" and "mBeginRoomNumber rm \<le> n"
  shows "room_numbered n (with_room k r rm) = (if k = n then r else room_numbered n rm)"
  unfolding with_room_def using room_numbered_update[OF numbered_index(1,2)[OF assms(1)] assms(2)] .

lemma abstraction_with_room [abs_simps]:
  assumes "numbered k (rooms a)" and "mBeginRoomNumber (rooms a) = 0" and "in_table k"
  shows "abstraction (a\<lparr>rooms := with_room k r (rooms a)\<rparr>) = (abstraction a)\<lparr>
     members := (members (abstraction a))(k := mUserList r),
     admitted := (admitted (abstraction a))(k := unat (mCurrentUserCount r))\<rparr>"
  using assms room_numbered_with_room[OF assms(1)] by (auto simp: abstraction_def fun_eq_iff in_table_def)

lemma members_live_with_room:
  assumes "members_live a" and "\<forall>q \<in> set (mUserList r). live a q"
  shows "members_live (a\<lparr>rooms := with_room k r (rooms a)\<rparr>)"
  using assms set_update_subset_insert by (fastforce simp: members_live_def with_room_def)

lemma member_live:
  assumes "members_live a" and "numbered k (rooms a)" and "q \<in> set (mUserList (room_numbered k (rooms a)))"
  shows "live a q"
  using assms numbered_index(2,3)[OF assms(2)] unfolding members_live_def by (metis nth_mem)

text \<open>A notice to all members is a message to the members.\<close>

lemma broadcast_wire:
  assumes ok: "app_ok a" and ml: "members_live a" and n: "numbered k (rooms a)" "in_table k" and d: "encode m = data"
  shows "broadcast (heap a) data (mUserList (room_numbered k (rooms a))) = map wire (to_members (abstraction a) k m)"
proof -
  have "mIndex (heap a q) = int q" if "q \<in> set (mUserList (room_numbered k (rooms a)))" for q
    using app_ok_session[OF ok member_live[OF ml n(1) that]] by (simp add: session_ok_def)
  then show ?thesis
    using n(2) d by (simp add: broadcast_def to_members_def wire_def abs_simps)
qed

lemma to_members_live:
  assumes "members_live a" and "numbered k (rooms a)" "in_table k" and "(q, m') \<in> set (to_members (abstraction a) k m)"
  shows "live a q"
  using assms member_live by (auto simp: to_members_def abs_simps)

lemma chat_okD:
  assumes "chat_ok a"
  shows "app_ok a" and "rooms_ok (rooms a)" and "table_shape (rooms a) = (0, replicate 10 4)" and "members_live a"
    and "mBeginRoomNumber (rooms a) = 0" and "mCurrentUserCnt a = 0"
  using assms by (auto simp: chat_ok_def shape_def app_ok_rooms table_shape_def)

section \<open>One handler, one answer\<close>

lemma answers_ack:
  assumes "respond d (abstraction a) (accounts a) p (mode_of (heap a p)) r = Some ([(p, Ack pid rc)], abstraction b, accounts b)"
    and "session_ok p (heap b p)" and "send_ack p (of_nat p) pid rc b = Inr a'" and "sent b = sent a"
    and "members_live b" and "live a p"
  shows "answers d p r a a'"
  using assms by (intro answers_one[of d a p r "Ack pid rc"]) (auto simp: send_ack_eq abs_simps)

lemmas read_at = read_string_drop read_u32_drop

lemma servesI:
  assumes "request_of (mode_of (heap a p)) (pid16 pid) (unat n) (drop ptr (mPacketDataBuffer (heap a p))) = Inr (Some r)"
    and "answers d p r a a'"
  shows "serves d pid n ptr p a a'"
  using assms by (auto simp: serves_def)

lemma CreateAccount_serves:
  assumes ok: "chat_ok a" and lv: "live a p" and m: "mode_of (heap a p) = Waiting"
    and ret: "ProcessCreateAccount d p (of_nat p) n (Some ptr) a = Inr a'"
  shows "serves d REQ_CREATE_ACCOUNT n ptr p a a'"
proof (cases "REQ_CREATE_ACCOUNT_PACKET_SIZE = unat n")
  case False
  then show ?thesis
    using ret m by (auto simp: ProcessCreateAccount_def serves_def account_fields_def packet_sizes pid16_inj)
next
  case True
  let ?mem = "drop ptr (mPacketDataBuffer (heap a p))"
  obtain uid pw created db where f: "read_string off_UserID ?mem = Inr uid" "read_string off_UserPW ?mem = Inr pw"
    and c: "CreateAccount d uid pw (accounts a) = (created, db)"
    and k: "send_ack p (of_nat p) ACK_CREATE_ACCOUNT (if created then NONE else CREATE_ACCOUNT_FAIL) (a\<lparr>accounts := db\<rparr>) = Inr a'"
    using ret True by (auto simp: ProcessCreateAccount_def UserManager_CreateAccount_def read_at bindr_simps
        simp del: if_split split: prod.splits)
  have "answers d p (Create uid pw) a a'"
    using m lv c chat_okD[OF ok] app_ok_session[OF chat_okD(1)[OF ok] lv]
    by (intro answers_ack[OF _ _ k]) (auto simp: abs_simps)
  then show ?thesis
    using m f True by (intro servesI) (auto simp: account_fields_def packet_sizes pid16_inj)
qed

lemma CheckLoginable_effect:
  assumes ok: "app_ok a" and lv: "live a p" and cnt: "mCurrentUserCnt a = 0"
    and ret: "CheckLoginable d (of_nat p) uid pw a = Inr (rc, a1)"
  obtains (already) "a1 = a" and "rc = LOGIN_USER_ALREADY" and "mUserIDDictionary a uid \<noteq> None"
    | (wrong) db where "a1 = a\<lparr>accounts := db\<rparr>" and "rc = LOGIN_USER_INVALID_PW" and "mUserIDDictionary a uid = None"
      and "SelectAccount d uid pw (accounts a) = Some (False, db)"
    | (accepted) db u where "rc = LOGIN_SUCCESS" and "mUserIDDictionary a uid = None"
      and "SelectAccount d uid pw (accounts a) = Some (True, db)"
      and "a1 = a\<lparr>accounts := db, heap := (heap a)(p := u), mUserIDDictionary := (mUserIDDictionary a)(uid \<mapsto> int p)\<rparr>"
      and "session_ok p u" and "mUserID u = uid"
proof -
  have idx: "sint (of_nat p :: u32) = int p"
    using live_index[OF ok lv] by simp
  have room: "mCurrentUserCnt a < mMaxUserCnt a"
    using ok lv cnt by (auto simp: app_ok_def live_def)
  note none = FindUserIndexByID_none[OF ok, of uid]
  consider "a1 = a" "rc = LOGIN_USER_ALREADY" "mUserIDDictionary a uid \<noteq> None"
    | db where "a1 = a\<lparr>accounts := db\<rparr>" "rc = LOGIN_USER_INVALID_PW" "mUserIDDictionary a uid = None"
        "SelectAccount d uid pw (accounts a) = Some (False, db)"
    | (login) db r where "mUserIDDictionary a uid = None" "rc = LOGIN_SUCCESS" "SelectAccount d uid pw (accounts a) = Some (True, db)"
        "AddUser uid (int p) (a\<lparr>accounts := db\<rparr>) = Inr (r, a1)"
    using ret none idx room by (auto simp: CheckLoginable_def Let_def bindr_simps split: if_splits option.splits)
  then show thesis
  proof cases
    case (login db r)
    let ?b = "a\<lparr>accounts := db\<rparr>"
    obtain u where "AddUser uid (int p) ?b = Inr (NONE, ?b\<lparr>heap := (heap ?b)(p := u),
        mUserIDDictionary := (mUserIDDictionary ?b)(uid \<mapsto> int p)\<rparr>)"
      and "mUserID u = uid" and "session_ok p u"
      by (rule AddUser_new[of ?b p uid]) (use ok lv login(1) in auto)
    then show thesis
      using login by (intro accepted[of db u]) auto
  qed (use already wrong in blast)+
qed

lemma Login_answers:
  assumes ok: "chat_ok a" and lv: "live a p" and m: "mode_of (heap a p) = Waiting"
    and l: "CheckLoginable d (of_nat p) uid pw a = Inr (rc, a1)"
    and s: "(if result_code rc = result_code LOGIN_SUCCESS then on_user p (SetLogin uid) a1 else Inr a1) = Inr a2"
    and k: "send_ack p (of_nat p) ACK_LOGIN rc a2 = Inr a'"
  shows "answers d p (Login uid pw) a a'"
proof -
  note ok' = chat_okD[OF ok]
  note refused = answers_ack[OF _ _ k, of d a "Login uid pw"]
  from ok'(1) lv ok'(6) l show ?thesis
  proof (cases rule: CheckLoginable_effect)
    case already
    then have a2: "a2 = a"
      using s by simp
    show ?thesis
      using already m lv ok'(4) app_ok_session[OF ok'(1) lv] unfolding a2
      by (intro refused) (auto simp: abs_simps respond_login_def a2)
  next
    case (wrong db)
    then have a2: "a2 = a\<lparr>accounts := db\<rparr>"
      using s by simp
    show ?thesis
      using wrong m lv ok'(4) app_ok_session[OF ok'(1) lv]
      by (intro refused) (auto simp: abs_simps respond_login_def a2)
  next
    case (accepted db u)
    have h1: "heap a1 p = u" and lv1: "live a1 p"
      using accepted(4) lv by simp_all
    obtain u' where u': "ChangeState InLobby u = Inr u'" "session_ok p u'" "mState u' = InLobby" "in_state u'"
      by (rule session_ChangeState[OF accepted(5), of InLobby]) auto
    let ?u = "u'\<lparr>mUserID := uid\<rparr>"
    have a2: "a2 = a\<lparr>accounts := db, mUserIDDictionary := (mUserIDDictionary a)(uid \<mapsto> int p), heap := (heap a)(p := ?u)\<rparr>"
      using s u'(1) h1 accepted(1,4) by (simp add: on_user_def SetLogin_def)
    have "abstraction a2 = (abstraction a)\<lparr>phase_at := (phase_at (abstraction a))(p := Lobby),
        user_id := (user_id (abstraction a))(p := uid), registered := (mUserIDDictionary a)(uid \<mapsto> int p)\<rparr>"
      using u'(3,4) abstraction_heap[of "a\<lparr>accounts := db, mUserIDDictionary := (mUserIDDictionary a)(uid \<mapsto> int p)\<rparr>" p ?u]
      by (simp add: a2 abs_simps)
    then show ?thesis
      using k u' lv ok'(4) m accepted(1-3)
      by (intro answers_ack[of d a p _ ACK_LOGIN rc a2]) (auto simp: a2 respond_login_def abs_simps)
  qed
qed

lemma Login_serves:
  assumes ok: "chat_ok a" and lv: "live a p" and m: "mode_of (heap a p) = Waiting"
    and ret: "ProcessLogin d p (of_nat p) n (Some ptr) a = Inr a'"
  shows "serves d REQ_LOGIN n ptr p a a'"
proof (cases "REQ_LOGIN_PACKET_SIZE = unat n")
  case False
  then show ?thesis
    using ret m by (auto simp: ProcessLogin_def serves_def account_fields_def pid16_inj)
next
  case True
  let ?mem = "drop ptr (mPacketDataBuffer (heap a p))"
  obtain uid pw rc a1 a2 where f: "read_string off_UserID ?mem = Inr uid" "read_string off_UserPW ?mem = Inr pw"
    and c: "CheckLoginable d (of_nat p) uid pw a = Inr (rc, a1)"
      "(if result_code rc = result_code LOGIN_SUCCESS then on_user p (SetLogin uid) a1 else Inr a1) = Inr a2"
      "send_ack p (of_nat p) ACK_LOGIN rc a2 = Inr a'"
    using ret True by (auto simp: ProcessLogin_def read_at bindr_simps simp del: if_split)
  show ?thesis
    by (rule servesI[OF _ Login_answers[OF ok lv m c]])
      (use m f True in \<open>auto simp: account_fields_def pid16_inj\<close>)
qed

text \<open>Handlers that send data packets.\<close>

lemma GetRoomList_table:
  assumes "chat_ok a"
  shows "GetRoomList (rooms a) = map int [0..<10]"
proof -
  have "map mMaxUserCount (mRoomList (rooms a)) = replicate 10 4"
    using chat_okD(3)[OF assms] by (simp add: table_shape_def)
  then have "length (mRoomList (rooms a)) = 10"
    by (metis length_map length_replicate)
  then show ?thesis
    using GetRoomList_correct[OF chat_okD(2)[OF assms]] chat_okD(5)[OF assms] by simp
qed

lemma LobbyInfo_serves:
  assumes ok: "chat_ok a" and lv: "live a p" and m: "mode_of (heap a p) = Lobby"
    and ret: "ProcessLobbyInfo p (of_nat p) n q a = Inr a'"
  shows "serves d REQ_LOBBY_INFO n ptr p a a'"
proof -
  have s: "session_ok p (heap a p)"
    using app_ok_session[OF chat_okD(1)[OF ok] lv] .
  let ?cs = "notify_lobby_cells (map int [0..<10])"
  have len: "length ?cs = lobby_info_length (map int [0..<10])" and small: "lobby_info_length (map int [0..<10]) < 65536"
    by (simp_all add: length_notify_lobby_cells lobby_info_length_def packet_sizes)
  let ?a = "a\<lparr>sent := sent a @ [(of_nat p, ack_cells ACK_LOBBY_INFO 90)]\<rparr>"
  have "send_to p (of_nat p) (of_nat (lobby_info_length (map int [0..<10]))) ?cs ?a
      = Inr (?a\<lparr>sent := sent ?a @ [(of_nat p, ?cs)]\<rparr>)"
    using send_to_whole[of p ?a ?cs "of_nat p"] s small unfolding len by simp
  then have a': "a' = a\<lparr>sent := sent a @ [(of_nat p, ack_cells ACK_LOBBY_INFO 90), (of_nat p, ?cs)]\<rparr>"
    using ret s by (simp add: ProcessLobbyInfo_def send_ack_eq GetRoomList_table[OF ok] del: upt_Suc)
  have "answers d p Rooms a a'"
    unfolding answers_def
    by (intro conjI exI[of _ "[(p, Ack ACK_LOBBY_INFO LOBBY_INFO_SUCCESS), (p, RoomTable (map int [0..<10]))]"])
      (use m lv chat_okD(4)[OF ok] in \<open>auto simp: a' abs_simps wire_def simp del: upt_Suc\<close>)
  then show ?thesis
    using m by (intro servesI) auto
qed

lemma RoomInfo_serves:
  assumes ok: "chat_ok a" and lv: "live a p" and m: "mode_of (heap a p) = Chatting (mRoomIndex (heap a p))"
    and ret: "ProcessRoomInfo p (of_nat p) n q a = Inr a'"
  shows "serves d REQ_ROOM_INFO n ptr p a a'"
proof -
  let ?k = "mRoomIndex (heap a p)"
  note ok' = chat_okD[OF ok]
  have t: "in_table ?k"
    using ret not_in_table[OF ok'(3,2), of ?k] by (cases "in_table ?k") (auto simp: ProcessRoomInfo_def User_GetRoom_def)
  note n = shape_limit[OF ok'(3,2) t]
  let ?r = "room_numbered ?k (rooms a)"
  let ?ids = "map (\<lambda>q. mUserID (heap a q)) (mUserList ?r)"
  have "send_to p (of_nat p) (of_nat (room_info_length ?ids)) (ack_room_info_cells ENTER_ROOM_SUCCESS ?ids) a = Inr a'"
    using ret User_GetRoom_numbered[OF n(1)] by (simp add: ProcessRoomInfo_def GetRoomMemberList_def Let_def)
  moreover have "unat (ucast (of_nat k :: u32) :: u16) = k mod 65536" for k
    by (simp add: unsigned_of_nat) (simp add: take_bit_eq_mod)
  ultimately have "a' = a\<lparr>sent := sent a @ [(of_nat p, encode (MemberList ?ids))]\<rparr>"
    using app_ok_session[OF ok'(1) lv]
    by (auto simp: send_to_def send_call_def session_ok_def bindr_simps read_cells_def block_def split: if_splits)
  moreover have ids: "map (user_id (abstraction a)) (members (abstraction a) ?k) = ?ids"
    using t by (simp add: abs_simps)
  ultimately have "answers d p Members a a'"
    using lv ok'(4) m t by (intro answers_one[of d a p _ "MemberList ?ids"]) (simp_all add: abs_simps)
  then show ?thesis
    using m by (intro servesI) auto
qed

lemma abstraction_moved:
  assumes "mUserID u = mUserID (heap a p)"
  shows "abstraction (a\<lparr>rooms := rm, sent := out, heap := (heap a)(p := u)\<rparr>) = (abstraction (a\<lparr>rooms := rm\<rparr>))\<lparr>
     phase_at := (phase_at (abstraction a))(p := mode_of u)\<rparr>"
  using assms by (simp add: abstraction_def fun_eq_iff cong: if_cong)

lemma EnterRoom_answers:
  assumes ok: "chat_ok a" and lv: "live a p" and m: "mode_of (heap a p) = Lobby"
    and e: "User_EnterRoom p k a = Inr (rc, a1)" and s: "send_ack p (of_nat p) ACK_ROOM_ENTER rc a1 = Inr a'"
  shows "answers d p (Enter k) a a'"
proof -
  note ok' = chat_okD[OF ok]
  obtain rm' out' where rm: "RoomManager_EnterUser (heap a) k p (rooms a) (sent a) = Inr (rc, rm', out')"
    using e by (auto simp: User_EnterRoom_def bindr_simps)
  obtain u where a1: "a1 = a\<lparr>rooms := rm', sent := out', heap := (heap a)(p := u)\<rparr>"
    and u: "session_ok p u" "mode_of u = Chatting k" "mUserID u = mUserID (heap a p)"
    by (rule User_EnterRoom_ok[OF ok'(1) lv rm]) (use e in auto)
  have a': "a' = a1\<lparr>sent := out' @ [(of_nat p, encode (Ack ACK_ROOM_ENTER rc))]\<rparr>"
    using s u(1) by (simp add: send_ack_eq a1)
  have same: "abstraction a' = abstraction a1" "accounts a' = accounts a"
    unfolding a' by (simp_all add: abs_simps) (simp add: a1)
  have abs1: "abstraction a1 = (abstraction (a\<lparr>rooms := rm'\<rparr>))\<lparr>phase_at := (phase_at (abstraction a))(p := Chatting k)\<rparr>"
    unfolding a1 abstraction_moved[OF u(3)] u(2) ..
  note enter = RoomManager_EnterUser_table[OF ok'(3,2), of "heap a" k p "sent a"]
  consider (refused) "rm' = rooms a" "out' = sent a" "in_table k \<and> 4 \<le> admitted (abstraction a) k \<and> rc = ROOM_FULL
      \<or> \<not> in_table k \<and> rc = ROOM_INVALID_INDEX"
    | (entered) "in_table k" "admitted (abstraction a) k < 4" "length (mUserID (heap a p)) \<le> 11"
    using rm enter by (auto simp: Let_def abs_simps split: if_splits)
  then show ?thesis
  proof cases
    case refused
    have "abstraction a1 = (abstraction a)\<lparr>phase_at := (phase_at (abstraction a))(p := Chatting k)\<rparr>"
      using abs1 refused(1) by simp
    then have "respond d (abstraction a) (accounts a) p (mode_of (heap a p)) (Enter k)
        = Some ([(p, Ack ACK_ROOM_ENTER rc)], abstraction a1, accounts a1)"
      using m refused(3) by (auto simp: respond_enter_def with_db_def a1 abs_simps)
    moreover have "members_live a1"
      using ok'(4) refused(1) by (simp add: a1 members_live_def live_def)
    ultimately show ?thesis
      using lv u(1) refused(2) by (intro answers_ack[OF _ _ s]) (auto simp: a1)
  next
    case entered
    note n = shape_limit[OF ok'(3,2) entered(1)]
    let ?r = "room_numbered k (rooms a)"
    let ?r' = "?r\<lparr>mUserList := mUserList ?r @ [p], mCurrentUserCount := mCurrentUserCount ?r + 1\<rparr>"
    let ?m = "Entered (mUserID (heap a p))"
    have c: "unat (mCurrentUserCount ?r) < 4"
      using entered(1,2) by (simp add: abs_simps)
    have rm': "rc = ENTER_ROOM_SUCCESS" "rm' = with_room k ?r' (rooms a)"
      and out: "out' = sent a @ broadcast (heap a) (id_notice NOTIFY_ROOM_INFO (mUserID (heap a p))) (mUserList ?r)"
      using rm enter entered(1,3) c by (auto simp: Let_def)
    have out': "out' = sent a @ map wire (to_members (abstraction a) k ?m)"
      using out broadcast_wire[OF ok'(1,4) n(1) entered(1), of ?m] by simp
    have inc: "unat (mCurrentUserCount ?r + 1) = Suc (unat (mCurrentUserCount ?r))"
    proof (rule unat_inc_u16)
      have "uint (mCurrentUserCount ?r) = int (unat (mCurrentUserCount ?r))"
        by simp
      then show "uint (mCurrentUserCount ?r) < 4"
        using c by linarith
    qed simp
    have "abstraction a1 = (abstraction a)\<lparr>phase_at := (phase_at (abstraction a))(p := Chatting k),
        members := (members (abstraction a))(k := members (abstraction a) k @ [p]),
        admitted := (admitted (abstraction a))(k := Suc (admitted (abstraction a) k))\<rparr>"
      using abs1 abstraction_with_room[OF n(1) ok'(5) entered(1), of ?r'] entered(1) inc
      by (simp add: rm'(2) abs_simps)
    then have st: "respond d (abstraction a) (accounts a) p (mode_of (heap a p)) (Enter k)
        = Some (to_members (abstraction a) k ?m @ [(p, Ack ACK_ROOM_ENTER rc)], abstraction a', accounts a')"
      using m entered same by (simp add: respond_enter_def with_db_def rm'(1) abs_simps)
    have "members_live (a\<lparr>rooms := rm'\<rparr>)"
      unfolding rm'(2) by (rule members_live_with_room[OF ok'(4)]) (use lv member_live[OF ok'(4) n(1)] in auto)
    then have ml: "members_live a'"
      by (simp add: a' a1 members_live_def live_def)
    show ?thesis
      unfolding answers_def
      using st ml out' lv to_members_live[OF ok'(4) n(1) entered(1)]
      by (intro conjI exI[of _ "to_members (abstraction a) k ?m @ [(p, Ack ACK_ROOM_ENTER rc)]"])
        (auto simp: a' wire_def)
  qed
qed

lemma EnterRoom_serves:
  assumes ok: "chat_ok a" and lv: "live a p" and m: "mode_of (heap a p) = Lobby"
    and ret: "ProcessEnterRoom p (of_nat p) n (Some ptr) a = Inr a'"
  shows "serves d REQ_ROOM_ENTER n ptr p a a'"
proof -
  obtain w rc a1 where f: "read_u32 off_RoomNumber (drop ptr (mPacketDataBuffer (heap a p))) = Inr w"
    and c: "User_EnterRoom p (sint w) a = Inr (rc, a1)" "send_ack p (of_nat p) ACK_ROOM_ENTER rc a1 = Inr a'"
    using ret by (auto simp: ProcessEnterRoom_def read_at bindr_simps)
  show ?thesis
    by (rule servesI[OF _ EnterRoom_answers[OF ok lv m c]]) (use m f in \<open>simp add: pid16_inj\<close>)
qed

lemma LeaveRoom_answers:
  assumes ok: "chat_ok a" and lv: "live a p" and m: "mode_of (heap a p) = Chatting (mRoomIndex (heap a p))"
    and ret: "ProcessLeaveRoom p (of_nat p) n q a = Inr a'"
  shows "answers d p Leave a a'"
proof -
  let ?k = "mRoomIndex (heap a p)"
  let ?uid = "mUserID (heap a p)"
  note ok' = chat_okD[OF ok]
  obtain rc a1 where e: "User_LeaveRoom p a = Inr (rc, a1)" and s: "send_ack p (of_nat p) ACK_ROOM_LEAVE rc a1 = Inr a'"
    using ret by (auto simp: ProcessLeaveRoom_def bindr_simps)
  obtain rm' out' where rm: "RoomManager_LeaveUser (heap a) ?k p (rooms a) (sent a) = Inr (rc, rm', out')"
    using e by (auto simp: User_LeaveRoom_def bindr_simps)
  obtain u where a1: "a1 = a\<lparr>rooms := rm', sent := out', heap := (heap a)(p := u)\<rparr>"
    and u: "session_ok p u" "mode_of u = Lobby" "mUserID u = ?uid"
    by (rule User_LeaveRoom_ok[OF ok'(1) lv rm]) (use e in auto)
  have a': "a' = a1\<lparr>sent := out' @ [(of_nat p, encode (Ack ACK_ROOM_LEAVE rc))]\<rparr>"
    using s u(1) by (simp add: send_ack_eq a1)
  have same': "abstraction a' = abstraction a1" "accounts a' = accounts a"
    unfolding a' by (simp_all add: abs_simps) (simp add: a1)
  have abs1: "abstraction a1 = (abstraction (a\<lparr>rooms := rm'\<rparr>))\<lparr>phase_at := (phase_at (abstraction a))(p := Lobby)\<rparr>"
    unfolding a1 abstraction_moved[OF u(3)] u(2) ..
  note leave = RoomManager_LeaveUser_table[OF ok'(3,2), of "heap a" ?k p "sent a"]
  show ?thesis
  proof (cases "in_table ?k")
    case False
    then have r: "rm' = rooms a" "out' = sent a" "rc = ROOM_INVALID_INDEX"
      using rm leave by auto
    have "abstraction a1 = (abstraction a)\<lparr>phase_at := (phase_at (abstraction a))(p := Lobby)\<rparr>"
      using abs1 r(1) by simp
    then have "respond d (abstraction a) (accounts a) p (mode_of (heap a p)) Leave
        = Some ([(p, Ack ACK_ROOM_LEAVE rc)], abstraction a1, accounts a1)"
      using m False r(3) by (simp add: respond_leave_def with_db_def a1 abs_simps)
    moreover have "members_live a1"
      using ok'(4) r(1) by (simp add: a1 members_live_def live_def)
    ultimately show ?thesis
      using lv u(1) r(2) by (intro answers_ack[OF _ _ s]) (auto simp: a1)
  next
    case True
    note n = shape_limit[OF ok'(3,2) True]
    let ?r = "room_numbered ?k (rooms a)"
    let ?r' = "?r\<lparr>mUserList := filter (\<lambda>q. ?uid \<noteq> mUserID (heap a q)) (mUserList ?r)\<rparr>"
    let ?m = "Left ?uid"
    have uid: "length ?uid \<le> 11" and rm': "rc = LEAVE_ROOM_SUCCESS" "rm' = with_room ?k ?r' (rooms a)"
      and out: "out' = sent a @ broadcast (heap a) (id_notice NOTIFY_ROOM_LEAVE ?uid) (mUserList ?r)"
      using rm leave True by (auto simp: Let_def split: if_splits)
    have out': "out' = sent a @ map wire (to_members (abstraction a) ?k ?m)"
      using out broadcast_wire[OF ok'(1,4) n(1) True, of ?m] by simp
    have same: "(admitted (abstraction a))(?k := unat (mCurrentUserCount ?r')) = admitted (abstraction a)"
      using True by (intro fun_upd_idem) (simp add: abs_simps)
    have "mUserList ?r' = filter (\<lambda>q. ?uid \<noteq> user_id (abstraction a) q) (members (abstraction a) ?k)"
      using True by (simp add: abs_simps)
    then have "abstraction a1 = (abstraction a)\<lparr>phase_at := (phase_at (abstraction a))(p := Lobby),
        members := (members (abstraction a))(?k := filter (\<lambda>q. ?uid \<noteq> user_id (abstraction a) q) (members (abstraction a) ?k))\<rparr>"
      using abs1 abstraction_with_room[OF n(1) ok'(5) True, of ?r'] unfolding rm'(2) same by simp
    then have st: "respond d (abstraction a) (accounts a) p (mode_of (heap a p)) Leave
        = Some (to_members (abstraction a) ?k ?m @ [(p, Ack ACK_ROOM_LEAVE rc)], abstraction a', accounts a')"
      using m True uid same' by (simp add: respond_leave_def with_db_def rm'(1) abs_simps)
    have "members_live (a\<lparr>rooms := rm'\<rparr>)"
      unfolding rm'(2) by (rule members_live_with_room[OF ok'(4)]) (use member_live[OF ok'(4) n(1)] in auto)
    then have ml: "members_live a'"
      by (simp add: a' a1 members_live_def live_def)
    show ?thesis
      unfolding answers_def
      using st ml out' lv to_members_live[OF ok'(4) n(1) True]
      by (intro conjI exI[of _ "to_members (abstraction a) ?k ?m @ [(p, Ack ACK_ROOM_LEAVE rc)]"])
        (auto simp: a' wire_def)
  qed
qed

lemma Chat_serves:
  assumes ok: "chat_ok a" and lv: "live a p" and m: "mode_of (heap a p) = Chatting (mRoomIndex (heap a p))"
    and ret: "ProcessRoomChatMessage p (of_nat p) n (Some ptr) a = Inr a'"
  shows "serves d REQ_ROOM_CHAT n ptr p a a'"
proof -
  let ?k = "mRoomIndex (heap a p)" and ?uid = "mUserID (heap a p)"
  let ?mem = "drop ptr (mPacketDataBuffer (heap a p))"
  note ok' = chat_okD[OF ok]
  have s: "session_ok p (heap a p)"
    using app_ok_session[OF ok'(1) lv] .
  show ?thesis
  proof (cases "in_table ?k")
    case False
    then have "User_GetRoom p a = Inr None"
      using not_in_table[OF ok'(3,2)] by (simp add: User_GetRoom_def)
    then have k: "send_ack p (of_nat p) ACK_ROOM_CHAT CHAT_ROOM_INVALID_ROOM_NUMBER a = Inr a'"
      using ret by (simp add: ProcessRoomChatMessage_def)
    have "answers d p (Chat []) a a'"
      by (rule answers_ack[OF _ s k]) (use m False lv ok'(4) in \<open>auto simp: abs_simps\<close>)
    then show ?thesis
      using m False by (intro servesI) (auto simp: pid16_inj)
  next
    case True
    note n = shape_limit[OF ok'(3,2) True]
    let ?r = "room_numbered ?k (rooms a)"
    let ?cs = "block off_Message 257 ?mem"
    have "block (ptr + off_Message) 257 (mPacketDataBuffer (heap a p)) = ?cs"
      by (simp add: block_def add.commute)
    then have len: "off_Message + 257 \<le> length ?mem" and a': "a' = a\<lparr>sent := (sent a @
        [(of_nat p, encode (Ack ACK_ROOM_CHAT CHAT_ROOM_SUCCESS))])
        @ broadcast (heap a) (encode (Said ?uid ?cs)) (mUserList ?r)\<rparr>"
      using ret User_GetRoom_numbered[OF n(1)] NotifyChat_eq[OF room_numbered_send[OF n(1)]]
      by (auto simp: ProcessRoomChatMessage_def send_ack_eq[OF s] bindr_simps split: if_splits)
    let ?out = "(p, Ack ACK_ROOM_CHAT CHAT_ROOM_SUCCESS) # to_members (abstraction a) ?k (Said ?uid ?cs)"
    have "sent a' = sent a @ map wire ?out"
      using broadcast_wire[OF ok'(1,4) n(1) True, of "Said ?uid ?cs"] by (simp add: a' wire_def)
    moreover have "respond d (abstraction a) (accounts a) p (mode_of (heap a p)) (Chat ?cs) = Some (?out, abstraction a', accounts a')"
      using m True by (simp add: a' abs_simps)
    ultimately have "answers d p (Chat ?cs) a a'"
      unfolding answers_def using lv ok'(4) to_members_live[OF ok'(4) n(1) True]
      by (intro conjI exI[of _ ?out]) (auto simp: a')
    then show ?thesis
      using m True len by (intro servesI) (auto simp: pid16_inj read_cells_def packet_sizes)
  qed
qed

text \<open>The function object that a session's state has for a request.\<close>

lemma run_recv_serves:
  assumes ok: "chat_ok a" and lv: "live a p" and c: "\<not> cleared (heap a p)" and pid: "pid \<in> set requests"
    and ret: "run_recv d (allowed (mState (heap a p)) pid) p n (Some ptr) a = Inr a'"
  shows "serves d pid n ptr p a a'"
proof -
  have s: "session_ok p (heap a p)"
    using app_ok_session[OF chat_okD(1)[OF ok] lv] .
  have idx: "word_of_int (GetNetConnIdx (heap a) p) = (of_nat p :: u32)"
    using s by (simp add: GetNetConnIdx_def session_ok_def)
  have st: "in_state (heap a p)"
    using s c by (auto simp: session_ok_def user_ok_def)
  note md = mode_of_in_state[OF st]
  have none: "mState (heap a p) = NoneState \<Longrightarrow> mode_of (heap a p) = Offline"
    by (simp add: mode_of_def)
  have skip: "serves d pid n ptr p a a" if "request_of (mode_of (heap a p)) (pid16 pid) (unat n)
      (drop ptr (mPacketDataBuffer (heap a p))) = Inr None"
    using that by (simp add: serves_def)
  have "mState (heap a p) \<in> live_states"
    using s by (simp add: session_ok_def user_ok_def)
  then show ?thesis
    using ret md none skip pid unfolding live_states_def requests_def
    by (auto simp: allowed.simps idx pid16_inj simp del: of_int_of_nat_eq
        intro: CreateAccount_serves[OF ok lv] Login_serves[OF ok lv] LobbyInfo_serves[OF ok lv] servesI[OF _ LeaveRoom_answers[OF ok lv]]
          EnterRoom_serves[OF ok lv] RoomInfo_serves[OF ok lv] Chat_serves[OF ok lv])
qed

section \<open>One turn of the packet thread\<close>

text \<open>Nobody counts the sessions that are logged in.\<close>

lemma on_user_count: "on_user p f a = Inr a' \<Longrightarrow> mCurrentUserCnt a' = mCurrentUserCnt a"
  by (auto simp: on_user_def bindr_simps)

lemma send_to_count: "send_to p c n data a = Inr a' \<Longrightarrow> mCurrentUserCnt a' = mCurrentUserCnt a"
  by (auto simp: send_to_def bindr_simps)

lemma CheckLoginable_count: "CheckLoginable d c uid pw a = Inr (rc, a') \<Longrightarrow> mCurrentUserCnt a' = mCurrentUserCnt a"
  by (auto simp: CheckLoginable_def AddUser_def Let_def bindr_simps dest!: on_user_count split: if_splits option.splits)

lemma User_EnterRoom_count: "User_EnterRoom p k a = Inr (rc, a') \<Longrightarrow> mCurrentUserCnt a' = mCurrentUserCnt a"
  by (auto simp: User_EnterRoom_def bindr_simps dest!: on_user_count)

lemma User_LeaveRoom_count: "User_LeaveRoom p a = Inr (rc, a') \<Longrightarrow> mCurrentUserCnt a' = mCurrentUserCnt a"
  by (auto simp: User_LeaveRoom_def bindr_simps dest!: on_user_count)

lemma send_ack_count: "send_ack p c pid rc a = Inr a' \<Longrightarrow> mCurrentUserCnt a' = mCurrentUserCnt a"
  by (simp add: send_ack_def send_to_count)

lemma ProcessCreateAccount_count: "ProcessCreateAccount d p c n q a = Inr a' \<Longrightarrow> mCurrentUserCnt a' = mCurrentUserCnt a"
proof (cases "REQ_CREATE_ACCOUNT_PACKET_SIZE = unat n")
  case True
  moreover assume "ProcessCreateAccount d p c n q a = Inr a'"
  ultimately obtain db rc where "send_ack p c ACK_CREATE_ACCOUNT rc (a\<lparr>accounts := db\<rparr>) = Inr a'"
    by (auto simp: ProcessCreateAccount_def UserManager_CreateAccount_def with_ptr_Inr bindr_simps split: prod.splits)
  then show ?thesis
    using send_ack_count by fastforce
qed (simp add: ProcessCreateAccount_def)

lemma ProcessLogin_count: "ProcessLogin d p c n q a = Inr a' \<Longrightarrow> mCurrentUserCnt a' = mCurrentUserCnt a"
  by (auto simp: ProcessLogin_def with_ptr_Inr bindr_simps
      dest!: send_ack_count CheckLoginable_count on_user_count split: if_split_asm)

lemma ProcessRoomChatMessage_count: "ProcessRoomChatMessage p c n q a = Inr a' \<Longrightarrow> mCurrentUserCnt a' = mCurrentUserCnt a"
  by (auto simp: ProcessRoomChatMessage_def with_ptr_Inr bindr_simps dest!: send_ack_count split: option.splits)

lemma run_recv_count:
  assumes "run_recv d f p n q a = Inr a'"
  shows "mCurrentUserCnt a' = mCurrentUserCnt a"
proof -
  have "mCurrentUserCnt a' = mCurrentUserCnt a" if "ProcessLobbyInfo p c n q a = Inr a'" for c
    using that by (auto simp: ProcessLobbyInfo_def Let_def bindr_simps dest!: send_to_count send_ack_count)
  moreover have "mCurrentUserCnt a' = mCurrentUserCnt a" if "ProcessEnterRoom p c n q a = Inr a'" for c
    using that by (auto simp: ProcessEnterRoom_def with_ptr_Inr bindr_simps dest!: User_EnterRoom_count send_ack_count)
  moreover have "mCurrentUserCnt a' = mCurrentUserCnt a" if "ProcessRoomInfo p c n q a = Inr a'" for c
    using that by (auto simp: ProcessRoomInfo_def Let_def bindr_simps dest!: send_to_count split: option.splits)
  moreover have "mCurrentUserCnt a' = mCurrentUserCnt a" if "ProcessLeaveRoom p c n q a = Inr a'" for c
    using that by (auto simp: ProcessLeaveRoom_def bindr_simps dest!: User_LeaveRoom_count send_ack_count)
  ultimately show ?thesis
    using assms ProcessCreateAccount_count ProcessLogin_count ProcessRoomChatMessage_count by (cases f) simp_all
qed

lemma run_packet_fun_count:
  assumes "run_packet_fun d f c n q a = Inr a'"
  shows "mCurrentUserCnt a' = mCurrentUserCnt a"
proof -
  have "mCurrentUserCnt a' = mCurrentUserCnt a" if "PM_ProcessRequest d pid c n q a = Inr a'" for pid
    using that run_recv_count by (fastforce simp: PM_ProcessRequest_def bindr_simps)
  moreover have "mCurrentUserCnt a' = mCurrentUserCnt a" if "PM_ProcessUserConnect c a = Inr a'"
    using that by (auto simp: PM_ProcessUserConnect_def bindr_simps dest!: on_user_count)
  moreover have "mCurrentUserCnt a' = mCurrentUserCnt a" if "ClearConnectionInfo c a = Inr a'"
    using that by (auto simp: ClearConnectionInfo_def DeleteUserInfo_def bindr_simps dest!: on_user_count split: if_splits)
  ultimately show ?thesis
    using assms by (cases f) auto
qed

lemma chat_ok_kept:
  assumes "chat_ok a" and "app_ok a'" and "shape a' = shape a" and "members_live a'" and "mCurrentUserCnt a' = mCurrentUserCnt a"
  shows "chat_ok a'"
  using assms by (simp add: chat_ok_def)

lemma packet_fun_chat_ok:
  assumes ok: "chat_ok a" and lv: "live a p" and ret: "run_packet_fun d f (of_nat p) n q a = Inr a'" and "members_live a'"
  shows "chat_ok a'"
  using assms run_packet_fun_keeps[OF chat_okD(1)[OF ok] lv ret] run_packet_fun_shape[OF chat_okD(1)[OF ok] lv ret]
    run_packet_fun_count[OF ret]
  by (intro chat_ok_kept[OF ok]) (auto simp: keeps_def)

text \<open>Connecting and disconnecting.\<close>

lemma performs_none: "service_of a' = service_of a \<Longrightarrow> sent a' = sent a \<Longrightarrow> members_live a' \<Longrightarrow> performs d a a'"
  by (simp add: performs_def)

lemma performs_silent:
  assumes "service_step d (service_of a) e (service_of a')" and "emits e = []" and "\<forall>q. arrived q e = []"
    and "sent a' = sent a" and "members_live a'"
  shows "performs d a a'"
  unfolding performs_def using assms by auto

lemma Connect_performs:
  assumes ok: "chat_ok a" and lv: "live a p" and ret: "PM_ProcessUserConnect (of_nat p) a = Inr a'"
  shows "performs d a a'"
proof -
  obtain u where a': "a' = a\<lparr>heap := (heap a)(p := u)\<rparr>" and u: "mState u = Connected" "in_state u" "mUserID u = []" "stream u = []"
    by (rule PM_ProcessUserConnect_ok[OF chat_okD(1)[OF ok] lv]) (use ret in auto)
  have "service_of a' = (service_of a)\<lparr>machine := opened p (machine (service_of a)), waiting := (waiting (service_of a))(p := [])\<rparr>"
    using u by (simp add: service_of_def a' abs_simps opened_def fun_eq_iff)
  then have "service_step d (service_of a) (Opened p) (service_of a')"
    using service_step.opened[of d "service_of a" p] by simp
  then show ?thesis
    by (rule performs_silent) (use chat_okD(4)[OF ok] in \<open>simp_all add: a'\<close>)
qed

lemma Disconnect_performs:
  assumes ok: "chat_ok a" and lv: "live a p" and ret: "ClearConnectionInfo (of_nat p) a = Inr a'"
  shows "performs d a a'"
proof (cases "mState (heap a p) = NoneState")
  case True
  then have "a' = a"
    using ret ClearConnectionInfo_none[OF chat_okD(1)[OF ok] lv] by simp
  then show ?thesis
    using chat_okD(4)[OF ok] by (intro performs_none) auto
next
  case False
  obtain u where a': "a' = a\<lparr>mUserIDDictionary := (mUserIDDictionary a)(mUserID (heap a p) := None), heap := (heap a)(p := u)\<rparr>"
    and u: "cleared u" "mUserID u = []" "stream u = []"
    by (rule ClearConnectionInfo_ok[OF chat_okD(1)[OF ok] lv False]) (use ret in auto)
  have "abstraction a' = closed p (abstraction a)"
    using u by (simp add: a' abstraction_def closed_def fun_eq_iff cong: if_cong)
  then have "service_of a' = (service_of a)\<lparr>machine := closed p (machine (service_of a)), waiting := (waiting (service_of a))(p := [])\<rparr>"
    using u by (simp add: service_of_def a' fun_eq_iff)
  then have "service_step d (service_of a) (Closed p) (service_of a')"
    using service_step.closed[of d "service_of a" p] by simp
  then show ?thesis
    by (rule performs_silent) (use chat_okD(4)[OF ok] in \<open>simp_all add: a'\<close>)
qed

text \<open>A packet that the session's state does not admit asks for nothing.\<close>

lemma mode_of_buffer:
  assumes "mState u' = mState u" and "recvFuntionDictionary u' = recvFuntionDictionary u" and "mRoomIndex u' = mRoomIndex u"
  shows "mode_of u' = mode_of u"
  using assms by (simp add: mode_of_def cleared_def split: UserState.split)

lemma abstraction_buffer:
  assumes "mode_of u = mode_of (heap a p)" and "mUserID u = mUserID (heap a p)"
  shows "abstraction (a\<lparr>heap := (heap a)(p := u)\<rparr>) = abstraction a"
  using assms by (simp add: abstraction_def fun_eq_iff cong: if_cong)

lemma unserved_request:
  assumes "session_ok p u" and "\<not> served u x"
  shows "request_of (mode_of u) x n mem = Inr None"
proof (cases "cleared u")
  case False
  then have "in_state u" and "mState u \<in> live_states"
    using assms(1) by (auto simp: session_ok_def user_ok_def)
  then show ?thesis
    using assms(2) False mode_of_in_state[of u] unfolding live_states_def
    by (auto simp: served_def requests_def mode_of_def)
qed simp

text \<open>Taking a packet: the rest of the stream waits, and memory goes on after it.\<close>

lemma taken_service:
  assumes s: "session_ok p (heap a p)" and g: "spec_get (stream (heap a p)) = Some (f, rest)"
    and a1: "a1 = a\<lparr>heap := (heap a)(p := taken (heap a p))\<rparr>"
  shows "service_of a1 = (service_of a)\<lparr>waiting := (waiting (service_of a))(p := rest)\<rparr>"
    and "abstraction a1 = abstraction a" and "mode_of (heap a1 p) = mode_of (heap a p)"
    and "\<exists>junk. drop (unat (mPacketDataBufferRPos (heap a p))) (mPacketDataBuffer (heap a1 p)) = map Some (stream (heap a p)) @ junk"
    and "length f = unat (of_le16 (stream (heap a p)))"
proof -
  note t = taken_ok[OF s]
  show m: "mode_of (heap a1 p) = mode_of (heap a p)"
    using mode_of_buffer[OF t(3,4,5)] by (simp add: a1)
  show abs: "abstraction a1 = abstraction a"
    using abstraction_buffer[of "taken (heap a p)" a p] t(2) m by (simp add: a1)
  show "service_of a1 = (service_of a)\<lparr>waiting := (waiting (service_of a))(p := rest)\<rparr>"
    using t(6) g abs by (simp add: service_of_def fun_eq_iff) (simp add: a1)
  show "\<exists>junk. drop (unat (mPacketDataBufferRPos (heap a p))) (mPacketDataBuffer (heap a1 p)) = map Some (stream (heap a p)) @ junk"
    using packet_at_memory[of "heap a p" "stream (heap a p)" "[]"] s by (simp add: a1 session_ok_def)
  show "length f = unat (of_le16 (stream (heap a p)))"
    using g by (auto simp: spec_get_def Let_def split: if_splits)
qed

lemma ignored_performs:
  assumes s: "session_ok p (heap a p)" and g: "spec_get (stream (heap a p)) = Some (f, rest)"
    and a1: "a1 = a\<lparr>heap := (heap a)(p := taken (heap a p))\<rparr>" and ml: "members_live a"
    and r: "\<And>junk. request_of (mode_of (heap a p)) (of_le16 (drop 2 (stream (heap a p)))) (length f)
      (map Some (stream (heap a p)) @ junk) = Inr None"
  shows "performs d a a1"
proof -
  have "asks (service_of a) p f rest None"
    using g r by (simp add: asks_def service_of_def abs_simps)
  then have "service_step d (service_of a) (Ignored p f) (service_of a1)"
    using service_step.ignored[of "service_of a" p f rest d] taken_service(1)[OF s g a1] by simp
  then show ?thesis
    by (rule performs_silent) (use ml in \<open>simp_all add: a1\<close>)
qed

lemma served_performs:
  assumes s: "session_ok p (heap a p)" and g: "spec_get (stream (heap a p)) = Some (f, rest)"
    and a1: "a1 = a\<lparr>heap := (heap a)(p := taken (heap a p))\<rparr>" and ml: "members_live a"
    and pid: "of_le16 (drop 2 (stream (heap a p))) = pid16 pid"
    and sv: "serves d pid (of_le16 (stream (heap a p))) (unat (mPacketDataBufferRPos (heap a p))) p a1 a'"
    and same: "same_buffers a1 a'"
  shows "performs d a a'"
proof -
  note t = taken_service[OF s g a1]
  obtain junk where mem: "drop (unat (mPacketDataBufferRPos (heap a p))) (mPacketDataBuffer (heap a1 p))
      = map Some (stream (heap a p)) @ junk"
    using t(4) by blast
  obtain r where r: "request_of (mode_of (heap a p)) (pid16 pid) (length f) (map Some (stream (heap a p)) @ junk) = Inr r"
    and a': "case r of None \<Rightarrow> a' = a1 | Some r \<Rightarrow> answers d p r a1 a'"
    using sv unfolding serves_def mem t(3) t(5)[symmetric] by blast
  have asks: "asks (service_of a) p f rest r"
    unfolding asks_def using g r pid by (auto simp: service_of_def abs_simps)
  show ?thesis
  proof (cases r)
    case None
    then have "service_step d (service_of a) (Ignored p f) (service_of a')"
      using asks service_step.ignored[of "service_of a" p f rest d] a' t(1) by simp
    then show ?thesis
      by (rule performs_silent) (use ml a' None in \<open>simp_all add: a1\<close>)
  next
    case (Some q)
    obtain out where out: "respond d (abstraction a) (accounts a) p (mode_of (heap a p)) q = Some (out, abstraction a', accounts a')"
      and sent: "sent a' = sent a @ map wire out" "\<forall>(q, m) \<in> set out. live a q" and ml': "members_live a'"
      using a' Some t(2,3) by (auto simp: answers_def a1)
    have "stream (heap a' q) = stream (heap a1 q)" for q
      using same same_buffer_stream unfolding same_buffers_def by blast
    then have "waiting (service_of a') = (waiting (service_of a))(p := rest)"
      using t(1) by (simp add: service_of_def)
    then have "service_of a' = \<lparr>machine = abstraction a', database = accounts a', waiting = (waiting (service_of a))(p := rest)\<rparr>"
      by (simp add: service_of_def)
    moreover have "service_step d (service_of a) (Answered p q out)
        \<lparr>machine = abstraction a', database = accounts a', waiting = (waiting (service_of a))(p := rest)\<rparr>"
      using asks Some out by (intro service_step.answered) (simp_all add: service_of_def abs_simps)
    ultimately have "service_step d (service_of a) (Answered p q out) (service_of a')"
      by simp
    then show ?thesis
      unfolding performs_def using sent ml' by (intro conjI disjI2 exI[of _ "Answered p q out"]) auto
  qed
qed

text \<open>The two halves of a turn. A packet that the session's state admits reaches the handler of the state.\<close>

lemma request_dispatch:
  assumes ok: "pm_ok s" and lv: "live (mUserManager s) p" and pid: "pid \<in> set requests"
    and x: "ClientIndex x = of_nat p" "PacketId x = pid16 pid" and nc: "\<not> cleared (heap (mUserManager s) p)"
  shows "ProcessRecvPacket d x s = bindr (run_recv d (allowed (mState (heap (mUserManager s) p)) pid) p (DataSize x) (pDataPtr x)
      (mUserManager s)) (\<lambda>a'. Inr (s\<lparr>mUserManager := a'\<rparr>))"
proof -
  obtain fn where fn: "packet_table (packet_id pid) = Some fn" and run: "run_packet_fun d fn = PM_ProcessRequest d pid"
    using request_fun[OF pid] by blast
  have a: "app_ok (mUserManager s)" and t: "mRecvFuntionDictionary s = packet_table"
    using ok by (simp_all add: pm_ok_def)
  have "user_ok (heap (mUserManager s) p)"
    using app_ok_session[OF a lv] by (simp add: session_ok_def)
  then have look: "recv_lookup pid (heap (mUserManager s) p) = Inr (allowed (mState (heap (mUserManager s) p)) pid)"
    using recv_lookup_ok[OF _ pid] nc by simp
  show ?thesis
    using fn x t look run by (simp add: ProcessRecvPacket_def uint_pid16 on_app_def PM_ProcessRequest_eq[OF a lv])
qed

lemma served_run:
  assumes ok: "pm_ok s" and q: "mInComingPacketUserIndex s = of_nat p # is" and lv: "live (mUserManager s) p"
    and u: "u = heap (mUserManager s) p" and a1: "a1 = (mUserManager s)\<lparr>heap := (heap (mUserManager s))(p := taken u)\<rparr>"
    and g: "spec_get (stream u) = Some (f, rest)" and pid: "pid \<in> set requests"
    and id: "of_le16 (drop 2 (stream u)) = pid16 pid" and nc: "\<not> cleared u"
  shows "ProcessPacket_recv d s = bindr (run_recv d (allowed (mState u) pid) p (of_le16 (stream u))
      (Some (unat (mPacketDataBufferRPos u))) a1) (\<lambda>a'. Inr (s\<lparr>mInComingPacketUserIndex := is, mUserManager := a'\<rparr>))"
proof -
  let ?s = "s\<lparr>mInComingPacketUserIndex := is, mUserManager := a1\<rparr>"
  let ?x = "(packet_at u)\<lparr>ClientIndex := of_nat p\<rparr>"
  have ok1: "pm_ok ?s" and lv1: "live (mUserManager ?s) p"
    using taken_pm_ok[OF ok q lv] lv by (simp_all add: a1 u)
  have s: "session_ok p u"
    using ok lv u by (auto simp: pm_ok_def intro: app_ok_session)
  note t = taken_ok[OF s]
  have nc1: "\<not> cleared (heap (mUserManager ?s) p)"
    using t(4) nc by (simp add: cleared_def a1)
  have "ProcessPacket_recv d s = ProcessRecvPacket d ?x ?s"
    using DequePacketData_front[OF ok q lv] request_id_big[OF pid] g id
    by (simp add: ProcessPacket_recv_def front_packet_def packet_at_def a1 u)
  then show ?thesis
    using request_dispatch[OF ok1 lv1 pid _ _ nc1, of ?x d] t(3) id by (simp add: packet_at_def a1)
qed

lemma recv_performs:
  assumes ok: "pm_ok s" and c: "chat_ok (mUserManager s)" and ret: "ProcessPacket_recv d s = Inr s'"
  shows "performs d (mUserManager s) (mUserManager s') \<and> chat_ok (mUserManager s')"
proof (cases "mInComingPacketUserIndex s")
  case Nil
  then have "s' = s"
    using ret DequePacketData_empty[OF Nil] by (simp add: ProcessPacket_recv_def empty_PacketInfo_def)
  then show ?thesis
    using c chat_okD(4)[OF c] by (auto intro: performs_none)
next
  case (Cons i "is")
  obtain p where lv: "live (mUserManager s) p" and i: "i = of_nat p"
    using pm_ok_front[OF ok Cons] .
  note q = Cons[unfolded i]
  let ?a = "mUserManager s"
  let ?u = "heap ?a p"
  let ?a1 = "?a\<lparr>heap := (heap ?a)(p := taken ?u)\<rparr>"
  have u: "session_ok p ?u"
    using app_ok_session[OF chat_okD(1)[OF c] lv] .
  have c1: "chat_ok ?a1"
    using c taken_pm_ok[OF ok q lv] by (simp add: chat_ok_def pm_ok_def shape_def)
  show ?thesis
  proof (cases "spec_get (stream ?u) = None \<or> \<not> served ?u (of_le16 (drop 2 (stream ?u)))")
    case True
    then have a': "mUserManager s' = ?a1"
      using unserved_packet_step[OF ok q lv refl, of d] ret by simp
    have "performs d ?a ?a1"
    proof (cases "spec_get (stream ?u)")
      case None
      then show ?thesis
        using chat_okD(4)[OF c] by (intro performs_none) (simp_all add: taken_def)
    next
      case (Some fr)
      then show ?thesis
        using ignored_performs[OF u _ refl chat_okD(4)[OF c]] unserved_request[OF u] True by (cases fr) auto
    qed
    then show ?thesis
      using a' c1 by simp
  next
    case False
    then obtain f rest where g: "spec_get (stream ?u) = Some (f, rest)"
      by auto
    obtain pid where pid: "pid \<in> set requests" and id: "of_le16 (drop 2 (stream ?u)) = pid16 pid" and nc: "\<not> cleared ?u"
      using False by (auto simp: served_def)
    have lv1: "live ?a1 p"
      using lv by simp
    note t = taken_ok[OF u]
    have nc1: "\<not> cleared (heap ?a1 p)"
      using nc t(4) by (simp add: cleared_def)
    obtain a' where r: "run_recv d (allowed (mState ?u) pid) p (of_le16 (stream ?u)) (Some (unat (mPacketDataBufferRPos ?u))) ?a1 = Inr a'"
      and s': "mUserManager s' = a'"
      using ret unfolding served_run[OF ok q lv refl refl g pid id nc] by (auto simp: bindr_simps)
    then have r': "run_recv d (allowed (mState (heap ?a1 p)) pid) p (of_le16 (stream ?u)) (Some (unat (mPacketDataBufferRPos ?u))) ?a1 = Inr a'"
      using t(3) by simp
    have "performs d ?a a'"
      by (rule served_performs[OF u g refl chat_okD(4)[OF c] id run_recv_serves[OF c1 lv1 nc1 pid r'] run_recv_buffers[OF r]])
    moreover have "chat_ok a'"
      using run_recv_keeps[OF chat_okD(1)[OF c1] lv1 r] run_recv_shape[OF chat_okD(1)[OF c1] r] run_recv_count[OF r]
        \<open>performs d ?a a'\<close>
      by (intro chat_ok_kept[OF c1]) (auto simp: keeps_def performs_def)
    ultimately show ?thesis
      using s' by simp
  qed
qed

lemma system_performs:
  assumes ok: "pm_ok s" and c: "chat_ok (mUserManager s)" and ret: "ProcessPacket_system d s = Inr s'"
  shows "performs d (mUserManager s) (mUserManager s') \<and> chat_ok (mUserManager s')"
proof (cases "mSystemPacketQueue s")
  case Nil
  then have "s' = s"
    using ret by (simp add: ProcessPacket_system_def DequeSystemPacketData_def empty_PacketInfo_def)
  then show ?thesis
    using c chat_okD(4)[OF c] by (auto intro: performs_none)
next
  case (Cons x xs)
  let ?s = "s\<lparr>mSystemPacketQueue := xs\<rparr>"
  obtain p where lv: "live (mUserManager s) p" and i: "ClientIndex x = of_nat p"
    and x: "PacketId x = pid16 SYS_USER_CONNECT \<or> PacketId x = pid16 SYS_USER_DISCONNECT"
    using ok Cons by (auto simp: pm_ok_def system_packet_ok_def known_client_def)
  have t: "mRecvFuntionDictionary ?s = packet_table"
    using ok by (simp add: pm_ok_def)
  have "PacketId x \<noteq> 0"
    using x by (auto simp: pid16_def)
  then have "ProcessRecvPacket d x ?s = Inr s'"
    using ret Cons by (simp add: ProcessPacket_system_def DequeSystemPacketData_def)
  moreover obtain fn where fn: "fn = Fn_ProcessUserConnect \<or> fn = Fn_ProcessUserDisConnect"
    and "packet_table (uint (PacketId x)) = Some fn"
    using x by (auto simp: packet_table_def uint_pid16)
  ultimately obtain a' where a': "run_packet_fun d fn (of_nat p) (DataSize x) (pDataPtr x) (mUserManager s) = Inr a'"
    and s': "mUserManager s' = a'"
    using t i by (auto simp: ProcessRecvPacket_def on_app_def bindr_simps)
  have "performs d (mUserManager s) a'"
    using fn a' Connect_performs[OF c lv] Disconnect_performs[OF c lv] by auto
  moreover have "chat_ok a'"
    by (rule packet_fun_chat_ok[OF c lv a']) (use \<open>performs d (mUserManager s) a'\<close> in \<open>simp add: performs_def\<close>)
  ultimately show ?thesis
    using s' by simp
qed

text \<open>A run of the service that sends the same messages, and in which nothing arrives.\<close>

definition simulates :: "'db odbc \<Rightarrow> 'db app \<Rightarrow> event list \<Rightarrow> 'db app \<Rightarrow> bool" where
  "simulates d a h a' \<longleftrightarrow> service_run d (service_of a) h (service_of a')
     \<and> sent a' = sent a @ map wire (outputs h) \<and> (\<forall>(q, m) \<in> set (outputs h). live a q) \<and> (\<forall>q. inputs q h = [])"

lemma simulates_none: "service_of a' = service_of a \<Longrightarrow> sent a' = sent a \<Longrightarrow> simulates d a [] a'"
  by (simp add: simulates_def service_run.start)

lemma simulates_performs:
  assumes sim: "simulates d a h a1" and pf: "performs d a1 a2" and lv: "live a1 = live a"
  obtains h' where "simulates d a h' a2"
proof -
  consider "service_of a2 = service_of a1" "sent a2 = sent a1"
    | e where "service_step d (service_of a1) e (service_of a2)" "sent a2 = sent a1 @ map wire (emits e)"
        "\<forall>(q, m) \<in> set (emits e). live a1 q" "\<forall>q. arrived q e = []"
    using pf by (auto simp: performs_def)
  then show thesis
  proof cases
    case 1
    then show thesis
      using sim that[of h] by (simp add: simulates_def)
  next
    case (2 e)
    have "service_run d (service_of a) (h @ [e]) (service_of a2)"
      using sim 2(1) by (auto simp: simulates_def intro: service_run.more)
    then show thesis
      using sim 2(2-4) lv by (intro that[of "h @ [e]"]) (auto simp: simulates_def)
  qed
qed

lemma turn_simulates:
  assumes ok: "pm_ok s" and c: "chat_ok (mUserManager s)" and ret: "ProcessPacket d s = Inr s'"
  shows "\<exists>h. simulates d (mUserManager s) h (mUserManager s')" and "chat_ok (mUserManager s')"
proof -
  have "(\<exists>h. simulates d (mUserManager s) h (mUserManager s')) \<and> chat_ok (mUserManager s')"
  proof (cases "mIsRunProcessThread s")
    case True
    then obtain s1 where 1: "ProcessPacket_recv d s = Inr s1" and 2: "ProcessPacket_system d s1 = Inr s'"
      using ret by (auto simp: ProcessPacket_def bindr_simps)
    note r = recv_performs[OF ok c 1]
    note o1 = ProcessPacket_recv_ok[OF ok 1]
    note y = system_performs[OF o1(1) conjunct2[OF r] 2]
    obtain h1 where s1: "simulates d (mUserManager s) h1 (mUserManager s1)"
      using simulates_performs[OF simulates_none[OF refl refl] conjunct1[OF r] refl] by auto
    then show ?thesis
      using simulates_performs[OF s1 conjunct1[OF y] live_same_pool[OF o1(4)]] y by auto
  next
    case False
    then have "s' = s"
      using ret by (simp add: ProcessPacket_def)
    then show ?thesis
      using c simulates_none[of "mUserManager s" "mUserManager s" d] by auto
  qed
  then show "\<exists>h. simulates d (mUserManager s) h (mUserManager s')" and "chat_ok (mUserManager s')"
    by auto
qed

end
