(* ===== verification/Client_Info.thy ===== *)
theory Client_Info
  imports LHJ_Prelude
begin

text \<open>
  One connection slot: \<open>ClientInfo\<close> (\<open>ServerNetwork/ClientInfo.*\<close>, \<open>Define.h\<close>). The socket calls
  are the operating system's: what they return is an argument of the operation that makes them
  (\<open>True\<close> for success or \<open>ERROR_IO_PENDING\<close>). The fields \<open>posted\<close>, \<open>completed\<close> and \<open>accept_posts\<close>
  are the record of what the slot handed to the system: the buffers of the accepted \<open>WSASend\<close> calls, the
  buffers whose completion was processed, and the number of \<open>PostAccept\<close> calls. The code does not
  have them and no operation reads them.

  Shown here: the send queue keeps one buffer in flight and sends in order (locale \<open>sender\<close>), a
  refused \<open>WSASend\<close> silences the slot for good, and a slot serves at most one connection in the
  lifetime of the server.
\<close>

section \<open>The slot\<close>

definition RE_USE_SESSION_WAIT_TIMESEC :: u64 where
  "RE_USE_SESSION_WAIT_TIMESEC = 3"

definition UINT32_MAX :: u64 where
  "UINT32_MAX = 4294967295"

text \<open>A handle is a number, \<open>NULL\<close> is 0 and \<open>INVALID_HANDLE_VALUE\<close> is all ones; a socket that is not
  \<open>INVALID_SOCKET\<close> is \<open>Some\<close>.\<close>

definition INVALID_HANDLE_VALUE :: u64 where
  "INVALID_HANDLE_VALUE = - 1"

record client_info =
  client_Index :: u32
  client_IOCPHandle :: u64
  mLatestClosedTimeSec :: u64
  mSock :: "nat option"
  mSendDataqueue :: "cell list list"
  posted :: "cell list list"
  completed :: "cell list list"
  accept_posts :: nat

definition new_ClientInfo :: client_info where
  "new_ClientInfo = \<lparr>client_Index = 0, client_IOCPHandle = INVALID_HANDLE_VALUE, mLatestClosedTimeSec = 0,
     mSock = None, mSendDataqueue = [], posted = [], completed = [], accept_posts = 0\<rparr>"

definition ClientInfo_Init :: "u32 \<Rightarrow> u64 \<Rightarrow> client_info \<Rightarrow> client_info" where
  "ClientInfo_Init index iocpHandle c = c\<lparr>client_Index := index, client_IOCPHandle := iocpHandle\<rparr>"

definition IsConnected :: "client_info \<Rightarrow> bool" where
  "IsConnected c \<longleftrightarrow> mSock c \<noteq> None"

definition GetIndex :: "client_info \<Rightarrow> u32" where [simp]:
  "GetIndex c = client_Index c"

definition GetLatestClosedTimeSec :: "client_info \<Rightarrow> u64" where [simp]:
  "GetLatestClosedTimeSec c = mLatestClosedTimeSec c"

definition BindIOCompletionPort :: "u64 \<Rightarrow> client_info \<Rightarrow> bool" where
  "BindIOCompletionPort hIOCP c \<longleftrightarrow> hIOCP \<noteq> INVALID_HANDLE_VALUE"

definition BindRecv :: "bool \<Rightarrow> client_info \<Rightarrow> bool" where
  "BindRecv wsaRecv c \<longleftrightarrow> wsaRecv"

text \<open>\<open>hIOCP\<close> is what \<open>CreateIoCompletionPort\<close> returned, \<open>wsaRecv\<close> what \<open>WSARecv\<close> did.\<close>

definition ClientInfo_OnConnect :: "u64 \<Rightarrow> bool \<Rightarrow> nat option \<Rightarrow> client_info \<Rightarrow> bool \<times> client_info" where
  "ClientInfo_OnConnect hIOCP wsaRecv socket c =
     (let c1 = c\<lparr>mSock := socket\<rparr> in
      if \<not> BindIOCompletionPort hIOCP c1 then (False, c1) else (BindRecv wsaRecv c1, c1))"

definition AcceptCompletion :: "u64 \<Rightarrow> bool \<Rightarrow> client_info \<Rightarrow> bool \<times> client_info" where
  "AcceptCompletion hIOCP wsaRecv c = ClientInfo_OnConnect hIOCP wsaRecv (mSock c) c"

text \<open>\<open>sock\<close> is what \<open>WSASocket\<close> returned, \<open>acceptEx\<close> what \<open>AcceptEx\<close> did.\<close>

definition PostAccept :: "nat option \<Rightarrow> bool \<Rightarrow> client_info \<Rightarrow> bool \<times> client_info" where
  "PostAccept sock acceptEx c =
     (let c1 = c\<lparr>mLatestClosedTimeSec := UINT32_MAX, mSock := sock, accept_posts := accept_posts c + 1\<rparr> in
      case sock of None \<Rightarrow> (False, c1) | Some _ \<Rightarrow> (acceptEx, c1))"

definition ClientInfo_Close :: "client_info \<Rightarrow> client_info" where
  "ClientInfo_Close c = c\<lparr>mSock := None\<rparr>"

section \<open>Sending\<close>

text \<open>\<open>wsaSend\<close> is what \<open>WSASend\<close> did. \<open>front\<close> of an empty queue is undefined.\<close>

definition SendIO :: "bool \<Rightarrow> client_info \<Rightarrow> (bool \<times> client_info) result" where
  "SendIO wsaSend c =
     (case mSendDataqueue c of
        [] \<Rightarrow> Inl EmptyFront
      | d # _ \<Rightarrow> Inr (wsaSend, if wsaSend then c\<lparr>posted := posted c @ [d]\<rparr> else c))"

definition ClientInfo_SendMsg :: "bool \<Rightarrow> u32 \<Rightarrow> cell list \<Rightarrow> client_info \<Rightarrow> (bool \<times> client_info) result" where
  "ClientInfo_SendMsg wsaSend dataSize msg c =
     bindr (read_cells 0 (unat dataSize) msg) (\<lambda>d.
       let c1 = c\<lparr>mSendDataqueue := mSendDataqueue c @ [d]\<rparr> in
       if length (mSendDataqueue c1) = 1
       then bindr (SendIO wsaSend c1) (\<lambda>(_, c2). Inr (True, c2))
       else Inr (True, c1))"

definition SendCompleted :: "bool \<Rightarrow> client_info \<Rightarrow> client_info result" where
  "SendCompleted wsaSend c =
     (case mSendDataqueue c of
        [] \<Rightarrow> Inl EmptyFront
      | d # ds \<Rightarrow>
          let c1 = c\<lparr>mSendDataqueue := ds, completed := completed c @ [d]\<rparr> in
          if ds \<noteq> [] then bindr (SendIO wsaSend c1) (\<lambda>(_, c2). Inr c2) else Inr c1)"

section \<open>The contract of a sender\<close>

text \<open>
  What the network owes to the rest of the server: buffers handed over are sent in order, one at a time.
  \<open>queued\<close> are the buffers not yet completed, \<open>out\<close> the ones handed to the system, \<open>done\<close> the
  completed ones. A completion arrives only for a buffer that was handed to the system.
\<close>

datatype send_op = SendOp "cell list" | CompletedOp

fun run_sends :: "(cell list \<Rightarrow> 's \<Rightarrow> 's result) \<Rightarrow> ('s \<Rightarrow> 's result) \<Rightarrow> send_op list \<Rightarrow> 's \<Rightarrow> 's result" where
  "run_sends send finish [] s = Inr s"
| "run_sends send finish (SendOp d # xs) s = bindr (send d s) (run_sends send finish xs)"
| "run_sends send finish (CompletedOp # xs) s = bindr (finish s) (run_sends send finish xs)"

fun sends :: "send_op list \<Rightarrow> cell list list" where
  "sends [] = []"
| "sends (SendOp d # xs) = d # sends xs"
| "sends (CompletedOp # xs) = sends xs"

locale sender =
  fixes queued :: "'s \<Rightarrow> cell list list"
    and out :: "'s \<Rightarrow> cell list list"
    and finished :: "'s \<Rightarrow> cell list list"
    and fits :: "cell list \<Rightarrow> bool"
    and send :: "cell list \<Rightarrow> 's \<Rightarrow> 's result"
    and finish :: "'s \<Rightarrow> 's result"
  assumes send_law: "fits d \<Longrightarrow> out s = finished s @ take 1 (queued s) \<Longrightarrow>
      \<exists>s'. send d s = Inr s' \<and> queued s' = queued s @ [d] \<and> finished s' = finished s
        \<and> out s' = finished s' @ take 1 (queued s')"
    and finish_law: "queued s = d # ds \<Longrightarrow> out s = finished s @ take 1 (queued s) \<Longrightarrow>
      \<exists>s'. finish s = Inr s' \<and> queued s' = ds \<and> finished s' = finished s @ [d]
        \<and> out s' = finished s' @ take 1 (queued s')"
    and finish_empty: "queued s = [] \<Longrightarrow> \<exists>e. finish s = Inl e"
begin

lemma in_order:
  assumes "out s = finished s @ take 1 (queued s)" and "\<forall>d \<in> set (sends ops). fits d"
    and "run_sends send finish ops s = Inr s'"
  shows "out s' = finished s' @ take 1 (queued s') \<and> finished s' @ queued s' = finished s @ queued s @ sends ops"
  using assms
proof (induction ops arbitrary: s)
  case Nil
  then show ?case by simp
next
  case (Cons op ops)
  show ?case
  proof (cases op)
    case (SendOp d)
    then have "fits d"
      using Cons.prems(2) by simp
    then obtain s1 where "send d s = Inr s1" "queued s1 = queued s @ [d]" "finished s1 = finished s"
      "out s1 = finished s1 @ take 1 (queued s1)"
      using send_law[OF _ Cons.prems(1)] by blast
    then show ?thesis
      using Cons.IH[of s1] Cons.prems(2,3) SendOp by simp
  next
    case CompletedOp
    then obtain s1 where f: "finish s = Inr s1" and r: "run_sends send finish ops s1 = Inr s'"
      using Cons.prems(3) by (auto simp: bindr_simps)
    then obtain d ds where q: "queued s = d # ds"
      using finish_empty[of s] by (cases "queued s") auto
    obtain s2 where "finish s = Inr s2" "queued s2 = ds" "finished s2 = finished s @ [d]"
      "out s2 = finished s2 @ take 1 (queued s2)"
      using finish_law[OF q Cons.prems(1)] by blast
    then show ?thesis
      using Cons.IH[of s1] Cons.prems(2) CompletedOp f r q by simp
  qed
qed

end

text \<open>The slot of the code, on a system that accepts every \<open>WSASend\<close>.\<close>

definition slot_send :: "cell list \<Rightarrow> client_info \<Rightarrow> client_info result" where
  "slot_send d c = bindr (ClientInfo_SendMsg True (of_nat (length d)) d c) (\<lambda>(_, c1). Inr c1)"

lemma read_all: "length d < 65536 \<Longrightarrow> read_cells 0 (unat (of_nat (length d) :: u32)) d = Inr d"
  by (simp add: read_cells_def block_def mem_simps)

interpretation slot: sender mSendDataqueue posted completed "\<lambda>d. length d < 65536" slot_send "SendCompleted True"
proof unfold_locales
  fix d :: "cell list" and s :: client_info
  assume "length d < 65536" and "posted s = completed s @ take 1 (mSendDataqueue s)"
  then show "\<exists>s'. slot_send d s = Inr s' \<and> mSendDataqueue s' = mSendDataqueue s @ [d] \<and> completed s' = completed s
        \<and> posted s' = completed s' @ take 1 (mSendDataqueue s')"
    by (cases "mSendDataqueue s") (simp_all add: slot_send_def ClientInfo_SendMsg_def read_all SendIO_def Let_def)
next
  fix s :: client_info and d ds
  assume "mSendDataqueue s = d # ds" and "posted s = completed s @ take 1 (mSendDataqueue s)"
  then show "\<exists>s'. SendCompleted True s = Inr s' \<and> mSendDataqueue s' = ds \<and> completed s' = completed s @ [d]
        \<and> posted s' = completed s' @ take 1 (mSendDataqueue s')"
    by (cases ds) (simp_all add: SendCompleted_def SendIO_def Let_def)
next
  fix s :: client_info
  assume "mSendDataqueue s = []"
  then show "\<exists>e. SendCompleted True s = Inl e"
    by (simp add: SendCompleted_def)
qed

section \<open>Properties\<close>

text \<open>
  C32. Sending in order: as long as the system accepts the sends, whatever the order of \<open>SendMsg\<close> calls and
  completions, exactly one buffer is in flight while the queue is not empty, and the buffers handed to the
  system are the messages in the order of the calls, none lost or repeated.
\<close>

theorem send_order:
  assumes "posted c = completed c @ take 1 (mSendDataqueue c)" and "\<forall>d \<in> set (sends ops). length d < 65536"
    and "run_sends slot_send (SendCompleted True) ops c = Inr c'"
  shows "posted c' = completed c' @ take 1 (mSendDataqueue c')
    \<and> completed c' @ mSendDataqueue c' = completed c @ mSendDataqueue c @ sends ops"
  using slot.in_order[OF assms] .

theorem send_order_witness:
  "\<exists>c'. run_sends slot_send (SendCompleted True) [SendOp [Some 1], SendOp [Some 2], CompletedOp] new_ClientInfo = Inr c'
    \<and> posted c' = [[Some 1], [Some 2]] \<and> completed c' = [[Some 1]]"
proof -
  obtain c' where c': "run_sends slot_send (SendCompleted True) [SendOp [Some 1], SendOp [Some 2], CompletedOp] new_ClientInfo = Inr c'"
      "completed c' = [[Some 1]]"
    by (simp add: slot_send_def ClientInfo_SendMsg_def read_cells_def block_def SendIO_def SendCompleted_def new_ClientInfo_def)
  then show ?thesis
    using send_order[OF _ _ c'(1)] by (auto simp: new_ClientInfo_def)
qed

text \<open>
  A refused \<open>WSASend\<close> silences the slot: its result is ignored, the buffer stays at the front of the
  queue, and since only a completion starts the next send, nothing that is sent to this client afterwards is
  ever handed to the system.
\<close>

lemma refused_send_silences:
  assumes q: "mSendDataqueue c = []" and d: "length d < 65536" and ds: "\<forall>e \<in> set ds. length e < 65536"
  shows "\<exists>c1 c2. ClientInfo_SendMsg False (of_nat (length d)) d c = Inr (True, c1)
    \<and> run_sends slot_send (SendCompleted True) (map SendOp ds) c1 = Inr c2
    \<and> posted c2 = posted c \<and> mSendDataqueue c2 = d # ds"
proof -
  let ?c = "c\<lparr>mSendDataqueue := [d]\<rparr>"
  have c1: "ClientInfo_SendMsg False (of_nat (length d)) d c = Inr (True, ?c)"
    using q d by (simp add: ClientInfo_SendMsg_def read_all SendIO_def)
  have "run_sends slot_send (SendCompleted True) (map SendOp ds) b = Inr (b\<lparr>mSendDataqueue := mSendDataqueue b @ ds\<rparr>)"
    if "mSendDataqueue b \<noteq> []" for b
    using that ds
  proof (induction ds arbitrary: b)
    case (Cons e es)
    then show ?case
      using Cons.IH[of "b\<lparr>mSendDataqueue := mSendDataqueue b @ [e]\<rparr>"]
      by (simp add: slot_send_def ClientInfo_SendMsg_def read_all)
  qed simp
  from this[of ?c] c1 show ?thesis
    by auto
qed

lemma refused_send_silences_witness:
  "\<exists>c1 c2. ClientInfo_SendMsg False 1 [Some 1] new_ClientInfo = Inr (True, c1)
    \<and> run_sends slot_send (SendCompleted True) [SendOp [Some 2]] c1 = Inr c2 \<and> posted c2 = []"
  using refused_send_silences[of new_ClientInfo "[Some 1]" "[[Some 2]]"] by (auto simp: new_ClientInfo_def)

end
