(* ===== verification/Iocp_Server.thy ===== *)
theory Iocp_Server
  imports Client_Info
begin

text \<open>
  The network layer: \<open>IOCPServer\<close> (\<open>ServerNetwork/IOCPServer.*\<close>). A worker thread takes one completion
  at a time; \<open>WokerThread\<close> is what it does with it, and returns the virtual calls it makes
  (\<open>OnConnect\<close>, \<open>OnClose\<close>, \<open>OnReceive\<close>) in order. \<open>AccepterThread\<close> is one pass over the slots.
  Completions, and the results of the system calls, are arguments. A \<open>ClientInfo*\<close> is an index of
  \<open>mClientInfos\<close>; the completion key of the listening socket is 0, the null pointer.

  Shown here: the step relation of the network threads, the invariant of the slots over all reachable
  states, with the bound of one connection per slot, and the worker's reaction to every completion.
\<close>

section \<open>State and set-up\<close>

definition MAX_WORKERTHREAD :: nat where
  "MAX_WORKERTHREAD = 4"

datatype IOOperation = ACCEPT | RECV | SEND

datatype callback = OnConnect u32 | OnClose u32 | OnReceive u32 u32

record iocp_server =
  mClientInfos :: "client_info list"
  mListenSocket :: "nat option"
  mClientCnt :: int
  mIOWorkerThreads :: nat
  mAccepterThread :: bool
  mIOCPHandle :: u64
  mIsWorkerRun :: bool
  mIsAccepterRun :: bool
  mIsSenderRun :: bool
  mSendThread :: bool

definition new_IOCPServer :: iocp_server where
  "new_IOCPServer = \<lparr>mClientInfos = [], mListenSocket = None, mClientCnt = 0, mIOWorkerThreads = 0,
     mAccepterThread = False, mIOCPHandle = INVALID_HANDLE_VALUE, mIsWorkerRun = True, mIsAccepterRun = True,
     mIsSenderRun = False, mSendThread = False\<rparr>"

definition InitSocket :: "int \<Rightarrow> nat option \<Rightarrow> iocp_server \<Rightarrow> bool \<times> iocp_server" where
  "InitSocket startup sock s =
     (if startup \<noteq> 0 then (False, s)
      else let s1 = s\<lparr>mListenSocket := sock\<rparr> in (sock \<noteq> None, s1))"

definition BindandListen :: "int \<Rightarrow> int \<Rightarrow> u64 \<Rightarrow> u64 \<Rightarrow> iocp_server \<Rightarrow> bool \<times> iocp_server" where
  "BindandListen bound listening port assoc s =
     (if bound \<noteq> 0 then (False, s)
      else if listening \<noteq> 0 then (False, s)
      else let s1 = s\<lparr>mIOCPHandle := port\<rparr> in
        if port = 0 then (False, s1)
        else if assoc = 0 then (False, s1)
        else (True, s1))"

definition CreateClient :: "nat \<Rightarrow> iocp_server \<Rightarrow> iocp_server" where
  "CreateClient maxClientCount s = s\<lparr>mClientInfos := mClientInfos s
     @ map (\<lambda>i. ClientInfo_Init (of_nat i) (mIOCPHandle s) new_ClientInfo) [0..<maxClientCount]\<rparr>"

definition CreateWokerThread :: "iocp_server \<Rightarrow> bool \<times> iocp_server" where
  "CreateWokerThread s = (True, s\<lparr>mIOWorkerThreads := mIOWorkerThreads s + MAX_WORKERTHREAD\<rparr>)"

definition CreateAccepterThread :: "iocp_server \<Rightarrow> bool \<times> iocp_server" where
  "CreateAccepterThread s = (True, s\<lparr>mAccepterThread := True\<rparr>)"

definition CreateSendThread :: "iocp_server \<Rightarrow> iocp_server" where
  "CreateSendThread s = s\<lparr>mIsSenderRun := True, mSendThread := True\<rparr>"

definition StartServer :: "nat \<Rightarrow> iocp_server \<Rightarrow> bool \<times> iocp_server" where
  "StartServer maxClientCount s =
     (case CreateWokerThread (CreateClient maxClientCount s) of
        (bRet, s1) \<Rightarrow> if \<not> bRet then (False, s1)
          else (case CreateAccepterThread s1 of (bRet, s2) \<Rightarrow> if \<not> bRet then (False, s2) else (True, s2)))"

text \<open>Closing the port makes the workers' wait fail and closing the socket ends the accepter; both are joined.\<close>

definition DestroyThread :: "iocp_server \<Rightarrow> iocp_server" where
  "DestroyThread s = s\<lparr>mIsWorkerRun := False, mIOWorkerThreads := 0, mIsAccepterRun := False,
     mAccepterThread := False\<rparr>"

section \<open>Clients\<close>

definition GetEmptyClientInfo :: "iocp_server \<Rightarrow> nat option" where
  "GetEmptyClientInfo s = List.find (\<lambda>i. \<not> IsConnected (mClientInfos s ! i)) [0..<length (mClientInfos s)]"

definition GetClientInfo :: "u32 \<Rightarrow> iocp_server \<Rightarrow> nat result" where
  "GetClientInfo sessionIndex s =
     (if unat sessionIndex < length (mClientInfos s) then Inr (unat sessionIndex) else Inl OutOfRange)"

definition on_client :: "nat \<Rightarrow> (client_info \<Rightarrow> 'a \<times> client_info) \<Rightarrow> iocp_server \<Rightarrow> 'a \<times> iocp_server" where
  "on_client i f s = (case f (mClientInfos s ! i) of (x, c) \<Rightarrow> (x, s\<lparr>mClientInfos := (mClientInfos s)[i := c]\<rparr>))"

definition IOCP_SendMsg :: "bool \<Rightarrow> u32 \<Rightarrow> u32 \<Rightarrow> cell list \<Rightarrow> iocp_server \<Rightarrow> (bool \<times> iocp_server) result" where
  "IOCP_SendMsg wsaSend sessionIndex dataSize data s =
     bindr (GetClientInfo sessionIndex s) (\<lambda>i.
     bindr (ClientInfo_SendMsg wsaSend dataSize data (mClientInfos s ! i)) (\<lambda>(b, c).
       Inr (b, s\<lparr>mClientInfos := (mClientInfos s)[i := c]\<rparr>)))"

definition CloseSocket :: "nat \<Rightarrow> iocp_server \<Rightarrow> callback list \<times> iocp_server" where
  "CloseSocket i s =
     (let clientIndex = GetIndex (mClientInfos s ! i) in
      ([OnClose clientIndex], s\<lparr>mClientInfos := (mClientInfos s)[i := ClientInfo_Close (mClientInfos s ! i)]\<rparr>))"

section \<open>The worker threads\<close>

record completion =
  bSuccess :: bool
  dwIoSize :: u32
  pClientInfo :: "nat option"
  lpOverlapped :: "(IOOperation \<times> u32) option"

text \<open>The results of the calls the worker may make: \<open>CreateIoCompletionPort\<close>, \<open>WSARecv\<close>, \<open>WSASend\<close>.
  What the \<open>BindRecv\<close> after a receive answers is ignored, and it changes no field of the slot.\<close>

record net_results =
  hIOCP :: u64
  wsaRecv :: bool
  wsaSend :: bool

definition WokerThread :: "net_results \<Rightarrow> completion \<Rightarrow> iocp_server \<Rightarrow> (callback list \<times> iocp_server) result" where
  "WokerThread n e s =
     (if \<not> mIsWorkerRun s then Inr ([], s)
      else if bSuccess e \<and> dwIoSize e = 0 \<and> lpOverlapped e = None then Inr ([], s\<lparr>mIsWorkerRun := False\<rparr>)
      else case lpOverlapped e of
        None \<Rightarrow> Inr ([], s)
      | Some (op, sessionIndex) \<Rightarrow>
          if \<not> bSuccess e \<or> (dwIoSize e = 0 \<and> op \<noteq> ACCEPT) then
            (case pClientInfo e of None \<Rightarrow> Inl NullDeref | Some i \<Rightarrow> Inr (CloseSocket i s))
          else (case op of
            ACCEPT \<Rightarrow>
              bindr (GetClientInfo sessionIndex s) (\<lambda>i.
                case on_client i (AcceptCompletion (hIOCP n) (wsaRecv n)) s of (accepted, s1) \<Rightarrow>
                  if accepted
                  then Inr ([OnConnect (GetIndex (mClientInfos s1 ! i))], s1\<lparr>mClientCnt := mClientCnt s1 + 1\<rparr>)
                  else Inr (CloseSocket i s1))
          | RECV \<Rightarrow>
              (case pClientInfo e of
                 None \<Rightarrow> Inl NullDeref
               | Some i \<Rightarrow> Inr ([OnReceive (GetIndex (mClientInfos s ! i)) (dwIoSize e)], s))
          | SEND \<Rightarrow>
              (case pClientInfo e of
                 None \<Rightarrow> Inl NullDeref
               | Some i \<Rightarrow>
                   bindr (SendCompleted (wsaSend n) (mClientInfos s ! i)) (\<lambda>c.
                     Inr ([], s\<lparr>mClientInfos := (mClientInfos s)[i := c]\<rparr>)))))"

section \<open>The accepter thread\<close>

definition should_accept :: "u64 \<Rightarrow> client_info \<Rightarrow> bool" where
  "should_accept curTimeSec c \<longleftrightarrow> \<not> IsConnected c \<and> \<not> curTimeSec < GetLatestClosedTimeSec c
     \<and> \<not> curTimeSec - GetLatestClosedTimeSec c \<le> RE_USE_SESSION_WAIT_TIMESEC"

fun AccepterThread :: "u64 \<Rightarrow> (nat \<Rightarrow> nat option \<times> bool) \<Rightarrow> nat list \<Rightarrow> iocp_server \<Rightarrow> iocp_server" where
  "AccepterThread cur results [] s = s"
| "AccepterThread cur results (i # is) s =
     AccepterThread cur results is
       (if should_accept cur (mClientInfos s ! i)
        then snd (on_client i (case results i of (sock, acceptEx) \<Rightarrow> PostAccept sock acceptEx) s)
        else s)"

definition accepter_pass :: "u64 \<Rightarrow> (nat \<Rightarrow> nat option \<times> bool) \<Rightarrow> iocp_server \<Rightarrow> iocp_server" where
  "accepter_pass cur results s =
     (if mIsAccepterRun s then AccepterThread cur results [0..<length (mClientInfos s)] s else s)"

text \<open>The send thread, which \<open>StartServer\<close> does not create: a pass calls \<open>SendIO\<close> on every connected slot.\<close>

fun SendThread :: "bool \<Rightarrow> nat list \<Rightarrow> iocp_server \<Rightarrow> iocp_server result" where
  "SendThread accepted [] s = Inr s"
| "SendThread accepted (i # is) s =
     (if \<not> IsConnected (mClientInfos s ! i) then SendThread accepted is s
      else bindr (SendIO accepted (mClientInfos s ! i)) (\<lambda>(_, c).
        SendThread accepted is (s\<lparr>mClientInfos := (mClientInfos s)[i := c]\<rparr>)))"

section \<open>Reachable states of the network layer\<close>

text \<open>A completion is about a slot of the server or about the listening socket.\<close>

definition completion_of :: "iocp_server \<Rightarrow> completion \<Rightarrow> bool" where
  "completion_of s e \<longleftrightarrow> (\<forall>i. pClientInfo e = Some i \<longrightarrow> i < length (mClientInfos s))"

text \<open>The clock is in seconds since the system started; the bound is 136 years.\<close>

definition clock_bound :: nat where
  "clock_bound = 4294967298"

text \<open>What the network's own threads do; the rest of the program only sends.\<close>

inductive io_step :: "iocp_server \<Rightarrow> callback list \<Rightarrow> iocp_server \<Rightarrow> bool" where
  work: "completion_of s e \<Longrightarrow> WokerThread n e s = Inr (cbs, s') \<Longrightarrow> io_step s cbs s'"
| accept: "unat cur \<le> clock_bound \<Longrightarrow> io_step s [] (accepter_pass cur results s)"

inductive net_step :: "iocp_server \<Rightarrow> callback list \<Rightarrow> iocp_server \<Rightarrow> bool" where
  io: "io_step s cbs s' \<Longrightarrow> net_step s cbs s'"
| send: "IOCP_SendMsg b i n data s = Inr (r, s') \<Longrightarrow> net_step s [] s'"

inductive_cases io_stepE: "io_step s cbs s'"

text \<open>The state after the set-up: the listening socket and the port, whatever their calls answered.\<close>

definition listening :: "nat option \<times> u64 \<Rightarrow> iocp_server" where
  "listening h = new_IOCPServer\<lparr>mListenSocket := fst h, mIOCPHandle := snd h\<rparr>"

inductive net_reach :: "nat option \<times> u64 \<Rightarrow> nat \<Rightarrow> iocp_server \<Rightarrow> bool" for handle n where
  start: "StartServer n (listening handle) = (True, s) \<Longrightarrow> net_reach handle n s"
| step: "net_reach handle n s \<Longrightarrow> net_step s cbs s' \<Longrightarrow> net_reach handle n s'"

definition slot_ok :: "client_info \<Rightarrow> bool" where
  "slot_ok c \<longleftrightarrow> accept_posts c = 0 \<and> mLatestClosedTimeSec c = 0 \<and> mSock c = None
     \<or> accept_posts c = 1 \<and> mLatestClosedTimeSec c = UINT32_MAX"

definition net_ok :: "nat \<Rightarrow> iocp_server \<Rightarrow> bool" where
  "net_ok n s \<longleftrightarrow> length (mClientInfos s) = n
     \<and> (\<forall>i < n. client_Index (mClientInfos s ! i) = of_nat i \<and> slot_ok (mClientInfos s ! i))"

lemma net_ok_slot: "net_ok n s \<Longrightarrow> i < n \<Longrightarrow> slot_ok (mClientInfos s ! i) \<and> client_Index (mClientInfos s ! i) = of_nat i"
  by (simp add: net_ok_def)

lemma net_ok_update:
  assumes "net_ok n s" and "slot_ok c" and "client_Index c = client_Index (mClientInfos s ! i)"
  shows "net_ok n (s\<lparr>mClientInfos := (mClientInfos s)[i := c]\<rparr>)"
  using assms by (cases "i < n") (auto simp: net_ok_def nth_list_update)

lemma net_ok_cnt [simp]:
  "net_ok n (s\<lparr>mClientCnt := k\<rparr>) = net_ok n s" "net_ok n (s\<lparr>mIsWorkerRun := b\<rparr>) = net_ok n s"
  by (simp_all add: net_ok_def)

text \<open>The operations on one slot.\<close>

lemma SendIO_slot:
  assumes "SendIO b c = Inr (r, c')"
  shows "slot_ok c' = slot_ok c" and "client_Index c' = client_Index c"
  using assms by (auto simp: SendIO_def slot_ok_def split: list.splits if_splits)

lemma SendMsg_slot:
  assumes "ClientInfo_SendMsg b n data c = Inr (r, c')"
  shows "slot_ok c' = slot_ok c" and "client_Index c' = client_Index c"
proof -
  obtain d where d: "read_cells 0 (unat n) data = Inr d"
    using assms by (auto simp: ClientInfo_SendMsg_def bindr_simps)
  let ?c = "c\<lparr>mSendDataqueue := mSendDataqueue c @ [d]\<rparr>"
  have "c' = ?c \<or> (\<exists>r. SendIO b ?c = Inr (r, c'))"
    using assms d by (auto simp: ClientInfo_SendMsg_def bindr_simps Let_def split: if_splits)
  then show "slot_ok c' = slot_ok c" and "client_Index c' = client_Index c"
    using SendIO_slot[of b ?c] by (auto simp: slot_ok_def)
qed

lemma SendCompleted_slot:
  assumes "SendCompleted b c = Inr c'"
  shows "slot_ok c' = slot_ok c" and "client_Index c' = client_Index c"
proof -
  obtain d ds where q: "mSendDataqueue c = d # ds"
    using assms by (auto simp: SendCompleted_def split: list.splits)
  let ?c = "c\<lparr>mSendDataqueue := ds, completed := completed c @ [d]\<rparr>"
  have "c' = ?c \<or> (\<exists>r. SendIO b ?c = Inr (r, c'))"
    using assms q by (auto simp: SendCompleted_def bindr_simps Let_def split: if_splits)
  then show "slot_ok c' = slot_ok c" and "client_Index c' = client_Index c"
    using SendIO_slot[of b ?c] by (auto simp: slot_ok_def)
qed

lemma Close_slot [simp]: "slot_ok c \<Longrightarrow> slot_ok (ClientInfo_Close c)" "client_Index (ClientInfo_Close c) = client_Index c"
  by (auto simp: slot_ok_def ClientInfo_Close_def)

lemma AcceptCompletion_slot [simp]: "AcceptCompletion h r c = (b, c') \<Longrightarrow> c' = c"
  by (auto simp: AcceptCompletion_def ClientInfo_OnConnect_def Let_def split: if_splits)

text \<open>A slot whose accept was posted once is never posted again before the clock passes the bound.\<close>

lemma should_accept_once:
  assumes c: "slot_ok c" and cur: "unat cur \<le> clock_bound" and acc: "should_accept cur c"
  shows "accept_posts c = 0"
proof (rule ccontr)
  assume "accept_posts c \<noteq> 0"
  then have l: "mLatestClosedTimeSec c = 4294967295"
    using c by (simp add: slot_ok_def UINT32_MAX_def)
  have ge: "4294967295 \<le> unat cur"
    using acc l by (simp add: should_accept_def word_less_nat_alt)
  then have "unat (cur - 4294967295) = unat cur - 4294967295"
    by (simp add: unat_sub_if_size word_size)
  then have "cur - 4294967295 \<le> 3"
    using cur by (simp add: word_le_nat_alt clock_bound_def)
  then show False
    using acc l by (simp add: should_accept_def RE_USE_SESSION_WAIT_TIMESEC_def)
qed

lemma PostAccept_slot:
  assumes "slot_ok c" and "accept_posts c = 0"
  shows "slot_ok (snd (PostAccept sock res c))" and "client_Index (snd (PostAccept sock res c)) = client_Index c"
  using assms by (auto simp: PostAccept_def slot_ok_def Let_def split: option.splits)

lemma CloseSocket_ok:
  assumes "net_ok n s" and "i < n" and "CloseSocket i s = (cbs, s')"
  shows "net_ok n s'" and "cbs = [OnClose (of_nat i)]"
  using assms net_ok_slot[OF assms(1,2)] by (auto simp: CloseSocket_def Let_def intro!: net_ok_update)

lemma AccepterThread_ok:
  assumes "net_ok n s" and "unat cur \<le> clock_bound" and "set is \<subseteq> {..<n}"
  shows "net_ok n (AccepterThread cur results is s)"
  using assms
proof (induction "is" arbitrary: s)
  case (Cons i "is")
  obtain sock res where r: "results i = (sock, res)" by fastforce
  have i: "slot_ok (mClientInfos s ! i)"
    using Cons.prems(1,3) by (simp add: net_ok_def)
  have "net_ok n (snd (on_client i (PostAccept sock res) s))" if acc: "should_accept cur (mClientInfos s ! i)"
    using PostAccept_slot[OF i should_accept_once[OF i Cons.prems(2) acc], of sock res] Cons.prems(1)
    by (auto simp: on_client_def split: prod.splits intro: net_ok_update)
  then show ?case
    using Cons r by simp
qed simp

definition known_callback :: "nat \<Rightarrow> callback \<Rightarrow> bool" where
  "known_callback n cb \<longleftrightarrow> (\<exists>i < n. cb = OnConnect (of_nat i) \<or> cb = OnClose (of_nat i) \<or> (\<exists>k. cb = OnReceive (of_nat i) k))"

lemma WokerThread_ok:
  assumes ok: "net_ok n s" and e: "completion_of s e" and w: "WokerThread r e s = Inr (cbs, s')"
  shows "net_ok n s' \<and> (\<forall>cb \<in> set cbs. known_callback n cb)"
proof (cases "mIsWorkerRun s \<and> \<not> (bSuccess e \<and> dwIoSize e = 0 \<and> lpOverlapped e = None)")
  case False
  then show ?thesis
    using w ok by (auto simp: WokerThread_def split: if_splits)
next
  case True
  have n: "length (mClientInfos s) = n"
    using ok by (simp add: net_ok_def)
  show ?thesis
  proof (cases "lpOverlapped e")
    case None
    then show ?thesis
      using w ok True by (auto simp: WokerThread_def split: if_splits)
  next
    case (Some os)
    obtain op idx where os: "os = (op, idx)" by fastforce
    note w' = w[unfolded WokerThread_def] True Some os
    consider (close) i where "i < n" "(cbs, s') = CloseSocket i s"
      | (accept) i where "i < n" "cbs = [OnConnect (client_Index (mClientInfos s ! i))]" "s' = s\<lparr>mClientCnt := mClientCnt s + 1\<rparr>"
      | (receive) i where "i < n" "cbs = [OnReceive (client_Index (mClientInfos s ! i)) (dwIoSize e)]" "s' = s"
      | (send) i c where "i < n" "cbs = []" "SendCompleted (wsaSend r) (mClientInfos s ! i) = Inr c"
          "s' = s\<lparr>mClientInfos := (mClientInfos s)[i := c]\<rparr>"
    proof (cases "\<not> bSuccess e \<or> (dwIoSize e = 0 \<and> op \<noteq> ACCEPT)")
      case True
      then obtain i where i: "pClientInfo e = Some i" "(cbs, s') = CloseSocket i s"
        using w' by (auto split: option.splits if_splits)
      then show thesis
        using close e n by (auto simp: completion_of_def)
    next
      case False
      show thesis
      proof (cases op)
        case ACCEPT
        then obtain i where i: "GetClientInfo idx s = Inr i"
          using w' False by (auto simp: bindr_simps split: if_splits)
        have same: "on_client i (AcceptCompletion (hIOCP r) (wsaRecv r)) s =
            (fst (AcceptCompletion (hIOCP r) (wsaRecv r) (mClientInfos s ! i)), s)"
          by (auto simp: on_client_def split: prod.splits dest!: AcceptCompletion_slot)
        have "i < n"
          using i n by (auto simp: GetClientInfo_def split: if_splits)
        have "if fst (AcceptCompletion (hIOCP r) (wsaRecv r) (mClientInfos s ! i))
            then cbs = [OnConnect (client_Index (mClientInfos s ! i))] \<and> s' = s\<lparr>mClientCnt := mClientCnt s + 1\<rparr>
            else (cbs, s') = CloseSocket i s"
          using w' False ACCEPT i same by (auto split: if_splits)
        then show thesis
          using close[OF \<open>i < n\<close>] accept[OF \<open>i < n\<close>] by (simp split: if_splits)
      next
        case RECV
        have c: "(case pClientInfo e of None \<Rightarrow> Inl NullDeref
            | Some i \<Rightarrow> Inr ([OnReceive (GetIndex (mClientInfos s ! i)) (dwIoSize e)], s)) = Inr (cbs, s')"
          using w' False RECV by simp
        then obtain i where i: "pClientInfo e = Some i"
          by (cases "pClientInfo e") simp_all
        then have r: "cbs = [OnReceive (client_Index (mClientInfos s ! i)) (dwIoSize e)]" "s' = s"
          using c by auto
        from i have "i < n"
          using e n by (simp add: completion_of_def)
        then show thesis
          using r by (rule receive)
      next
        case SEND
        have c: "(case pClientInfo e of None \<Rightarrow> Inl NullDeref
            | Some i \<Rightarrow> bindr (SendCompleted (wsaSend r) (mClientInfos s ! i)) (\<lambda>c.
                Inr ([], s\<lparr>mClientInfos := (mClientInfos s)[i := c]\<rparr>))) = Inr (cbs, s')"
          using w' False SEND by simp
        then obtain i where i: "pClientInfo e = Some i"
          by (cases "pClientInfo e") simp_all
        then have "i < n"
          using e n by (simp add: completion_of_def)
        moreover obtain c where "SendCompleted (wsaSend r) (mClientInfos s ! i) = Inr c" "cbs = []"
            "s' = s\<lparr>mClientInfos := (mClientInfos s)[i := c]\<rparr>"
          using c i by (auto simp: bindr_simps)
        ultimately show thesis
          by (intro send)
      qed
    qed
    then show ?thesis
    proof cases
      case close
      then show ?thesis
        using CloseSocket_ok[OF ok close(1) close(2)[symmetric]] by (auto simp: known_callback_def)
    next
      case accept
      then show ?thesis
        using ok net_ok_slot[OF ok accept(1)] by (auto simp: known_callback_def)
    next
      case receive
      then show ?thesis
        using ok net_ok_slot[OF ok receive(1)] by (auto simp: known_callback_def)
    next
      case send
      then show ?thesis
        using SendCompleted_slot[OF send(3)] net_ok_slot[OF ok send(1)] by (auto intro: net_ok_update[OF ok])
    qed
  qed
qed

lemma io_step_ok:
  assumes ok: "net_ok n s" and st: "io_step s cbs s'"
  shows "net_ok n s' \<and> (\<forall>cb \<in> set cbs. known_callback n cb)"
  using st
proof (cases rule: io_step.cases)
  case (work e r)
  then show ?thesis
    using WokerThread_ok[OF ok] by blast
next
  case (accept cur results)
  moreover have "set [0..<length (mClientInfos s)] \<subseteq> {..<n}"
    using ok by (auto simp: net_ok_def)
  ultimately show ?thesis
    using AccepterThread_ok[OF ok, of cur "[0..<length (mClientInfos s)]" results] ok
    by (simp add: accepter_pass_def)
qed

lemma net_step_ok:
  assumes ok: "net_ok n s" and st: "net_step s cbs s'"
  shows "net_ok n s' \<and> (\<forall>cb \<in> set cbs. known_callback n cb)"
  using st
proof (cases rule: net_step.cases)
  case io
  then show ?thesis
    by (rule io_step_ok[OF ok])
next
  case (send b i k data r)
  then obtain j c x where "ClientInfo_SendMsg b k data (mClientInfos s ! j) = Inr (x, c)" "j < n"
    "s' = s\<lparr>mClientInfos := (mClientInfos s)[j := c]\<rparr>" "cbs = []"
    using ok by (auto simp: IOCP_SendMsg_def GetClientInfo_def net_ok_def bindr_simps split: if_splits)
  then show ?thesis
    using SendMsg_slot[of b k data "mClientInfos s ! j" x c] net_ok_slot[OF ok] by (auto intro: net_ok_update[OF ok])
qed

lemma StartServer_ok:
  assumes "StartServer n (listening h) = (True, s)"
  shows "net_ok n s"
  using assms
  by (auto simp: StartServer_def CreateWokerThread_def CreateAccepterThread_def CreateClient_def net_ok_def
      listening_def new_IOCPServer_def ClientInfo_Init_def new_ClientInfo_def slot_ok_def)

lemma net_reach_ok: "net_reach h n s \<Longrightarrow> net_ok n s"
  by (induction rule: net_reach.induct) (auto simp: StartServer_ok dest: net_step_ok)

section \<open>Properties\<close>

lemma slot_ok_posts: "slot_ok c \<Longrightarrow> accept_posts c \<le> 1"
  by (auto simp: slot_ok_def)

text \<open>
  C14. A slot serves one connection: in every reachable state of the network layer each slot has been offered to
  \<open>AcceptEx\<close> at most once, so a server started with \<open>n\<close> slots accepts at most \<open>n\<close> connections in its
  lifetime. \<open>PostAccept\<close> marks the slot with \<open>UINT32_MAX\<close> as the time it was last closed, and nothing ever
  sets that time again, so a closed slot is never old enough to be reused.
\<close>

theorem slots_serve_once:
  assumes "net_reach handle n s"
  shows "(\<forall>c \<in> set (mClientInfos s). accept_posts c \<le> 1) \<and> sum_list (map accept_posts (mClientInfos s)) \<le> n"
proof -
  have ok: "net_ok n s"
    using net_reach_ok[OF assms] .
  then have each: "\<forall>c \<in> set (mClientInfos s). accept_posts c \<le> 1"
    using slot_ok_posts unfolding net_ok_def all_set_conv_all_nth by blast
  have "sum_list (map accept_posts cs) \<le> length cs" if "\<forall>c \<in> set cs. accept_posts c \<le> 1" for cs
    using that by (induction cs) auto
  then show ?thesis
    using each ok by (auto simp: net_ok_def)
qed

theorem slots_serve_once_witness:
  "\<exists>s. net_reach (Some 0, 7) 2 s \<and> map accept_posts (mClientInfos s) = [1, 1] \<and> sum_list (map accept_posts (mClientInfos s)) \<le> 2"
proof -
  let ?init = "snd (StartServer 2 (listening (Some 0, 7)))"
  let ?s = "accepter_pass 1000 (\<lambda>_. (Some 1, True)) ?init"
  have "StartServer 2 (listening (Some 0, 7)) = (True, ?init)"
    by (simp add: StartServer_def CreateWokerThread_def CreateAccepterThread_def)
  then have "net_reach (Some 0, 7) 2 ?init"
    by (rule net_reach.start)
  moreover have "net_step ?init [] ?s"
    by (intro net_step.io io_step.accept) (simp add: clock_bound_def)
  ultimately have r: "net_reach (Some 0, 7) 2 ?s"
    by (rule net_reach.step)
  have "map accept_posts (mClientInfos ?s) = [1, 1]"
    by (simp add: StartServer_def CreateWokerThread_def CreateAccepterThread_def CreateClient_def listening_def new_IOCPServer_def
        ClientInfo_Init_def new_ClientInfo_def accepter_pass_def upt_conv_Cons should_accept_def IsConnected_def
        RE_USE_SESSION_WAIT_TIMESEC_def on_client_def PostAccept_def)
  then show ?thesis
    using conjunct2[OF slots_serve_once[OF r]] r by (intro exI[of _ ?s] conjI)
qed

text \<open>
  Callbacks are about slots of the server: in every reachable state each virtual call a worker thread
  makes carries the index of an existing slot, so the packet manager's tables are never indexed out of
  range by the network.
\<close>

lemma callbacks_known:
  assumes "net_reach handle n s" and "net_step s cbs s'"
  shows "\<forall>cb \<in> set cbs. known_callback n cb"
  using net_step_ok[OF net_reach_ok[OF assms(1)] assms(2)] by blast

end
