(* ===== verification/Chat_Server.thy ===== *)
theory Chat_Server
  imports Protocol_Refinement Iocp_Server
begin

text \<open>
  The whole server: \<open>ChatServer\<close> (\<open>ChatServer.*\<close>) on top of the network layer and the packet manager, with
  the constants of \<open>main.cpp\<close>. The virtual calls of a worker thread become system packets or a receive; the
  packets that a turn of the packet thread sends go to the slots' send queues at its end, in order.

  Shown here: the step relation of the server, the invariant over every reachable state, and from it that no
  two sessions have the same user id, that no room lists more users than its limit, and how a
  receive can fail.
\<close>

section \<open>The server\<close>

definition MAX_CLIENT :: nat where
  "MAX_CLIENT = 100"

record ('db, 'conn) chat_server =
  mNetwork :: iocp_server
  mPacketManager :: "('db, 'conn) packet_manager"

text \<open>\<open>startRoomNumber\<close>, \<open>maxRoomCount\<close> and \<open>maxRoomUserCount\<close> are 0, 10 and 4.\<close>

definition ChatServer_Init :: "nat \<Rightarrow> 'db \<Rightarrow> iocp_server \<Rightarrow> ('db, 'conn) chat_server result" where
  "ChatServer_Init maxClient db network =
     (let mRoomManager = RoomManager_Init 0 10 4 new_RoomManager in
      bindr (UserManager_Init (int maxClient) db mRoomManager) (\<lambda>um.
        Inr \<lparr>mNetwork = network, mPacketManager = PacketManager_Init um\<rparr>))"

definition ChatServer_OnConnect :: "u32 \<Rightarrow> ('db, 'conn) packet_manager \<Rightarrow> ('db, 'conn) packet_manager" where
  "ChatServer_OnConnect clientIndex = PushSystemPacket (system_packet SYS_USER_CONNECT clientIndex)"

definition ChatServer_OnClose :: "u32 \<Rightarrow> ('db, 'conn) packet_manager \<Rightarrow> ('db, 'conn) packet_manager" where
  "ChatServer_OnClose clientIndex = PushSystemPacket (system_packet SYS_USER_DISCONNECT clientIndex)"

definition ChatServer_OnReceive :: "memcpy_mode \<Rightarrow> u32 \<Rightarrow> u32 \<Rightarrow> cell list \<Rightarrow> ('db, 'conn) packet_manager
    \<Rightarrow> ('db, 'conn) packet_manager result" where
  "ChatServer_OnReceive m clientIndex dataSize data = ReceivePacketData m clientIndex dataSize data"

definition ChatServer_Run :: "nat \<Rightarrow> ('db, 'conn) chat_server \<Rightarrow> bool \<times> ('db, 'conn) chat_server" where
  "ChatServer_Run maxClient s =
     (let pm = mPacketManager s; um = mUserManager pm;
          um1 = um\<lparr>rooms := RoomManager_SetSendPacketFunc (Some ChatServer_SendMsg) (rooms um)\<rparr>;
          um2 = UserManager_SetSendPacketFunc (Some ChatServer_SendMsg) um1
      in case PacketManager_Run (pm\<lparr>mUserManager := um2\<rparr>) of
        (run, pm1) \<Rightarrow>
          if \<not> run then (False, s\<lparr>mPacketManager := pm1\<rparr>)
          else (case StartServer maxClient (mNetwork s) of
            (_, n1) \<Rightarrow> (True, s\<lparr>mNetwork := n1, mPacketManager := pm1\<rparr>)))"

definition ChatServer_End :: "('db, 'conn) chat_server \<Rightarrow> ('db, 'conn) chat_server result" where
  "ChatServer_End s =
     bindr (PacketManager_End (mPacketManager s)) (\<lambda>pm.
       Inr (s\<lparr>mPacketManager := pm, mNetwork := DestroyThread (mNetwork s)\<rparr>))"

text \<open>The destructor. The pointers are addresses; the result lists what was deleted. The second block clears the
  wrong pointer.\<close>

record pointers =
  ptr_UserManager :: "nat option"
  ptr_RoomManager :: "nat option"
  ptr_AccountDB :: "nat option"
  ptr_PacketManager :: "nat option"

definition ChatServer_delete :: "('db, 'conn) packet_manager \<Rightarrow> pointers \<Rightarrow> (pointers \<times> nat list) result" where
  "ChatServer_delete pm q =
     (let (q1, f1) = (case ptr_UserManager q of None \<Rightarrow> (q, []) | Some x \<Rightarrow> (q\<lparr>ptr_UserManager := None\<rparr>, [x]));
          (q2, f2) = (case ptr_RoomManager q1 of None \<Rightarrow> (q1, f1) | Some x \<Rightarrow> (q1\<lparr>ptr_UserManager := None\<rparr>, f1 @ [x]));
          (q3, f3) = (case ptr_AccountDB q2 of None \<Rightarrow> (q2, f2) | Some x \<Rightarrow> (q2\<lparr>ptr_AccountDB := None\<rparr>, f2 @ [x]))
      in case ptr_PacketManager q3 of
           None \<Rightarrow> Inr (q3, f3)
         | Some x \<Rightarrow> bindr (PacketManager_delete pm) (\<lambda>_. Inr (q3\<lparr>ptr_PacketManager := None\<rparr>, f3 @ [x])))"

text \<open>The four objects that \<open>Init\<close> creates.\<close>

definition init_pointers :: pointers where
  "init_pointers = \<lparr>ptr_UserManager = Some 2, ptr_RoomManager = Some 0, ptr_AccountDB = Some 1, ptr_PacketManager = Some 3\<rparr>"

section \<open>Steps\<close>

text \<open>A virtual call of a worker; \<open>data\<close> is the slot's receive buffer.\<close>

fun run_callback :: "memcpy_mode \<Rightarrow> cell list \<Rightarrow> callback \<Rightarrow> ('db, 'conn) packet_manager \<Rightarrow> ('db, 'conn) packet_manager result" where
  "run_callback m data (OnConnect i) s = Inr (ChatServer_OnConnect i s)"
| "run_callback m data (OnClose i) s = Inr (ChatServer_OnClose i s)"
| "run_callback m data (OnReceive i k) s = ChatServer_OnReceive m i k data s"

fun run_callbacks :: "memcpy_mode \<Rightarrow> cell list \<Rightarrow> callback list \<Rightarrow> ('db, 'conn) packet_manager \<Rightarrow> ('db, 'conn) packet_manager result" where
  "run_callbacks m data [] s = Inr s"
| "run_callbacks m data (cb # cbs) s = bindr (run_callback m data cb s) (run_callbacks m data cbs)"

text \<open>The packets of the outbox go to the slots, one \<open>IOCPServer::SendMsg\<close> each.\<close>

fun flush :: "(nat \<Rightarrow> bool) \<Rightarrow> outbox \<Rightarrow> iocp_server \<Rightarrow> iocp_server result" where
  "flush accepted [] n = Inr n"
| "flush accepted ((c, data) # xs) n =
     bindr (IOCP_SendMsg (accepted (length xs)) c (of_nat (length data)) data n) (\<lambda>(_, n1). flush accepted xs n1)"

definition clear_outbox :: "('db, 'conn) packet_manager \<Rightarrow> ('db, 'conn) packet_manager" where
  "clear_outbox s = s\<lparr>mUserManager := (mUserManager s)\<lparr>sent := []\<rparr>\<rparr>"

text \<open>The receive buffer of a completion: the bytes that arrived, at most \<open>MAX_SOCKBUF\<close>.\<close>

definition recv_buffer_ok :: "callback list \<Rightarrow> bytes \<Rightarrow> bool" where
  "recv_buffer_ok cbs bs \<longleftrightarrow> length bs \<le> MAX_SOCKBUF \<and> (\<forall>i k. OnReceive i k \<in> set cbs \<longrightarrow> k = of_nat (length bs))"

inductive chat_step :: "'db odbc \<Rightarrow> memcpy_mode \<Rightarrow> ('db, 'conn) chat_server \<Rightarrow> ('db, 'conn) chat_server \<Rightarrow> bool"
  for d m where
  network: "io_step (mNetwork s) cbs n \<Longrightarrow> recv_buffer_ok cbs bs
    \<Longrightarrow> run_callbacks m (map Some bs) cbs (mPacketManager s) = Inr pm
    \<Longrightarrow> chat_step d m s (s\<lparr>mNetwork := n, mPacketManager := pm\<rparr>)"
| packets: "ProcessPacket d (mPacketManager s) = Inr pm
    \<Longrightarrow> flush accepted (sent (mUserManager pm)) (mNetwork s) = Inr n
    \<Longrightarrow> chat_step d m s (s\<lparr>mNetwork := n, mPacketManager := clear_outbox pm\<rparr>)"

inductive chat_reach :: "'db odbc \<Rightarrow> memcpy_mode \<Rightarrow> nat option \<times> u64 \<Rightarrow> 'db \<Rightarrow> ('db, 'conn) chat_server \<Rightarrow> bool"
  for d m handle db where
  start: "ChatServer_Init MAX_CLIENT db (listening handle) = Inr s0
    \<Longrightarrow> ChatServer_Run MAX_CLIENT s0 = (True, s) \<Longrightarrow> chat_reach d m handle db s"
| step: "chat_reach d m handle db s \<Longrightarrow> chat_step d m s s' \<Longrightarrow> chat_reach d m handle db s'"

section \<open>The invariant\<close>

definition server_ok :: "('db, 'conn) chat_server \<Rightarrow> bool" where
  "server_ok s \<longleftrightarrow> net_ok MAX_CLIENT (mNetwork s) \<and> pm_ok (mPacketManager s)
     \<and> length (mUserObjPool (mUserManager (mPacketManager s))) = MAX_CLIENT
     \<and> shape (mUserManager (mPacketManager s)) = (0, replicate 10 4)"

lemma flush_ok:
  assumes "net_ok k n" and "flush accepted xs n = Inr n'"
  shows "net_ok k n'"
  using assms
proof (induction accepted xs n rule: flush.induct)
  case (2 accepted c data xs n)
  then obtain r n1 where s: "IOCP_SendMsg (accepted (length xs)) c (of_nat (length data)) data n = Inr (r, n1)"
    and f: "flush accepted xs n1 = Inr n'"
    by (auto simp: bindr_simps)
  have "net_ok k n1"
    using net_step_ok[OF "2.prems"(1) net_step.send[OF s]] by blast
  then show ?case
    using "2.IH"[of "(r, n1)" r n1] s f by simp
qed simp

lemma clear_outbox_ok [simp]:
  "pm_ok (clear_outbox s) = pm_ok s" "mUserObjPool (mUserManager (clear_outbox s)) = mUserObjPool (mUserManager s)"
  "shape (mUserManager (clear_outbox s)) = shape (mUserManager s)"
  by (simp_all add: clear_outbox_def pm_ok_def system_packet_ok_def known_client_def live_def shape_def)

lemma run_callback_ok:
  assumes ok: "pm_ok s" and n: "length (mUserObjPool (mUserManager s)) = n" and cb: "known_callback n cb"
    and k: "length bs < 2 ^ 31" "\<And>i k. cb = OnReceive i k \<Longrightarrow> k = of_nat (length bs)"
    and ret: "run_callback m (map Some bs) cb s = Inr s'"
  shows "pm_ok s'" and "mUserObjPool (mUserManager s') = mUserObjPool (mUserManager s)"
    and "shape (mUserManager s') = shape (mUserManager s)"
proof -
  obtain i where i: "i < n" "cb = OnConnect (of_nat i) \<or> cb = OnClose (of_nat i) \<or> (\<exists>k. cb = OnReceive (of_nat i) k)"
    using cb by (auto simp: known_callback_def)
  have lv: "live (mUserManager s) i"
    using i(1) n by (simp add: live_def)
  then have known: "known_client (mUserManager s) (of_nat i)"
    by (auto simp: known_client_def)
  have sys: "pm_ok (PushSystemPacket (system_packet pid (of_nat i)) s)
      \<and> mUserManager (PushSystemPacket (system_packet pid (of_nat i)) s) = mUserManager s"
    if "pid \<in> {SYS_USER_CONNECT, SYS_USER_DISCONNECT}" for pid
    using that ok known by (auto simp: PushSystemPacket_def pm_ok_def system_packet_ok_def system_packet_def)
  have "pm_ok s' \<and> mUserObjPool (mUserManager s') = mUserObjPool (mUserManager s) \<and> shape (mUserManager s') = shape (mUserManager s)"
    using i(2)
  proof (elim disjE exE)
    assume "cb = OnConnect (of_nat i)"
    then show ?thesis
      using ret sys[of SYS_USER_CONNECT] by (auto simp: ChatServer_OnConnect_def)
  next
    assume "cb = OnClose (of_nat i)"
    then show ?thesis
      using ret sys[of SYS_USER_DISCONNECT] by (auto simp: ChatServer_OnClose_def)
  next
    fix k
    assume "cb = OnReceive (of_nat i) k"
    then have r: "ReceivePacketData m (of_nat i) (of_nat (length bs)) (map Some bs) s = Inr s'"
      using ret assms(5) by (simp add: ChatServer_OnReceive_def)
    show ?thesis
      by (rule ReceivePacketData_ok[OF ok lv k(1) r]) (simp add: shape_def)
  qed
  then show "pm_ok s'" and "mUserObjPool (mUserManager s') = mUserObjPool (mUserManager s)"
    and "shape (mUserManager s') = shape (mUserManager s)"
    by auto
qed

lemma run_callbacks_ok:
  assumes "pm_ok s" and "length (mUserObjPool (mUserManager s)) = n" and "\<forall>cb \<in> set cbs. known_callback n cb"
    and "recv_buffer_ok cbs bs" and "run_callbacks m (map Some bs) cbs s = Inr s'"
  shows "pm_ok s' \<and> mUserObjPool (mUserManager s') = mUserObjPool (mUserManager s)
    \<and> shape (mUserManager s') = shape (mUserManager s)"
  using assms
proof (induction cbs arbitrary: s)
  case Nil
  then show ?case by simp
next
  case (Cons cb cbs)
  obtain s1 where r: "run_callback m (map Some bs) cb s = Inr s1" and rs: "run_callbacks m (map Some bs) cbs s1 = Inr s'"
    using Cons.prems(5) by (auto simp: bindr_simps)
  have k: "length bs < 2 ^ 31" and eq: "\<And>i k. cb = OnReceive i k \<Longrightarrow> k = of_nat (length bs)"
    using Cons.prems(4) by (auto simp: recv_buffer_ok_def MAX_SOCKBUF_def)
  have cb: "known_callback n cb"
    using Cons.prems(3) by simp
  note s1 = run_callback_ok[OF Cons.prems(1,2) cb k eq r]
  have "pm_ok s' \<and> mUserObjPool (mUserManager s') = mUserObjPool (mUserManager s1) \<and> shape (mUserManager s') = shape (mUserManager s1)"
    using Cons.prems rs s1 by (intro Cons.IH) (auto simp: recv_buffer_ok_def)
  then show ?case
    using s1 by simp
qed

lemma chat_step_ok:
  assumes ok: "server_ok s" and st: "chat_step d m s s'"
  shows "server_ok s'"
  using st
proof (cases rule: chat_step.cases)
  case (network cbs n bs pm)
  have n: "net_ok MAX_CLIENT n" "\<forall>cb \<in> set cbs. known_callback MAX_CLIENT cb"
    using io_step_ok[OF _ network(2)] ok by (auto simp: server_ok_def)
  show ?thesis
    using run_callbacks_ok[OF _ _ n(2) network(3,4)] ok n(1) network(1) by (auto simp: server_ok_def)
next
  case (packets pm accepted n)
  have "pm_ok pm" "mUserObjPool (mUserManager pm) = mUserObjPool (mUserManager (mPacketManager s))"
    "shape (mUserManager pm) = shape (mUserManager (mPacketManager s))"
    using ProcessPacket_ok[OF _ packets(2)] ProcessPacket_shape[OF _ packets(2)] ok by (auto simp: server_ok_def)
  then show ?thesis
    using flush_ok[OF _ packets(3)] ok packets(1) by (auto simp: server_ok_def)
qed

lemma StartServer_True: "fst (StartServer n s) = True"
  by (simp add: StartServer_def CreateWokerThread_def CreateAccepterThread_def)

text \<open>No step creates the Redis manager, or stops or joins the packet thread.\<close>

definition same_threads :: "('db, 'conn) packet_manager \<Rightarrow> ('db, 'conn) packet_manager \<Rightarrow> bool" where
  "same_threads s s' \<longleftrightarrow> mRedisMgr s' = mRedisMgr s \<and> mProcessThread s' = mProcessThread s
     \<and> mIsRunProcessThread s' = mIsRunProcessThread s"

lemma same_threads_refl [simp]: "same_threads s s"
  by (simp add: same_threads_def)

lemma same_threads_trans: "same_threads s s1 \<Longrightarrow> same_threads s1 s2 \<Longrightarrow> same_threads s s2"
  by (simp add: same_threads_def)

lemma run_callbacks_threads: "run_callbacks m data cbs s = Inr s' \<Longrightarrow> same_threads s s'"
proof (induction cbs arbitrary: s)
  case (Cons cb cbs)
  have "same_threads s s1" if "run_callback m data cb s = Inr s1" for s1
    using that by (cases cb) (auto simp: ChatServer_OnConnect_def ChatServer_OnClose_def ChatServer_OnReceive_def
        PushSystemPacket_def ReceivePacketData_def EnqueuePacketData_def on_app_def bindr_simps same_threads_def)
  then show ?case
    using Cons by (auto simp: bindr_simps intro: same_threads_trans)
qed simp

lemma DequePacketData_threads: "DequePacketData s = Inr (x, s') \<Longrightarrow> same_threads s s'"
  by (auto simp: DequePacketData_def take_user_index_def bindr_simps same_threads_def split: list.splits)

lemma ProcessRecvPacket_threads: "ProcessRecvPacket d x s = Inr s' \<Longrightarrow> same_threads s s'"
  by (auto simp: ProcessRecvPacket_def on_app_def bindr_simps same_threads_def split: option.splits)

lemma DequeSystem_threads: "DequeSystemPacketData s = (x, s') \<Longrightarrow> same_threads s s'"
  by (auto simp: DequeSystemPacketData_def same_threads_def split: list.splits)

lemma ProcessPacket_threads:
  assumes "ProcessPacket d s = Inr s'"
  shows "same_threads s s'"
proof (cases "mIsRunProcessThread s")
  case True
  then obtain s1 where 1: "ProcessPacket_recv d s = Inr s1" and 2: "ProcessPacket_system d s1 = Inr s'"
    using assms by (auto simp: ProcessPacket_def bindr_simps)
  have "same_threads s s1"
    using 1 by (auto simp: ProcessPacket_recv_def bindr_simps split: if_splits
        intro: same_threads_trans DequePacketData_threads dest!: ProcessRecvPacket_threads)
  moreover have "same_threads s1 s'"
    using 2 by (auto simp: ProcessPacket_system_def split: prod.splits if_splits
        intro: same_threads_trans DequeSystem_threads dest!: ProcessRecvPacket_threads)
  ultimately show ?thesis
    by (rule same_threads_trans)
qed (use assms in \<open>simp add: ProcessPacket_def\<close>)

lemma chat_step_threads: "chat_step d m s s' \<Longrightarrow> same_threads (mPacketManager s) (mPacketManager s')"
  by (auto elim!: chat_step.cases dest!: run_callbacks_threads ProcessPacket_threads simp: clear_outbox_def same_threads_def)

text \<open>The state after \<open>Init\<close> and \<open>Run\<close>.\<close>

definition started :: "nat option \<times> u64 \<Rightarrow> 'db \<Rightarrow> ('db, 'conn) chat_server" where
  "started handle db = \<lparr>mNetwork = snd (StartServer MAX_CLIENT (listening handle)),
     mPacketManager = (PacketManager_Init (ready_app MAX_CLIENT db chat_rooms))
       \<lparr>mIsRunProcessThread := True, mProcessThread := True\<rparr>\<rparr>"

lemma set_send_rooms: "UserManager_SetSendPacketFunc f (a\<lparr>rooms := r\<rparr>) = (UserManager_SetSendPacketFunc f a)\<lparr>rooms := r\<rparr>"
  by (simp add: UserManager_SetSendPacketFunc_def)

lemma ready_app_rooms: "(ready_app n db rm)\<lparr>rooms := r\<rparr> = ready_app n db r"
  by (simp add: ready_app_def)

lemma started_server:
  assumes "ChatServer_Init MAX_CLIENT db (listening handle) = Inr s0"
    and "ChatServer_Run MAX_CLIENT s0 = (b, s)"
  shows "s = started handle db"
proof -
  let ?rm = "RoomManager_Init 0 10 4 new_RoomManager"
  obtain um where um: "UserManager_Init (int MAX_CLIENT) db ?rm = Inr um"
    and s0: "s0 = \<lparr>mNetwork = listening handle, mPacketManager = PacketManager_Init um\<rparr>"
    using assms(1) by (auto simp: ChatServer_Init_def bindr_simps)
  have "UserManager_SetSendPacketFunc (Some ChatServer_SendMsg) um = ready_app MAX_CLIENT db ?rm"
    and "rooms um = ?rm"
    using UserManager_Init_ready[of MAX_CLIENT db ?rm] um by (auto simp: UserManager_Init_def bindr_simps)
  then show ?thesis
    using assms(2) by (auto simp: s0 ChatServer_Run_def set_send_rooms ready_app_rooms chat_rooms_def started_def
        PacketManager_Run_def PacketManager_Init_def Let_def split: prod.splits)
qed

lemma started_ok: "server_ok (started handle db)"
proof -
  have "net_ok MAX_CLIENT (snd (StartServer MAX_CLIENT (listening handle)))"
    using StartServer_ok StartServer_True by (metis prod.collapse)
  moreover have "app_ok (ready_app MAX_CLIENT db chat_rooms)"
    by (intro ready_app_ok chat_rooms_ok) (simp add: MAX_CLIENT_def)
  moreover have "table_shape chat_rooms = (0, replicate 10 4)"
    by (auto simp: table_shape_def chat_rooms_def RoomManager_SetSendPacketFunc_def RoomManager_Init_def
        Room_Init_def intro: nth_equalityI)
  ultimately show ?thesis
    by (simp add: server_ok_def started_def PacketManager_Init_def pm_ok_def shape_def)
qed

lemma chat_reach_ok: "chat_reach d m handle db s \<Longrightarrow> server_ok s"
  by (induction rule: chat_reach.induct) (auto dest!: started_server simp: started_ok dest: chat_step_ok)

lemma chat_reach_threads:
  "chat_reach d m handle db s \<Longrightarrow> mRedisMgr (mPacketManager s) = None \<and> mProcessThread (mPacketManager s)"
  by (induction rule: chat_reach.induct)
    (auto dest!: started_server chat_step_threads simp: started_def PacketManager_Init_def same_threads_def)

lemma chat_reach_running: "chat_reach d m handle db s \<Longrightarrow> mIsRunProcessThread (mPacketManager s)"
  by (induction rule: chat_reach.induct)
    (auto dest!: started_server chat_step_threads simp: started_def PacketManager_Init_def same_threads_def)

lemma reach_started: "chat_reach d m handle db (started handle db :: ('db, 'conn) chat_server)"
proof -
  obtain s0 :: "('db, 'conn) chat_server" where
      i: "ChatServer_Init MAX_CLIENT db (listening handle) = Inr s0"
    by (auto simp: ChatServer_Init_def UserManager_Init_def init_pool_eq)
  obtain b s where r: "ChatServer_Run MAX_CLIENT s0 = (b, s)" by fastforce
  have "b = True"
    using r by (auto simp: ChatServer_Run_def PacketManager_Run_def Let_def split: prod.splits)
  then have "ChatServer_Run MAX_CLIENT s0 = (True, started handle db)"
    using r started_server[OF i r] by simp
  then show ?thesis
    by (rule chat_reach.start[OF i])
qed

section \<open>A run of the server\<close>

text \<open>Steps of a given kind can be taken in every reachable state whose workers run.\<close>

definition serving :: "'db odbc \<Rightarrow> memcpy_mode \<Rightarrow> nat option \<times> u64 \<Rightarrow> 'db \<Rightarrow> ('db, 'conn) chat_server \<Rightarrow> bool" where
  "serving d m handle db s \<longleftrightarrow> chat_reach d m handle db s \<and> mIsWorkerRun (mNetwork s)"

definition good_net :: net_results where
  "good_net = \<lparr>hIOCP = 1, wsaRecv = True, wsaSend = True\<rparr>"

lemma serving_started: "serving d m handle db (started handle db)"
  using reach_started
  by (simp add: serving_def started_def StartServer_def CreateWokerThread_def CreateAccepterThread_def CreateClient_def
      listening_def new_IOCPServer_def)

lemma serving_slot:
  assumes "serving d m handle db s" and "i < MAX_CLIENT"
  shows "i < length (mClientInfos (mNetwork s))" and "client_Index (mClientInfos (mNetwork s) ! i) = of_nat i"
    and "unat (of_nat i :: u32) = i"
  using chat_reach_ok[of d m handle db s] assms
  by (auto simp: serving_def server_ok_def net_ok_def MAX_CLIENT_def mem_simps)

lemma serving_connect:
  assumes s: "serving d m handle db s" and i: "i < MAX_CLIENT"
  obtains s' where "serving d m handle db s'" and "chat_step d m s s'" and "mClientInfos (mNetwork s') = mClientInfos (mNetwork s)"
    and "mPacketManager s' = PushSystemPacket (system_packet SYS_USER_CONNECT (of_nat i)) (mPacketManager s)"
proof -
  let ?n = "mNetwork s"
  let ?e = "\<lparr>bSuccess = True, dwIoSize = 0, pClientInfo = None, lpOverlapped = Some (ACCEPT, of_nat i)\<rparr>"
  have "AcceptCompletion (hIOCP good_net) (wsaRecv good_net) c = (True, c)" for c
    by (simp add: AcceptCompletion_def ClientInfo_OnConnect_def BindIOCompletionPort_def BindRecv_def good_net_def
        INVALID_HANDLE_VALUE_def)
  then have "WokerThread good_net ?e ?n = Inr ([OnConnect (of_nat i)], ?n\<lparr>mClientCnt := mClientCnt ?n + 1\<rparr>)"
    using s serving_slot[OF s i] by (simp add: WokerThread_def serving_def GetClientInfo_def on_client_def)
  then have "io_step ?n [OnConnect (of_nat i)] (?n\<lparr>mClientCnt := mClientCnt ?n + 1\<rparr>)"
    by (intro io_step.work[of _ ?e]) (simp_all add: completion_of_def)
  from chat_step.network[OF this, of "[]" m "PushSystemPacket (system_packet SYS_USER_CONNECT (of_nat i)) (mPacketManager s)"]
  have st: "chat_step d m s (s\<lparr>mNetwork := ?n\<lparr>mClientCnt := mClientCnt ?n + 1\<rparr>,
      mPacketManager := PushSystemPacket (system_packet SYS_USER_CONNECT (of_nat i)) (mPacketManager s)\<rparr>)"
    by (simp add: recv_buffer_ok_def ChatServer_OnConnect_def)
  show thesis
    by (rule that[OF _ st]) (use s chat_reach.step[OF _ st] in \<open>simp_all add: serving_def\<close>)
qed

lemma receive_io:
  assumes "mIsWorkerRun n" and "i < length (mClientInfos n)" and "client_Index (mClientInfos n ! i) = of_nat i"
    and "0 < length bs" and "length bs \<le> MAX_SOCKBUF"
  shows "io_step n [OnReceive (of_nat i) (of_nat (length bs))] n"
proof -
  let ?k = "of_nat (length bs) :: u32"
  let ?e = "\<lparr>bSuccess = True, dwIoSize = ?k, pClientInfo = Some i, lpOverlapped = Some (RECV, 0)\<rparr>"
  have "?k \<noteq> 0"
    using assms(4,5) unat_of_nat_u32[of "length bs"] by (auto simp: MAX_SOCKBUF_def)
  then have "WokerThread good_net ?e n = Inr ([OnReceive (of_nat i) ?k], n)"
    using assms(1,3) by (simp add: WokerThread_def)
  then show ?thesis
    using assms(2) by (intro io_step.work[of _ ?e]) (simp_all add: completion_of_def)
qed

lemma serving_receive:
  assumes s: "serving d m handle db s" and i: "i < MAX_CLIENT" and n: "0 < length bs" "length bs \<le> MAX_SOCKBUF"
    and r: "ReceivePacketData m (of_nat i) (of_nat (length bs)) (map Some bs) (mPacketManager s) = Inr pm"
  obtains s' where "serving d m handle db s'" and "chat_step d m s s'" and "mNetwork s' = mNetwork s" and "mPacketManager s' = pm"
proof -
  have "io_step (mNetwork s) [OnReceive (of_nat i) (of_nat (length bs))] (mNetwork s)"
    using s serving_slot[OF s i] n by (intro receive_io) (simp_all add: serving_def)
  from chat_step.network[OF this, of bs m pm] have st: "chat_step d m s (s\<lparr>mPacketManager := pm\<rparr>)"
    using n r by (simp add: recv_buffer_ok_def ChatServer_OnReceive_def)
  show thesis
    by (rule that[OF _ st]) (use s chat_reach.step[OF _ st] in \<open>simp_all add: serving_def\<close>)
qed

lemma SendMsg_running: "IOCP_SendMsg b i n data s = Inr (r, s') \<Longrightarrow> mIsWorkerRun s' = mIsWorkerRun s"
  by (auto simp: IOCP_SendMsg_def bindr_simps)

lemma flush_running: "flush accepted xs n = Inr n' \<Longrightarrow> mIsWorkerRun n' = mIsWorkerRun n"
proof (induction accepted xs n rule: flush.induct)
  case (2 accepted c data xs n)
  then obtain r n1 where "IOCP_SendMsg (accepted (length xs)) c (of_nat (length data)) data n = Inr (r, n1)"
    and "flush accepted xs n1 = Inr n'"
    by (auto simp: bindr_simps)
  then show ?case
    using "2.IH"[of "(r, n1)" r n1] SendMsg_running by auto
qed simp

lemma serving_packets:
  assumes s: "serving d m handle db s" and p: "ProcessPacket d (mPacketManager s) = Inr pm"
    and f: "flush (\<lambda>_. True) (sent (mUserManager pm)) (mNetwork s) = Inr n"
  obtains s' where "serving d m handle db s'" and "chat_step d m s s'" and "mNetwork s' = n" and "mPacketManager s' = clear_outbox pm"
proof -
  have st: "chat_step d m s (s\<lparr>mNetwork := n, mPacketManager := clear_outbox pm\<rparr>)"
    by (rule chat_step.packets[OF p f])
  then show thesis
    using that[OF _ st] chat_reach.step[OF _ st] s flush_running[OF f] by (simp add: serving_def)
qed

text \<open>One packet to a slot that has nothing queued is handed to the system at once.\<close>

lemma flush_one:
  assumes s: "serving d m handle db s" and i: "i < MAX_CLIENT" and n: "length data < 65536"
    and q: "mSendDataqueue (mClientInfos (mNetwork s) ! i) = []"
  obtains n' where "flush (\<lambda>_. True) [(of_nat i, data)] (mNetwork s) = Inr n'"
    and "posted (mClientInfos n' ! i) = posted (mClientInfos (mNetwork s) ! i) @ [data]"
    and "mSendDataqueue (mClientInfos n' ! i) = [data]" and "completed (mClientInfos n' ! i) = completed (mClientInfos (mNetwork s) ! i)"
proof -
  note sl = serving_slot[OF s i]
  let ?c = "mClientInfos (mNetwork s) ! i"
  let ?n = "(mNetwork s)\<lparr>mClientInfos := (mClientInfos (mNetwork s))[i := ?c\<lparr>mSendDataqueue := [data], posted := posted ?c @ [data]\<rparr>]\<rparr>"
  have "flush (\<lambda>_. True) [(of_nat i, data)] (mNetwork s) = Inr ?n"
    using sl q n by (simp add: IOCP_SendMsg_def GetClientInfo_def ClientInfo_SendMsg_def read_all SendIO_def Let_def)
  then show thesis
    by (rule that) (use sl(1) in simp_all)
qed

lemma first_login:
  fixes s0 :: "('db, 'conn) chat_server"
  assumes i: "i < MAX_CLIENT" and uid: "0 \<notin> set uid" "length uid \<le> MAX_USER_ID_LEN"
    and pw: "0 \<notin> set pw" "length pw \<le> MAX_USER_PW_LEN" and db: "SelectAccount d uid pw db = Some (found, db')"
  shows "\<exists>s :: ('db, 'conn) chat_server. chat_reach d m handle db s
    \<and> posted (mClientInfos (mNetwork s) ! i) = [ack_cells ACK_LOGIN (if found then 30 else 33)]
    \<and> mState (heap (mUserManager (mPacketManager s)) i) = (if found then InLobby else Connected)
    \<and> mUserIDDictionary (mUserManager (mPacketManager s)) uid = (if found then Some (int i) else None)
    \<and> (found \<longrightarrow> mUserID (heap (mUserManager (mPacketManager s)) i) = uid)
    \<and> completed (mClientInfos (mNetwork s) ! i) @ mSendDataqueue (mClientInfos (mNetwork s) ! i)
        = [ack_cells ACK_LOGIN (if found then 30 else 33)]"
proof -
  let ?init = "started handle db :: ('db, 'conn) chat_server" and ?a = "ready_app MAX_CLIENT db chat_rooms"
  let ?c = "system_packet SYS_USER_CONNECT (of_nat i)"
  have init: "mUserManager (mPacketManager ?init) = ?a" "mInComingPacketUserIndex (mPacketManager ?init) = []"
    "mSystemPacketQueue (mPacketManager ?init) = []" "mIsRunProcessThread (mPacketManager ?init)"
    by (simp_all add: started_def PacketManager_Init_def)
  have slot: "mSendDataqueue (mClientInfos (mNetwork ?init) ! i) = []" "posted (mClientInfos (mNetwork ?init) ! i) = []"
    "completed (mClientInfos (mNetwork ?init) ! i) = []"
    using i by (simp_all add: started_def StartServer_def CreateWokerThread_def CreateAccepterThread_def CreateClient_def
        listening_def new_IOCPServer_def ClientInfo_Init_def new_ClientInfo_def)
  obtain s1 :: "('db, 'conn) chat_server" where s1: "serving d m handle db s1"
    and n1: "mClientInfos (mNetwork s1) = mClientInfos (mNetwork ?init)"
    and p1: "mPacketManager s1 = PushSystemPacket ?c (mPacketManager ?init)"
    by (rule serving_connect[OF serving_started i])
  have ok1: "pm_ok (mPacketManager s1)" and lv1: "live (mUserManager (mPacketManager s1)) i"
    using s1 chat_reach_ok[of d m handle db s1] i by (auto simp: serving_def server_ok_def live_def)
  obtain u where c: "ProcessPacket_system d (mPacketManager s1) = Inr ((mPacketManager s1)\<lparr>mSystemPacketQueue := [],
      mUserManager := ?a\<lparr>heap := (heap ?a)(i := u)\<rparr>\<rparr>)"
    and u: "mState u = Connected" "\<not> cleared u" "mUserID u = []" "stream u = []"
    by (rule connect_dispatch[OF ok1 lv1, of "[]" d]) (use init p1 in \<open>auto simp: PushSystemPacket_def\<close>)
  let ?p2 = "(mPacketManager s1)\<lparr>mSystemPacketQueue := [], mUserManager := ?a\<lparr>heap := (heap ?a)(i := u)\<rparr>\<rparr>"
  have "ProcessPacket d (mPacketManager s1) = Inr ?p2"
    using c init p1 by (simp add: ProcessPacket_def ProcessPacket_recv_def PushSystemPacket_def DequePacketData_empty
        empty_PacketInfo_def)
  moreover have "flush (\<lambda>_. True) (sent (mUserManager ?p2)) (mNetwork s1) = Inr (mNetwork s1)"
    by (simp add: ready_app_def)
  ultimately obtain s2 where s2: "serving d m handle db s2" and n2: "mNetwork s2 = mNetwork s1" and p2: "mPacketManager s2 = clear_outbox ?p2"
    by (rule serving_packets[OF s1])
  have h2: "mUserManager (mPacketManager s2) = ?a\<lparr>heap := (heap ?a)(i := u)\<rparr>" "mInComingPacketUserIndex (mPacketManager s2) = []"
    "mSystemPacketQueue (mPacketManager s2) = []" "mIsRunProcessThread (mPacketManager s2)"
    using p1 init by (simp_all add: p2 clear_outbox_def PushSystemPacket_def ready_app_def)
  have ok2: "pm_ok (mPacketManager s2)" and lv2: "live (mUserManager (mPacketManager s2)) i"
    using s2 chat_reach_ok[of d m handle db s2] i by (auto simp: serving_def server_ok_def live_def)
  let ?f = "account_request REQ_LOGIN 0 uid pw"
  have len: "length ?f = 27"
    using length_account_request[of uid pw] uid(2) pw(2) by (simp add: packet_sizes)
  obtain p3 p4 where r: "ReceivePacketData m (of_nat i) 27 (map Some ?f) (mPacketManager s2) = Inr p3"
    and pr: "ProcessPacket_recv d p3 = Inr p4" and out: "sent (mUserManager p4) = [(of_nat i, ack_cells ACK_LOGIN (if found then 30 else 33))]"
    and eff: "if found then mState (heap (mUserManager p4) i) = InLobby \<and> mUserID (heap (mUserManager p4) i) = uid
         \<and> mUserIDDictionary (mUserManager p4) = [uid \<mapsto> int i]
       else mState (heap (mUserManager p4) i) = Connected \<and> mUserIDDictionary (mUserManager p4) = Map.empty"
    using login_received[OF ok2 lv2, of uid pw d found db' m 0] h2 u uid pw db i
    by (auto simp: ready_app_def MAX_CLIENT_def)
  have r': "ReceivePacketData m (of_nat i) (of_nat (length ?f)) (map Some ?f) (mPacketManager s2) = Inr p3"
    using r len by simp
  obtain s3 where s3: "serving d m handle db s3" and n3: "mNetwork s3 = mNetwork s2" and p3: "mPacketManager s3 = p3"
    by (rule serving_receive[OF s2 i _ _ r']) (use len in \<open>auto simp: MAX_SOCKBUF_def\<close>)
  have keep: "mIsRunProcessThread p3" "mSystemPacketQueue p3 = []"
    using r h2(3,4) by (auto simp: ReceivePacketData_def on_app_def EnqueuePacketData_def bindr_simps)
  have ok3: "pm_ok p3"
    using s3 p3 chat_reach_ok[of d m handle db s3] by (auto simp: serving_def server_ok_def)
  have pp: "ProcessPacket d (mPacketManager s3) = Inr p4"
    using keep pr ProcessPacket_recv_ok(3)[OF ok3 pr] p3
    by (simp add: ProcessPacket_def ProcessPacket_system_def DequeSystemPacketData_def empty_PacketInfo_def)
  obtain n4 where fl: "flush (\<lambda>_. True) (sent (mUserManager p4)) (mNetwork s3) = Inr n4"
    and n4: "posted (mClientInfos n4 ! i) = [ack_cells ACK_LOGIN (if found then 30 else 33)]"
      "mSendDataqueue (mClientInfos n4 ! i) = [ack_cells ACK_LOGIN (if found then 30 else 33)]" "completed (mClientInfos n4 ! i) = []"
    using flush_one[OF s3 i, of "ack_cells ACK_LOGIN (if found then 30 else 33)"] slot n1 n2 n3 out
    by (auto simp: packet_sizes)
  obtain s4 where s4: "serving d m handle db s4" "mNetwork s4 = n4" "mPacketManager s4 = clear_outbox p4"
    by (rule serving_packets[OF s3 pp fl])
  then show ?thesis
    using n4 eff by (intro exI[of _ s4]) (auto simp: serving_def clear_outbox_def)
qed

section \<open>Properties\<close>

text \<open>
  C10. One session per user id: in every state the server can reach, through any interleaving of network
  completions and turns of the packet thread, two sessions never hold the same user id.
\<close>

theorem unique_user_ids:
  assumes "chat_reach d m handle db s" and "p < MAX_CLIENT" and "q < MAX_CLIENT"
    and "mUserID (heap (mUserManager (mPacketManager s)) p) = mUserID (heap (mUserManager (mPacketManager s)) q)"
    and "mUserID (heap (mUserManager (mPacketManager s)) p) \<noteq> []"
  shows "p = q"
proof -
  let ?a = "mUserManager (mPacketManager s)"
  have "directory_ok MAX_CLIENT (heap ?a) (mUserIDDictionary ?a)"
    using chat_reach_ok[OF assms(1)] unfolding server_ok_def pm_ok_def app_ok_def by metis
  then show ?thesis
    using assms(2-5) by (metis directory_ok_def of_nat_eq_iff option.inject)
qed

theorem unique_user_ids_witness:
  "\<exists>s :: (account_db, unit) chat_server. chat_reach sample_odbc Disjoint_only (Some 0, 1) init_db s
    \<and> mUserID (heap (mUserManager (mPacketManager s)) 7) = test001
    \<and> (\<forall>q < MAX_CLIENT. q \<noteq> 7 \<longrightarrow> mUserID (heap (mUserManager (mPacketManager s)) q) \<noteq> test001)"
proof -
  obtain db' where db: "SelectAccount sample_odbc test001 test001 init_db = Some (True, db')"
    using sample_login by blast
  obtain s :: "(account_db, unit) chat_server" where r: "chat_reach sample_odbc Disjoint_only (Some 0, 1) init_db s"
    and u: "mUserID (heap (mUserManager (mPacketManager s)) 7) = test001"
    using first_login[OF _ test001_bounds(1,2,1,3) db, of 7 Disjoint_only "(Some 0, 1)"] by (auto simp: MAX_CLIENT_def)
  have "7 = q" if "q < MAX_CLIENT" "mUserID (heap (mUserManager (mPacketManager s)) q) = test001" for q
    using unique_user_ids[OF r, of 7 q] u that by (simp add: MAX_CLIENT_def test001_def)
  then show ?thesis
    using r u by blast
qed

text \<open>
  C13. What a receive does: in every reachable state, for every slot and every piece of at most 256 bytes, the
  piece is appended to the unread bytes of that client and the client is queued for the packet thread, or the
  copy overlaps or writes past the packet buffer; the faults need a backlog of more than 3920 unread bytes
  of that client. The worker threads never index a table out of range.
\<close>

theorem receive_effect:
  assumes r: "chat_reach d m handle db s" and i: "i < MAX_CLIENT" and n: "length bs \<le> MAX_SOCKBUF"
  shows "case ChatServer_OnReceive m' (of_nat i) (of_nat (length bs)) (map Some bs) (mPacketManager s) of
      Inl e \<Rightarrow> e \<in> {OverlappingCopy, OutOfBoundsWrite}
        \<and> 3920 < length (stream (heap (mUserManager (mPacketManager s)) i))
    | Inr s' \<Rightarrow> stream (heap (mUserManager s') i) = stream (heap (mUserManager (mPacketManager s)) i) @ bs
        \<and> mInComingPacketUserIndex s' = mInComingPacketUserIndex (mPacketManager s) @ [of_nat i]"
proof -
  let ?s = "mPacketManager s" and ?a = "mUserManager (mPacketManager s)"
  have ok: "pm_ok ?s" and lv: "live ?a i"
    using chat_reach_ok[OF r] i by (simp_all add: server_ok_def live_def)
  have a: "app_ok ?a"
    using ok by (simp add: pm_ok_def)
  have b: "buffer_ok (heap ?a i)" and n31: "length bs < 2 ^ 31"
    using app_ok_session[OF a lv] n by (simp_all add: session_ok_def MAX_SOCKBUF_def)
  have eq: "ChatServer_OnReceive m' (of_nat i) (of_nat (length bs)) (map Some bs) ?s =
      bindr (SetPacketData m' (of_nat (length bs)) (map Some bs) (heap ?a i)) (\<lambda>u.
        Inr (EnqueuePacketData (of_nat i) (?s\<lparr>mUserManager := ?a\<lparr>heap := (heap ?a)(i := u)\<rparr>\<rparr>)))"
    by (auto simp: ChatServer_OnReceive_def ReceivePacketData_def GetUserByConnIdx_known[OF a lv] on_app_def
        on_user_def bindr_simps split: bindr_split)
  show ?thesis
  proof (cases "SetPacketData m' (of_nat (length bs)) (map Some bs) (heap ?a i)")
    case (Inl e)
    then have "e \<in> {OverlappingCopy, OutOfBoundsWrite}"
      unfolding SetPacketData_eq[OF b n31] by (auto split: if_splits)
    moreover have "\<not> length (stream (heap ?a i)) \<le> 3920"
    proof
      assume bl: "length (stream (heap ?a i)) \<le> 3920"
      show False
        by (rule ReceivePacketData_small[OF ok lv n bl, of m']) (use Inl eq in \<open>simp add: ChatServer_OnReceive_def\<close>)
    qed
    ultimately show ?thesis
      using Inl eq by simp
  next
    case (Inr u)
    then show ?thesis
      using SetPacketData_appends[OF b n31 Inr] eq by (simp add: EnqueuePacketData_def)
  qed
qed

theorem receive_effect_witness:
  "case ChatServer_OnReceive Disjoint_only (of_nat 7) (of_nat (length login_frame)) (map Some login_frame)
      (mPacketManager (started (Some 0, 1) init_db :: (account_db, unit) chat_server)) of
      Inl e \<Rightarrow> False
    | Inr s' \<Rightarrow> stream (heap (mUserManager s') 7) = login_frame \<and> mInComingPacketUserIndex s' = [7]"
proof -
  let ?s = "started (Some 0, 1) init_db :: (account_db, unit) chat_server"
  have st: "stream (heap (mUserManager (mPacketManager ?s)) 7) = []" "mInComingPacketUserIndex (mPacketManager ?s) = []"
    using ready_session_ok(2)[of 7] by (simp_all add: started_def PacketManager_Init_def MAX_CLIENT_def ready_app_def)
  have "7 < MAX_CLIENT" and "length login_frame \<le> MAX_SOCKBUF"
    by (simp_all add: login_frame_def length_account_request packet_sizes MAX_SOCKBUF_def MAX_CLIENT_def)
  moreover have "chat_reach sample_odbc Disjoint_only (Some 0, 1) init_db ?s"
    by (rule reach_started)
  ultimately have "case ChatServer_OnReceive Disjoint_only (of_nat 7) (of_nat (length login_frame)) (map Some login_frame)
      (mPacketManager ?s) of
      Inl e \<Rightarrow> 3920 < length (stream (heap (mUserManager (mPacketManager ?s)) 7))
    | Inr s' \<Rightarrow> stream (heap (mUserManager s') 7) = stream (heap (mUserManager (mPacketManager ?s)) 7) @ login_frame
        \<and> mInComingPacketUserIndex s' = mInComingPacketUserIndex (mPacketManager ?s) @ [of_nat 7]"
    using receive_effect[of sample_odbc Disjoint_only "(Some 0, 1)" init_db ?s 7 login_frame Disjoint_only] by (auto split: sum.splits)
  then show ?thesis
    using st by (auto split: sum.splits)
qed

text \<open>\<open>End\<close> dereferences the Redis manager that nothing creates, before any thread is stopped.\<close>

lemma end_null_deref:
  assumes "chat_reach d m handle db s"
  shows "ChatServer_End s = Inl NullDeref"
  using chat_reach_threads[OF assms] by (simp add: ChatServer_End_def PacketManager_End_def)

end
