(* ===== verification/Config_Loader.thy ===== *)
theory Config_Loader
  imports LHJ_Prelude
begin

text \<open>
  The configuration: \<open>ConfigLoader\<close> (directory \<open>Config/\<close>) and the connection that \<open>AccountDB::Init\<close>
  opens with it. tinyxml2 is a library the program links: an element is the datatype
  \<open>XMLElement\<close> of what the accessors the code calls answer (\<open>Name\<close>, \<open>GetText\<close>, \<open>IntText\<close> and the
  child elements), and loading a file is a parameter. An exception that is thrown leaves the fields that
  were already assigned.

  Shown here: the values every field has after a load that succeeds, when a load succeeds, and
  what the connection to the database depends on.
\<close>

section \<open>Documents\<close>

datatype XMLElement = XMLElement (Name: string) (Text: "string option") (IntText: u32) (Children: "XMLElement list")

text \<open>Loading a file gives the name of an error or the top-level elements.\<close>

type_synonym load_file = "string \<Rightarrow> string + XMLElement list"

definition FirstChildElement :: "string \<Rightarrow> XMLElement list \<Rightarrow> XMLElement option" where
  "FirstChildElement name es = List.find (\<lambda>e. Name e = name) es"

datatype config_error = LoadFail string string | NotFound string | GetTextFail

section \<open>The loader\<close>

record ServerConnectionInfo =
  server_IP :: string
  server_Port :: u16

record DBConnectionInfo =
  db_IP :: string
  db_Port :: u16
  db_ID :: string
  db_Password :: string

record config_loader =
  mChatServerInfo :: ServerConnectionInfo
  mRedisServerInfo :: ServerConnectionInfo
  mAccountDBInfo :: DBConnectionInfo

text \<open>The singleton has static storage: zeros and empty strings.\<close>

definition new_ConfigLoader :: config_loader where
  "new_ConfigLoader = \<lparr>mChatServerInfo = \<lparr>server_IP = [], server_Port = 0\<rparr>,
     mRedisServerInfo = \<lparr>server_IP = [], server_Port = 0\<rparr>,
     mAccountDBInfo = \<lparr>db_IP = [], db_Port = 0, db_ID = [], db_Password = []\<rparr>\<rparr>"

definition IsElementName :: "XMLElement option \<Rightarrow> string \<Rightarrow> bool" where
  "IsElementName ele compareName = (case ele of None \<Rightarrow> False | Some e \<Rightarrow> Name e = compareName)"

definition GetText :: "XMLElement option \<Rightarrow> bool \<Rightarrow> config_error + string" where
  "GetText ele required =
     (case Option.bind ele Text of
        Some t \<Rightarrow> Inr t
      | None \<Rightarrow> if required then Inl GetTextFail else Inr [])"

text \<open>An assignment of a required text: the exception or the rest of the loop.\<close>

definition set_text :: "XMLElement \<Rightarrow> (string \<Rightarrow> 'c) \<Rightarrow> 'c \<Rightarrow> ('c \<Rightarrow> config_error option \<times> 'c) \<Rightarrow> config_error option \<times> 'c" where
  "set_text child assign info k =
     (case GetText (Some child) True of Inl e \<Rightarrow> (Some e, info) | Inr t \<Rightarrow> k (assign t))"

text \<open>The loop over the children of a server's element; the code has it twice.\<close>

fun load_server :: "XMLElement list \<Rightarrow> ServerConnectionInfo \<Rightarrow> config_error option \<times> ServerConnectionInfo" where
  "load_server [] info = (None, info)"
| "load_server (child # rest) info =
     (if IsElementName (Some child) ''IP'' then set_text child (\<lambda>t. info\<lparr>server_IP := t\<rparr>) info (load_server rest)
      else if IsElementName (Some child) ''Port'' then load_server rest (info\<lparr>server_Port := ucast (IntText child)\<rparr>)
      else load_server rest info)"

fun load_db :: "XMLElement list \<Rightarrow> DBConnectionInfo \<Rightarrow> config_error option \<times> DBConnectionInfo" where
  "load_db [] info = (None, info)"
| "load_db (child # rest) info =
     (if IsElementName (Some child) ''IP'' then set_text child (\<lambda>t. info\<lparr>db_IP := t\<rparr>) info (load_db rest)
      else if IsElementName (Some child) ''Port'' then load_db rest (info\<lparr>db_Port := ucast (IntText child)\<rparr>)
      else if IsElementName (Some child) ''ID'' then set_text child (\<lambda>t. info\<lparr>db_ID := t\<rparr>) info (load_db rest)
      else if IsElementName (Some child) ''Password''
        then set_text child (\<lambda>t. info\<lparr>db_Password := t\<rparr>) info (load_db rest)
      else load_db rest info)"

definition LoadNetworkConfig :: "load_file \<Rightarrow> string \<Rightarrow> config_loader \<Rightarrow> (config_error option \<times> config_loader) result" where
  "LoadNetworkConfig load_file configPath c =
     (case load_file configPath of
        Inl err \<Rightarrow> Inr (Some (LoadFail configPath err), c)
      | Inr doc \<Rightarrow>
     (case FirstChildElement ''Config'' doc of
        None \<Rightarrow> Inl NullDeref
      | Some root \<Rightarrow> Inr
     (case FirstChildElement ''ChatServer'' (Children root) of
        None \<Rightarrow> (Some (NotFound ''chatServer''), c)
      | Some Server \<Rightarrow>
     (case load_server (Children Server) (mChatServerInfo c) of (ex, info) \<Rightarrow>
      let c1 = c\<lparr>mChatServerInfo := info\<rparr> in
      if ex \<noteq> None then (ex, c1) else
     (case FirstChildElement ''RedisServer'' (Children root) of
        None \<Rightarrow> (Some (NotFound ''RedisServer''), c1)
      | Some Server \<Rightarrow>
     (case load_server (Children Server) (mRedisServerInfo c1) of (ex, info) \<Rightarrow>
      let c2 = c1\<lparr>mRedisServerInfo := info\<rparr> in
      if ex \<noteq> None then (ex, c2) else
     (case FirstChildElement ''AccountDB'' (Children root) of
        None \<Rightarrow> (Some (NotFound ''AccountDB''), c2)
      | Some Server \<Rightarrow>
     (case load_db (Children Server) (mAccountDBInfo c2) of (ex, info) \<Rightarrow>
        (ex, c2\<lparr>mAccountDBInfo := info\<rparr>)))))))))"

section \<open>What a section says\<close>

text \<open>The last element of a name decides; without one the field keeps its value.\<close>

definition last_named :: "string \<Rightarrow> XMLElement list \<Rightarrow> XMLElement option" where
  "last_named n es = List.find (\<lambda>e. Name e = n) (rev es)"

definition text_of :: "string \<Rightarrow> XMLElement list \<Rightarrow> string \<Rightarrow> string" where
  "text_of n es t = (case last_named n es of None \<Rightarrow> t | Some e \<Rightarrow> the (Text e))"

definition port_of :: "XMLElement list \<Rightarrow> u16 \<Rightarrow> u16" where
  "port_of es p = (case last_named ''Port'' es of None \<Rightarrow> p | Some e \<Rightarrow> ucast (IntText e))"

definition texts_present :: "string set \<Rightarrow> XMLElement list \<Rightarrow> bool" where
  "texts_present ns es \<longleftrightarrow> (\<forall>e \<in> set es. Name e \<in> ns \<longrightarrow> Text e \<noteq> None)"

definition server_fields :: "XMLElement list \<Rightarrow> ServerConnectionInfo \<Rightarrow> ServerConnectionInfo" where
  "server_fields es info = \<lparr>server_IP = text_of ''IP'' es (server_IP info), server_Port = port_of es (server_Port info)\<rparr>"

definition db_fields :: "XMLElement list \<Rightarrow> DBConnectionInfo \<Rightarrow> DBConnectionInfo" where
  "db_fields es info = \<lparr>db_IP = text_of ''IP'' es (db_IP info), db_Port = port_of es (db_Port info),
     db_ID = text_of ''ID'' es (db_ID info), db_Password = text_of ''Password'' es (db_Password info)\<rparr>"

lemma find_snoc: "List.find P (xs @ [x]) = (case List.find P xs of None \<Rightarrow> if P x then Some x else None | Some y \<Rightarrow> Some y)"
  by (induction xs) auto

lemma fields_Cons:
  "text_of n (e # es) t = text_of n es (if Name e = n then the (Text e) else t)"
  "port_of (e # es) p = port_of es (if Name e = ''Port'' then ucast (IntText e) else p)"
  "texts_present ns (e # es) \<longleftrightarrow> (Name e \<in> ns \<longrightarrow> Text e \<noteq> None) \<and> texts_present ns es"
  by (auto simp: text_of_def port_of_def texts_present_def last_named_def find_snoc split: option.splits)

lemma fields_Nil:
  "text_of n [] t = t" "port_of [] p = p" "texts_present ns []"
  by (simp_all add: text_of_def port_of_def texts_present_def last_named_def)

lemma set_text_eq:
  "set_text child assign info k = (case Text child of None \<Rightarrow> (Some GetTextFail, info) | Some t \<Rightarrow> k (assign t))"
  by (simp add: set_text_def GetText_def split: option.splits)

lemma load_server_ok: "texts_present {''IP''} es \<Longrightarrow> load_server es info = (None, server_fields es info)"
  by (induction es info rule: load_server.induct)
    (auto simp: fields_Nil fields_Cons set_text_eq IsElementName_def server_fields_def split: option.splits)

lemma load_server_fail: "\<not> texts_present {''IP''} es \<Longrightarrow> fst (load_server es info) = Some GetTextFail"
  by (induction es info rule: load_server.induct)
    (auto simp: fields_Nil fields_Cons set_text_eq IsElementName_def split: option.splits)

lemma load_db_ok: "texts_present {''IP'', ''ID'', ''Password''} es \<Longrightarrow> load_db es info = (None, db_fields es info)"
  by (induction es info rule: load_db.induct)
    (auto simp: fields_Nil fields_Cons set_text_eq IsElementName_def db_fields_def split: option.splits)

lemma load_db_fail: "\<not> texts_present {''IP'', ''ID'', ''Password''} es \<Longrightarrow> fst (load_db es info) = Some GetTextFail"
  by (induction es info rule: load_db.induct)
    (auto simp: fields_Nil fields_Cons set_text_eq IsElementName_def split: option.splits)

lemma load_server_None [simp]: "load_server es info = (None, i) \<longleftrightarrow> texts_present {''IP''} es \<and> i = server_fields es info"
  using load_server_ok[of es info] load_server_fail[of es info] by (cases "texts_present {''IP''} es") auto

lemma load_db_None [simp]:
  "load_db es info = (None, i) \<longleftrightarrow> texts_present {''IP'', ''ID'', ''Password''} es \<and> i = db_fields es info"
  using load_db_ok[of es info] load_db_fail[of es info]
  by (cases "texts_present {''IP'', ''ID'', ''Password''} es") auto

lemma load_server_outcome: "load_server es info = (r, i) \<Longrightarrow> r = (if texts_present {''IP''} es then None else Some GetTextFail)"
  using load_server_fail[of es info] load_server_ok[of es info] by auto

lemma load_db_outcome:
  "load_db es info = (r, i) \<Longrightarrow> r = (if texts_present {''IP'', ''ID'', ''Password''} es then None else Some GetTextFail)"
  using load_db_fail[of es info] load_db_ok[of es info] by auto

text \<open>What can be wrong with a section, and the first problem of several.\<close>

definition section_problem :: "XMLElement \<Rightarrow> string \<Rightarrow> string \<Rightarrow> string set \<Rightarrow> config_error option" where
  "section_problem root name label required =
     (case FirstChildElement name (Children root) of
        None \<Rightarrow> Some (NotFound label)
      | Some s \<Rightarrow> if texts_present required (Children s) then None else Some GetTextFail)"

definition first_problem :: "config_error option list \<Rightarrow> config_error option" where
  "first_problem ps = (case filter (\<lambda>p. p \<noteq> None) ps of [] \<Rightarrow> None | p # _ \<Rightarrow> p)"

section \<open>The connection\<close>

fun decimal :: "nat \<Rightarrow> string" where
  "decimal n = (if n < 10 then [] else decimal (n div 10)) @ [char_of (48 + n mod 10)]"

declare decimal.simps [simp del]

definition connection_string :: "DBConnectionInfo \<Rightarrow> string" where
  "connection_string info = ''DRIVER={SQL Server};'' @ ''SERVER='' @ db_IP info @ '', '' @ decimal (unat (db_Port info))
     @ '';DATABASE=AccountDB;UID='' @ db_ID info @ '';PWD='' @ db_Password info"

text \<open>The handles of the object; the statement handle is only assigned at the end. The driver's
  functions are arguments, its return codes are the numbers of ODBC: 0 is \<open>SQL_SUCCESS\<close>, 1 is
  \<open>SQL_SUCCESS_WITH_INFO\<close>.\<close>

record account_handles =
  henv :: nat
  hdbc :: nat
  hstmt :: "nat option"

definition AccountDB_Init :: "nat \<Rightarrow> nat \<Rightarrow> (nat \<Rightarrow> string \<Rightarrow> int) \<Rightarrow> nat \<Rightarrow> DBConnectionInfo \<Rightarrow> account_handles" where
  "AccountDB_Init env dbc connect stmt info =
     (let h = \<lparr>henv = env, hdbc = dbc, hstmt = None\<rparr>; ret = connect dbc (connection_string info) in
      if ret \<noteq> 1 then h else h\<lparr>hstmt := Some stmt\<rparr>)"

section \<open>Properties\<close>

text \<open>
  C37. A load that succeeds: \<open>LoadNetworkConfig\<close> returns normally exactly when the file loads, has a
  \<open>Config\<close> element with the three sections, and every address, id and password element in them has a text;
  then each field is the text (the port: the number, modulo 65536) of the last element of its name in its
  section, or what it was before, and elements of other names change nothing.
\<close>

theorem config_loaded:
  "LoadNetworkConfig lf path c = Inr (None, c') \<longleftrightarrow>
    (\<exists>doc root chat redis db. lf path = Inr doc \<and> FirstChildElement ''Config'' doc = Some root
      \<and> FirstChildElement ''ChatServer'' (Children root) = Some chat
      \<and> FirstChildElement ''RedisServer'' (Children root) = Some redis
      \<and> FirstChildElement ''AccountDB'' (Children root) = Some db
      \<and> texts_present {''IP''} (Children chat) \<and> texts_present {''IP''} (Children redis)
      \<and> texts_present {''IP'', ''ID'', ''Password''} (Children db)
      \<and> c' = \<lparr>mChatServerInfo = server_fields (Children chat) (mChatServerInfo c),
              mRedisServerInfo = server_fields (Children redis) (mRedisServerInfo c),
              mAccountDBInfo = db_fields (Children db) (mAccountDBInfo c)\<rparr>)"
    (is "?l \<longleftrightarrow> ?r")
proof
  show "?l \<Longrightarrow> ?r"
    by (cases c; cases c') (auto simp: LoadNetworkConfig_def Let_def split: sum.splits option.splits prod.splits if_splits)
  show "?r \<Longrightarrow> ?l"
    by (cases c) (auto simp: LoadNetworkConfig_def load_server_ok load_db_ok)
qed

text \<open>
  A load that fails: the exception is the first problem in the order file, chat server, redis server, account
  database, where a section's problem is that it is missing or lacks a required text. A document without a
  \<open>Config\<close> element is not an exception but a null dereference, which the code does not test for.
\<close>

lemma config_failures:
  "map_sum id fst (LoadNetworkConfig lf path c) =
     (case lf path of
        Inl err \<Rightarrow> Inr (Some (LoadFail path err))
      | Inr doc \<Rightarrow>
          (case FirstChildElement ''Config'' doc of
             None \<Rightarrow> Inl NullDeref
           | Some root \<Rightarrow> Inr (first_problem
               [section_problem root ''ChatServer'' ''chatServer'' {''IP''},
                section_problem root ''RedisServer'' ''RedisServer'' {''IP''},
                section_problem root ''AccountDB'' ''AccountDB'' {''IP'', ''ID'', ''Password''}])))"
  by (auto simp: LoadNetworkConfig_def Let_def section_problem_def first_problem_def load_server_fail load_db_fail
      dest!: load_server_outcome load_db_outcome split: sum.splits option.splits prod.splits)

text \<open>The repository's \<open>Config.xml\<close>.\<close>

definition leaf :: "string \<Rightarrow> string \<Rightarrow> nat \<Rightarrow> XMLElement" where
  "leaf n t k = XMLElement n (Some t) (of_nat k) []"

definition config_xml :: "XMLElement list" where
  "config_xml = [XMLElement ''Config'' None 0
     [XMLElement ''ChatServer'' None 0 [leaf ''IP'' ''127.0.0.1'' 127, leaf ''Port'' ''5000'' 5000],
      XMLElement ''RedisServer'' None 0 [leaf ''IP'' ''127.0.0.1'' 127, leaf ''Port'' ''6379'' 6379],
      XMLElement ''AccountDB'' None 0 [leaf ''IP'' ''127.0.0.1'' 127, leaf ''Port'' ''5001'' 5001,
        leaf ''ID'' ''test'' 0, leaf ''Password'' ''1234'' 1234]]]"

definition config_of_repository :: config_loader where
  "config_of_repository = \<lparr>mChatServerInfo = \<lparr>server_IP = ''127.0.0.1'', server_Port = 5000\<rparr>,
     mRedisServerInfo = \<lparr>server_IP = ''127.0.0.1'', server_Port = 6379\<rparr>,
     mAccountDBInfo = \<lparr>db_IP = ''127.0.0.1'', db_Port = 5001, db_ID = ''test'', db_Password = ''1234''\<rparr>\<rparr>"

lemma config_xml_loads:
  "LoadNetworkConfig (\<lambda>_. Inr config_xml) path new_ConfigLoader = Inr (None, config_of_repository)"
  by (simp add: LoadNetworkConfig_def FirstChildElement_def config_xml_def leaf_def new_ConfigLoader_def
      config_of_repository_def set_text_def GetText_def IsElementName_def)

text \<open>
  The database connection: with the repository's \<open>Config.xml\<close>, \<open>AccountDB::Init\<close> connects to the
  database \<open>AccountDB\<close> (the scripts create \<open>Account\<close>), and it has a statement handle afterwards exactly when the
  driver answers 1: an error leaves the handle unassigned, and so does the plain success code 0.
\<close>

lemma account_connection:
  "\<exists>cfg. LoadNetworkConfig (\<lambda>_. Inr config_xml) ''../Config.xml'' new_ConfigLoader = Inr (None, cfg)
    \<and> hstmt (AccountDB_Init env dbc connect stmt (mAccountDBInfo cfg)) =
        (if connect dbc ''DRIVER={SQL Server};SERVER=127.0.0.1, 5001;DATABASE=AccountDB;UID=test;PWD=1234'' = 1
         then Some stmt else None)"
proof -
  have "connection_string (mAccountDBInfo config_of_repository) =
      ''DRIVER={SQL Server};SERVER=127.0.0.1, 5001;DATABASE=AccountDB;UID=test;PWD=1234''"
    by (simp add: connection_string_def config_of_repository_def decimal.simps char_of_def bit_iff_odd)
  then show ?thesis
    using config_xml_loads by (auto simp: AccountDB_Init_def Let_def)
qed

end
