(* ===== verification/Server_Main.thy ===== *)
theory Server_Main
  imports Chat_Server Config_Loader
begin

text \<open>
  The program: \<open>main\<close> (\<open>main.cpp\<close>) from the configuration file to the waiting loop. The system calls of the
  set-up and the database driver answer through the record \<open>environment\<close>.

  Shown here: with a configuration that loads, the program always ends up serving, whatever the
  system calls answered, so the states of the step relation are the states of the program.
\<close>

record environment =
  WSAStartup :: int
  WSASocket :: "nat option"
  bind_port :: "u16 \<Rightarrow> int"
  listen_backlog :: int
  port_handle :: u64
  socket_handle :: u64

datatype ('db, 'conn) outcome =
    Terminated config_error
  | Returned "('db, 'conn) chat_server"
  | Serving "('db, 'conn) chat_server"

text \<open>\<open>main\<close> up to its waiting loop. The results of \<open>InitSocket\<close> and \<open>BindandListen\<close> are not looked at, and
  an exception of the loader is not caught.\<close>

definition main :: "load_file \<Rightarrow> environment \<Rightarrow> 'db \<Rightarrow> ('db, 'conn) outcome result" where
  "main load_file e db =
     bindr (LoadNetworkConfig load_file ''../Config.xml'' new_ConfigLoader) (\<lambda>(ex, config).
       case ex of
         Some err \<Rightarrow> Inr (Terminated err)
       | None \<Rightarrow>
           let n1 = snd (InitSocket (WSAStartup e) (WSASocket e) new_IOCPServer);
               port = server_Port (mChatServerInfo config);
               n2 = snd (BindandListen (bind_port e port) (listen_backlog e) (port_handle e) (socket_handle e) n1)
           in bindr (ChatServer_Init MAX_CLIENT db n2) (\<lambda>s.
                case ChatServer_Run MAX_CLIENT s of
                  (run, s1) \<Rightarrow>
                    if \<not> run then Inr (Returned (s1\<lparr>mNetwork := DestroyThread (mNetwork s1)\<rparr>))
                    else Inr (Serving s1)))"

text \<open>The waiting loop. After the end of the input \<open>getline\<close> fails and leaves an empty string, for ever.\<close>

partial_function (option) wait_quit :: "string list \<Rightarrow> string list option" where
  "wait_quit input =
     (case input of
        [] \<Rightarrow> wait_quit []
      | inputCmd # rest \<Rightarrow> if inputCmd = ''quit'' then Some rest else wait_quit rest)"

text \<open>The rest of \<open>main\<close>: the network threads are joined, then the server object is destroyed.\<close>

definition shut_down :: "('db, 'conn) chat_server \<Rightarrow> (pointers \<times> nat list) result" where
  "shut_down s =
     (let s1 = s\<lparr>mNetwork := DestroyThread (mNetwork s)\<rparr> in ChatServer_delete (mPacketManager s1) init_pointers)"

definition main_end :: "string list \<Rightarrow> ('db, 'conn) chat_server \<Rightarrow> (pointers \<times> nat list) result option" where
  "main_end input s = (case wait_quit input of None \<Rightarrow> None | Some _ \<Rightarrow> Some (shut_down s))"

lemma wait_quit_some: "wait_quit input = Some r \<Longrightarrow> ''quit'' \<in> set input"
  by (rule wait_quit.raw_induct[where P = "\<lambda>i _. ''quit'' \<in> set i"]) (fastforce split: list.splits if_splits)

lemma wait_quit_ends: "wait_quit input = None \<longleftrightarrow> ''quit'' \<notin> set input"
proof (induction input)
  case Nil
  show ?case
    using wait_quit_some[of "[]"] by (cases "wait_quit []") auto
next
  case (Cons l ls)
  then show ?case
    by (subst wait_quit.simps) simp
qed

text \<open>The socket and the port the server has after the set-up.\<close>

definition set_up :: "environment \<Rightarrow> u16 \<Rightarrow> nat option \<times> u64" where
  "set_up e port =
     (if WSAStartup e \<noteq> 0 then None else WSASocket e,
      if bind_port e port \<noteq> 0 \<or> listen_backlog e \<noteq> 0 then INVALID_HANDLE_VALUE else port_handle e)"

lemma set_up_network:
  "snd (BindandListen (bind_port e port) (listen_backlog e) (port_handle e) (socket_handle e)
     (snd (InitSocket (WSAStartup e) (WSASocket e) new_IOCPServer))) = listening (set_up e port)"
  by (simp add: BindandListen_def InitSocket_def listening_def set_up_def new_IOCPServer_def Let_def)

lemma ChatServer_starts:
  obtains s0 :: "('db, 'conn) chat_server" where "ChatServer_Init MAX_CLIENT db (listening h) = Inr s0"
    and "ChatServer_Run MAX_CLIENT s0 = (True, started h db)"
proof -
  obtain s0 :: "('db, 'conn) chat_server" where i: "ChatServer_Init MAX_CLIENT db (listening h) = Inr s0"
    by (auto simp: ChatServer_Init_def UserManager_Init_def init_pool_eq)
  obtain b s where r: "ChatServer_Run MAX_CLIENT s0 = (b, s)"
    by fastforce
  have "b = True"
    using r by (auto simp: ChatServer_Run_def PacketManager_Run_def Let_def split: prod.splits)
  then show thesis
    using that i r started_server[OF i r] by simp
qed

section \<open>Properties\<close>

text \<open>
  C38. The program serves whatever the set-up did: when the configuration loads, \<open>main\<close> reaches its waiting
  loop, and the server is then a reachable state of the step relation with the socket and the port the set-up
  left, also when \<open>WSAStartup\<close>, \<open>bind\<close>, \<open>listen\<close> or the completion port failed; when the loader
  throws, \<open>main\<close> ends with that exception.
\<close>

theorem main_serves:
  assumes "LoadNetworkConfig lf ''../Config.xml'' new_ConfigLoader = Inr (ex, config)"
  shows "case ex of
      Some err \<Rightarrow> (main lf e db :: ('db, 'conn) outcome result) = Inr (Terminated err)
    | None \<Rightarrow> \<exists>s :: ('db, 'conn) chat_server. main lf e db = Inr (Serving s)
        \<and> chat_reach d m (set_up e (server_Port (mChatServerInfo config))) db s"
proof -
  let ?h = "set_up e (server_Port (mChatServerInfo config))"
  obtain s0 :: "('db, 'conn) chat_server" where s0: "ChatServer_Init MAX_CLIENT db (listening ?h) = Inr s0"
      "ChatServer_Run MAX_CLIENT s0 = (True, started ?h db)"
    by (rule ChatServer_starts)
  have "chat_reach d m ?h db (started ?h db :: ('db, 'conn) chat_server)"
    by (rule reach_started)
  then show ?thesis
    using assms s0 by (auto simp: main_def set_up_network split: option.splits)
qed

theorem main_serves_witness:
  "\<exists>s :: (account_db, unit) chat_server.
     main (\<lambda>_. Inr config_xml) \<lparr>WSAStartup = 0, WSASocket = Some 3, bind_port = (\<lambda>p. if p = 5000 then -1 else 0),
         listen_backlog = 0, port_handle = 8, socket_handle = 8\<rparr> init_db = Inr (Serving s)
     \<and> chat_reach sample_odbc Disjoint_only (Some 3, INVALID_HANDLE_VALUE) init_db s"
  using main_serves[OF config_xml_loads, where d = sample_odbc and m = Disjoint_only and db = init_db
      and e = "\<lparr>WSAStartup = 0, WSASocket = Some 3, bind_port = (\<lambda>p. if p = 5000 then -1 else 0),
         listen_backlog = 0, port_handle = 8, socket_handle = 8\<rparr>"]
  by (simp add: set_up_def config_of_repository_def)

text \<open>
  C39. The program never ends cleanly: without a line \<open>quit\<close> in its input it waits for ever, also after the end
  of the input; with one, \<open>main\<close> stops the network and destroys the server, whose packet thread nobody has
  joined, which terminates the process. \<open>End\<close>, which would join it, faults before it gets there.
\<close>

theorem no_clean_end:
  assumes "chat_reach d m handle db s"
  shows "main_end input s = (if ''quit'' \<in> set input then Some (Inl StdTerminate) else None) \<and> ChatServer_End s = Inl NullDeref"
proof -
  have "shut_down s = Inl StdTerminate"
    using chat_reach_threads[OF assms]
    by (simp add: shut_down_def ChatServer_delete_def init_pointers_def PacketManager_delete_def)
  then have "main_end input s = (if ''quit'' \<in> set input then Some (Inl StdTerminate) else None)"
    using wait_quit_ends[of input] by (auto simp: main_end_def split: option.splits)
  then show ?thesis
    using end_null_deref[OF assms] by simp
qed

theorem no_clean_end_witness:
  "main_end [''help'', ''quit''] (started (Some 0, 1) init_db :: (account_db, unit) chat_server) = Some (Inl StdTerminate)"
proof -
  have "chat_reach sample_odbc Disjoint_only (Some 0, 1) init_db (started (Some 0, 1) init_db :: (account_db, unit) chat_server)"
    by (rule reach_started)
  from no_clean_end[OF this, of "[''help'', ''quit'']"] show ?thesis
    by simp
qed

end
