(* ===== verification/Handler_Faults.thy ===== *)
theory Handler_Faults
  imports Protocol_Refinement
begin

text \<open>
  How the packet thread can fail. In a well-formed state a turn either returns or ends in one of five faults: a
  null pointer, a read or a write outside an object, a read of an indeterminate byte, or a result set that never
  ends. The other faults of the model are excluded: no table is indexed out of range, no empty function
  object is called and no empty queue is read.
\<close>

section \<open>Faults of a computation\<close>

definition faults_in :: "fault set \<Rightarrow> 'a result \<Rightarrow> bool" where
  "faults_in F r \<longleftrightarrow> (\<forall>e. r = Inl e \<longrightarrow> e \<in> F)"

named_theorems fault_rules \<open>faults of the program's operations\<close>

lemma faults_in_simps [simp]: "faults_in F (Inr x)" "faults_in F (Inl e) \<longleftrightarrow> e \<in> F"
  by (simp_all add: faults_in_def)

lemma faults_in_bindr [intro]:
  assumes "faults_in F r" and "\<And>x. r = Inr x \<Longrightarrow> faults_in F (f x)"
  shows "faults_in F (bindr r f)"
  using assms by (cases r) auto

definition handler_faults :: "fault set" where
  "handler_faults = {NullDeref, OutOfBoundsRead, OutOfBoundsWrite, UninitRead, NoReturn}"

lemma handler_faults_sel [simp]:
  "NullDeref \<in> handler_faults" "OutOfBoundsRead \<in> handler_faults" "OutOfBoundsWrite \<in> handler_faults"
  "UninitRead \<in> handler_faults" "NoReturn \<in> handler_faults"
  by (simp_all add: handler_faults_def)

lemma load_faults [fault_rules]: "faults_in handler_faults (load cs)"
  by (induction cs rule: load.induct) auto

lemma cstr_faults [fault_rules]: "faults_in handler_faults (cstr cs)"
  by (induction cs rule: cstr.induct) auto

lemma read_faults [fault_rules]:
  "faults_in handler_faults (read_cells off n mem)" "faults_in handler_faults (read_u32 off mem)"
  "faults_in handler_faults (read_string off mem)"
  using load_faults cstr_faults by (auto simp: read_cells_def read_u32_def read_string_def intro!: faults_in_bindr)

lemma with_ptr_faults [fault_rules]:
  "(\<And>ptr. faults_in handler_faults (f ptr)) \<Longrightarrow> faults_in handler_faults (with_ptr q f)"
  by (cases q) auto

lemma send_ack_faults [fault_rules]: "session_ok p (heap a p) \<Longrightarrow> faults_in handler_faults (send_ack p c pid rc a)"
  by (simp add: send_ack_eq)

lemma send_to_faults [fault_rules]: "session_ok p (heap a p) \<Longrightarrow> faults_in handler_faults (send_to p c n data a)"
  using read_faults(1)
  by (auto simp: send_to_def session_ok_def send_call_def intro!: faults_in_bindr)

section \<open>Handlers\<close>

lemma CreateAccount_faults [fault_rules]:
  assumes "session_ok p (heap a p)"
  shows "faults_in handler_faults (ProcessCreateAccount d p c n q a)"
  using assms by (auto simp: ProcessCreateAccount_def UserManager_CreateAccount_def split: prod.splits
      intro!: with_ptr_faults faults_in_bindr read_faults send_ack_faults)

lemma CheckLoginable_faults [fault_rules]:
  assumes "app_ok a" and "live a p"
  shows "faults_in handler_faults (CheckLoginable d (of_nat p) uid pw a)"
proof -
  have idx: "sint (of_nat p :: u32) = int p"
    using live_index[OF assms] by simp
  have "faults_in handler_faults (AddUser uid (int p) (a\<lparr>accounts := db\<rparr>))" if "FindUserIndexByID uid a = -1" for db
    by (rule AddUser_new[of "a\<lparr>accounts := db\<rparr>" p uid])
      (use assms that FindUserIndexByID_none[OF assms(1), of uid] in auto)
  then show ?thesis
    by (auto simp: CheckLoginable_def idx Let_def split: option.splits intro!: faults_in_bindr)
qed

lemma Login_faults [fault_rules]:
  assumes ok: "chat_ok a" and lv: "live a p"
  shows "faults_in handler_faults (ProcessLogin d p (of_nat p) n q a)"
proof -
  note ok' = chat_okD[OF ok]
  have s: "session_ok p (heap a p)"
    using app_ok_session[OF ok'(1) lv] .
  have tail: "faults_in handler_faults
      (bindr (if result_code rc = result_code LOGIN_SUCCESS then on_user p (SetLogin uid) a1 else Inr a1) (send_ack p (of_nat p) ACK_LOGIN rc))"
    if l: "CheckLoginable d (of_nat p) uid pw a = Inr (rc, a1)" for rc a1 uid pw
    using ok'(1) lv ok'(6) l
  proof (cases rule: CheckLoginable_effect)
    case already
    then show ?thesis
      using s by (simp add: send_ack_eq)
  next
    case (wrong db)
    then show ?thesis
      using s by (simp add: send_ack_eq)
  next
    case (accepted db u)
    obtain u' where "ChangeState InLobby u = Inr u'" "session_ok p u'"
      by (rule session_ChangeState[OF accepted(5), of InLobby]) auto
    then show ?thesis
      using accepted(1,4) by (simp add: on_user_def SetLogin_def send_ack_eq)
  qed
  have "faults_in handler_faults (bindr (CheckLoginable d (of_nat p) uid pw a) (\<lambda>(rc, a1).
      bindr (if result_code rc = result_code LOGIN_SUCCESS then on_user p (SetLogin uid) a1 else Inr a1) (send_ack p (of_nat p) ACK_LOGIN rc)))" for uid pw
  proof (rule faults_in_bindr[OF CheckLoginable_faults[OF ok'(1) lv]])
    fix x
    assume x: "CheckLoginable d (of_nat p) uid pw a = Inr x"
    obtain rc a1 where "x = (rc, a1)"
      by (cases x)
    then show "faults_in handler_faults (case x of (rc, a1) \<Rightarrow>
        bindr (if result_code rc = result_code LOGIN_SUCCESS then on_user p (SetLogin uid) a1 else Inr a1) (send_ack p (of_nat p) ACK_LOGIN rc))"
      using tail x by simp
  qed
  then show ?thesis
    unfolding ProcessLogin_def by (cases "REQ_LOGIN_PACKET_SIZE = unat n") (auto intro!: with_ptr_faults faults_in_bindr[OF read_faults(3)])
qed

lemma LobbyInfo_faults [fault_rules]:
  assumes "session_ok p (heap a p)"
  shows "faults_in handler_faults (ProcessLobbyInfo p c n q a)"
  using assms by (auto simp: ProcessLobbyInfo_def send_ack_eq Let_def intro!: send_to_faults)

lemma EnterRoom_faults [fault_rules]:
  assumes ok: "chat_ok a" and lv: "live a p"
  shows "faults_in handler_faults (ProcessEnterRoom p (of_nat p) n q a)"
proof -
  note ok' = chat_okD[OF ok]
  have "faults_in handler_faults (bindr (User_EnterRoom p k a) (\<lambda>(rc, a1). send_ack p (of_nat p) ACK_ROOM_ENTER rc a1))" for k
  proof (cases "RoomManager_EnterUser (heap a) k p (rooms a) (sent a)")
    case (Inl e)
    then have "e = OutOfBoundsWrite"
      using RoomManager_EnterUser_table[OF ok'(3,2), of "heap a" k p "sent a"] by (auto simp: Let_def split: if_splits)
    then show ?thesis
      using Inl by (simp add: User_EnterRoom_def)
  next
    case (Inr x)
    obtain rc rm out where x: "x = (rc, rm, out)"
      by (cases x)
    obtain u where "User_EnterRoom p k a = Inr (rc, a\<lparr>rooms := rm, sent := out, heap := (heap a)(p := u)\<rparr>)" "session_ok p u"
      by (rule User_EnterRoom_ok[OF ok'(1) lv Inr[unfolded x]]) auto
    then show ?thesis
      by (simp add: send_ack_eq)
  qed
  then show ?thesis
    unfolding ProcessEnterRoom_def by (intro with_ptr_faults faults_in_bindr[OF read_faults(2)])
qed

lemma User_GetRoom_table:
  assumes "chat_ok a"
  obtains (missing) "User_GetRoom p a = Inr None"
    | (room) i where "User_GetRoom p a = Inr (Some i)" and "SendPacketFunc (mRoomList (rooms a) ! i) = Some ChatServer_SendMsg"
proof (cases "in_table (mRoomIndex (heap a p))")
  case True
  note n = shape_limit(1)[OF chat_okD(3,2)[OF assms] True]
  show ?thesis
    using User_GetRoom_numbered[OF n] room_numbered_send[OF n] by (intro room) auto
next
  case False
  then show ?thesis
    using not_in_table[OF chat_okD(3,2)[OF assms]] by (intro missing) (simp add: User_GetRoom_def)
qed

lemma RoomInfo_faults [fault_rules]:
  assumes "chat_ok a" and "session_ok p (heap a p)"
  shows "faults_in handler_faults (ProcessRoomInfo p c n q a)"
  using assms(1)
  by (cases rule: User_GetRoom_table[where p = p])
    (auto simp: ProcessRoomInfo_def Let_def intro!: send_to_faults assms(2))

lemma LeaveRoom_faults [fault_rules]:
  assumes ok: "chat_ok a" and lv: "live a p"
  shows "faults_in handler_faults (ProcessLeaveRoom p (of_nat p) n q a)"
proof (cases "RoomManager_LeaveUser (heap a) (mRoomIndex (heap a p)) p (rooms a) (sent a)")
  case (Inl e)
  then have "e = OutOfBoundsWrite"
    using RoomManager_LeaveUser_table[OF chat_okD(3,2)[OF ok], of "heap a" "mRoomIndex (heap a p)" p "sent a"]
    by (auto simp: Let_def split: if_splits)
  then show ?thesis
    using Inl by (simp add: ProcessLeaveRoom_def User_LeaveRoom_def)
next
  case (Inr x)
  obtain rc rm out where x: "x = (rc, rm, out)"
    by (cases x)
  obtain u where "User_LeaveRoom p a = Inr (rc, a\<lparr>rooms := rm, sent := out, heap := (heap a)(p := u)\<rparr>)" "session_ok p u"
    by (rule User_LeaveRoom_ok[OF chat_okD(1)[OF ok] lv Inr[unfolded x]]) auto
  then show ?thesis
    by (simp add: ProcessLeaveRoom_def send_ack_eq)
qed

lemma Chat_faults [fault_rules]:
  assumes "chat_ok a" and "session_ok p (heap a p)"
  shows "faults_in handler_faults (ProcessRoomChatMessage p c n q a)"
  using assms(1)
proof (cases rule: User_GetRoom_table[where p = p])
  case missing
  then show ?thesis
    using assms(2) by (simp add: ProcessRoomChatMessage_def send_ack_eq)
next
  case (room i)
  then show ?thesis
    using assms(2)
    by (auto simp: ProcessRoomChatMessage_def send_ack_eq NotifyChat_eq[OF room(2)] intro!: with_ptr_faults faults_in_bindr)
qed

lemma run_recv_faults:
  assumes ok: "chat_ok a" and lv: "live a p"
  shows "faults_in handler_faults (run_recv d f p n q a)"
proof -
  have s: "session_ok p (heap a p)"
    using app_ok_session[OF chat_okD(1)[OF ok] lv] .
  have idx: "word_of_int (GetNetConnIdx (heap a) p) = (of_nat p :: u32)"
    using s by (simp add: GetNetConnIdx_def session_ok_def)
  show ?thesis
    using s ok lv chat_okD(1)[OF ok]
    by (cases f) (auto simp: idx simp del: of_int_of_nat_eq intro: fault_rules)
qed

section \<open>A turn of the packet thread\<close>

lemma packet_fun_faults:
  assumes ok: "chat_ok a" and lv: "live a p"
  shows "faults_in handler_faults (run_packet_fun d f (of_nat p) n q a)"
proof -
  note a = chat_okD(1)[OF ok]
  have u: "user_ok (heap a p)"
    using app_ok_session[OF a lv] by (simp add: session_ok_def)
  have "faults_in handler_faults (PM_ProcessUserConnect (of_nat p) a)"
    by (rule PM_ProcessUserConnect_ok[OF a lv]) simp
  moreover have "faults_in handler_faults (ClearConnectionInfo (of_nat p) a)"
    by (cases "mState (heap a p) = NoneState") (simp add: ClearConnectionInfo_none[OF a lv],
        rule ClearConnectionInfo_ok[OF a lv], simp_all)
  moreover have "faults_in handler_faults (PM_ProcessRequest d pid (of_nat p) n q a)" if "pid \<in> set requests" for pid
    using run_recv_faults[OF ok lv] by (simp add: PM_ProcessRequest_eq[OF a lv] recv_lookup_ok[OF u that])
  ultimately show ?thesis
    by (cases f) (simp_all add: requests_def)
qed

lemma dispatch_faults:
  assumes c: "chat_ok (mUserManager s)" and k: "known_client (mUserManager s) (ClientIndex x)"
  shows "faults_in handler_faults (ProcessRecvPacket d x s)"
  using k packet_fun_faults[OF c]
  by (auto simp: ProcessRecvPacket_def on_app_def known_client_def split: option.splits intro!: faults_in_bindr)

lemma recv_faults:
  assumes ok: "pm_ok s" and c: "chat_ok (mUserManager s)"
  shows "faults_in handler_faults (ProcessPacket_recv d s)"
proof (cases "mInComingPacketUserIndex s")
  case Nil
  then show ?thesis
    by (simp add: ProcessPacket_recv_def DequePacketData_empty empty_PacketInfo_def)
next
  case (Cons i "is")
  obtain p where p: "live (mUserManager s) p" "i = of_nat p"
    using pm_ok_front[OF ok Cons] .
  note q = Cons[unfolded p(2)]
  let ?a = "mUserManager s"
  let ?s = "s\<lparr>mInComingPacketUserIndex := is, mUserManager := ?a\<lparr>heap := (heap ?a)(p := taken (heap ?a p))\<rparr>\<rparr>"
  let ?x = "front_packet (of_nat p) (heap ?a p)"
  have "pm_ok ?s" and k: "known_client (mUserManager ?s) (ClientIndex ?x)"
    using taken_pm_ok[OF ok q p(1)] p(1) by (auto simp: known_client_def front_packet_def live_def)
  then have "chat_ok (mUserManager ?s)"
    using c by (simp add: chat_ok_def pm_ok_def shape_def)
  then have "faults_in handler_faults (ProcessRecvPacket d ?x ?s)"
    using k by (rule dispatch_faults)
  then show ?thesis
    by (simp add: ProcessPacket_recv_def DequePacketData_front[OF ok q p(1)])
qed

lemma system_faults:
  assumes ok: "pm_ok s" and c: "chat_ok (mUserManager s)"
  shows "faults_in handler_faults (ProcessPacket_system d s)"
proof (cases "mSystemPacketQueue s")
  case Nil
  then show ?thesis
    by (simp add: ProcessPacket_system_def DequeSystemPacketData_def empty_PacketInfo_def)
next
  case (Cons x xs)
  have "faults_in handler_faults (ProcessRecvPacket d x (s\<lparr>mSystemPacketQueue := xs\<rparr>))"
    using ok c Cons by (intro dispatch_faults) (auto simp: pm_ok_def system_packet_ok_def)
  then show ?thesis
    using Cons by (simp add: ProcessPacket_system_def DequeSystemPacketData_def)
qed

lemma turn_faults:
  assumes ok: "pm_ok s" and c: "chat_ok (mUserManager s)"
  shows "faults_in handler_faults (ProcessPacket d s)"
proof (cases "mIsRunProcessThread s")
  case True
  have "faults_in handler_faults (ProcessPacket_system d s1)" if "ProcessPacket_recv d s = Inr s1" for s1
    using that recv_performs[OF ok c] ProcessPacket_recv_ok(1)[OF ok] by (intro system_faults) blast+
  then show ?thesis
    using True recv_faults[OF ok c] by (auto simp: ProcessPacket_def)
qed (simp add: ProcessPacket_def)

end
