(* ===== verification/Server_Protocol.thy ===== *)
theory Server_Protocol
  imports Chat_Server Handler_Faults
begin

text \<open>
  The whole server implements the specification of \<open>Service\<close>: every run of the server (\<open>chat_run\<close>, with the bytes
  it receives) follows a history of the service on the same bytes, and what every slot has sent or still holds in
  its queue is exactly the messages of that history to its client, in order. Hence it implements the machine
  of \<open>Protocol\<close> (\<open>implements\<close>), and what the machine guarantees is guaranteed to the clients of the server,
  whatever the interleaving of completions and turns of the packet thread.
\<close>

section \<open>What a slot was given to send\<close>

definition send_line :: "client_info \<Rightarrow> cell list list" where
  "send_line c = completed c @ mSendDataqueue c"

definition send_lines :: "iocp_server \<Rightarrow> cell list list list" where
  "send_lines n = map send_line (mClientInfos n)"

lemma SendIO_line: "SendIO b c = Inr (r, c') \<Longrightarrow> send_line c' = send_line c"
  by (auto simp: SendIO_def send_line_def split: list.splits if_splits)

lemma SendMsg_line:
  assumes "ClientInfo_SendMsg b (of_nat (length data)) data c = Inr (r, c')" and "length data < 65536"
  shows "send_line c' = send_line c @ [data]"
proof -
  let ?c = "c\<lparr>mSendDataqueue := mSendDataqueue c @ [data]\<rparr>"
  have "c' = ?c \<or> (\<exists>r. SendIO b ?c = Inr (r, c'))"
    using assms by (auto simp: ClientInfo_SendMsg_def read_all bindr_simps Let_def split: if_splits)
  then have "send_line c' = send_line ?c"
    using SendIO_line by blast
  then show ?thesis
    by (simp add: send_line_def)
qed

lemma SendCompleted_line:
  assumes "SendCompleted b c = Inr c'"
  shows "send_line c' = send_line c"
proof -
  obtain d ds where q: "mSendDataqueue c = d # ds"
    using assms by (auto simp: SendCompleted_def split: list.splits)
  let ?c = "c\<lparr>mSendDataqueue := ds, completed := completed c @ [d]\<rparr>"
  have "c' = ?c \<or> (\<exists>r. SendIO b ?c = Inr (r, c'))"
    using assms q by (auto simp: SendCompleted_def bindr_simps Let_def split: if_splits)
  then have "send_line c' = send_line ?c"
    using SendIO_line by blast
  then show ?thesis
    using q by (simp add: send_line_def)
qed

lemma send_lines_update:
  assumes "send_line c = send_line (mClientInfos n ! i)"
  shows "send_lines (n\<lparr>mClientInfos := (mClientInfos n)[i := c]\<rparr>) = send_lines n"
  using assms by (simp add: send_lines_def map_update) (metis list_update_id map_update)

lemma send_lines_same [simp]:
  "send_lines (n\<lparr>mClientCnt := k\<rparr>) = send_lines n" "send_lines (n\<lparr>mIsWorkerRun := b\<rparr>) = send_lines n"
  by (simp_all add: send_lines_def)

lemma CloseSocket_lines [simp]: "send_lines (snd (CloseSocket i n)) = send_lines n"
  by (auto simp: CloseSocket_def Let_def ClientInfo_Close_def send_line_def intro: send_lines_update)

lemma PostAccept_line: "send_line (snd (PostAccept sock res c)) = send_line c"
  by (auto simp: PostAccept_def send_line_def Let_def split: option.splits)

lemma AccepterThread_lines: "send_lines (AccepterThread cur results is n) = send_lines n"
proof (induction "is" arbitrary: n)
  case (Cons i "is")
  have "send_lines (snd (on_client i (PostAccept sock res) n)) = send_lines n" for sock res
    using PostAccept_line by (auto simp: on_client_def split: prod.splits intro!: send_lines_update) (metis snd_conv)
  then show ?case
    using Cons by (auto split: prod.splits)
qed simp

lemma accept_same: "on_client i (AcceptCompletion h r) n = (fst (AcceptCompletion h r (mClientInfos n ! i)), n)"
  by (auto simp: on_client_def split: prod.splits dest!: AcceptCompletion_slot)

lemma WokerThread_lines:
  assumes "WokerThread r e n = Inr (cbs, n')"
  shows "send_lines n' = send_lines n"
proof -
  have close: "Inr (CloseSocket i n) = Inr (cbs, n') \<Longrightarrow> send_lines n' = send_lines n" for i
    using CloseSocket_lines[of i n] by (metis snd_conv sum.inject(2))
  show ?thesis
    using assms close
    by (auto simp: WokerThread_def accept_same bindr_simps split: if_splits option.splits IOOperation.splits
        intro: send_lines_update[OF SendCompleted_line])
qed

lemma io_step_lines: "io_step n cbs n' \<Longrightarrow> send_lines n' = send_lines n"
  by (auto elim!: io_stepE simp: WokerThread_lines accepter_pass_def AccepterThread_lines)


text \<open>The end of a turn: every packet of the outbox goes to the end of its slot's line.\<close>

lemma flush_lines:
  assumes "net_ok k n" and "flush accepted xs n = Inr n'" and "\<forall>(c, data) \<in> set xs. length data < 65536"
    and "i < k"
  shows "send_lines n' ! i = send_lines n ! i @ map snd (filter (\<lambda>(c, _). unat c = i) xs)"
  using assms
proof (induction accepted xs n rule: flush.induct)
  case (2 accepted c data xs n)
  obtain r n1 where s: "IOCP_SendMsg (accepted (length xs)) c (of_nat (length data)) data n = Inr (r, n1)"
    and f: "flush accepted xs n1 = Inr n'"
    using "2.prems"(2) by (auto simp: bindr_simps)
  obtain b c1 where u: "unat c < k" and sm: "ClientInfo_SendMsg (accepted (length xs)) (of_nat (length data)) data
        (mClientInfos n ! unat c) = Inr (b, c1)"
    and n1: "n1 = n\<lparr>mClientInfos := (mClientInfos n)[unat c := c1]\<rparr>"
    using s "2.prems"(1) by (auto simp: IOCP_SendMsg_def GetClientInfo_def bindr_simps net_ok_def split: if_splits)
  have ok1: "net_ok k n1"
    using net_step_ok[OF "2.prems"(1) net_step.send[OF s]] by blast
  have "send_lines n1 ! i = send_lines n ! i @ (if unat c = i then [data] else [])"
    using SendMsg_line[OF sm] "2.prems"(1,3,4) u by (auto simp: n1 send_lines_def net_ok_def nth_list_update)
  moreover have "send_lines n' ! i = send_lines n1 ! i @ map snd (filter (\<lambda>(c, _). unat c = i) xs)"
    using "2.IH"[of "(r, n1)" r n1] s f ok1 "2.prems"(3,4) by simp
  ultimately show ?case
    by simp
qed simp

section \<open>The simulation\<close>

text \<open>The messages of a run to one client, as they are on the wire.\<close>

definition messages_to :: "nat \<Rightarrow> (nat \<times> message) list \<Rightarrow> cell list list" where
  "messages_to i tr = map (\<lambda>x. encode (snd x)) (filter (\<lambda>x. fst x = i) tr)"

lemma messages_to_simps [simp]:
  "messages_to i [] = []" "messages_to i (xs @ ys) = messages_to i xs @ messages_to i ys"
  by (simp_all add: messages_to_def)

lemma messages_to_wire:
  assumes "\<forall>(q, m) \<in> set out. q < MAX_CLIENT"
  shows "map snd (filter (\<lambda>(c, _). unat c = i) (map wire out)) = messages_to i out"
  using assms by (induction out) (auto simp: messages_to_def wire_def MAX_CLIENT_def mem_simps)

text \<open>The bytes that the virtual call \<open>OnReceive\<close> hands over for one slot.\<close>

fun handed_over :: "nat \<Rightarrow> bytes \<Rightarrow> callback \<Rightarrow> bytes" where
  "handed_over p bs (OnReceive i k) = (if unat i = p then bs else [])"
| "handed_over p bs _ = []"

definition bytes_from :: "nat \<Rightarrow> (callback list \<times> bytes) list \<Rightarrow> bytes" where
  "bytes_from p ins = concat (map (\<lambda>(cbs, bs). concat (map (handed_over p bs) cbs)) ins)"

lemma bytes_from_simps [simp]:
  "bytes_from p [] = []" "bytes_from p (ins @ [(cbs, bs)]) = bytes_from p ins @ concat (map (handed_over p bs) cbs)"
  by (simp_all add: bytes_from_def)

text \<open>The runs of the server, with what its workers received.\<close>

inductive chat_run :: "'db odbc \<Rightarrow> memcpy_mode \<Rightarrow> nat option \<times> u64 \<Rightarrow> 'db \<Rightarrow> (callback list \<times> bytes) list
    \<Rightarrow> ('db, 'conn) chat_server \<Rightarrow> bool" for d m handle db where
  start: "ChatServer_Init MAX_CLIENT db (listening handle) = Inr s0
    \<Longrightarrow> ChatServer_Run MAX_CLIENT s0 = (True, s) \<Longrightarrow> chat_run d m handle db [] s"
| network: "chat_run d m handle db ins s \<Longrightarrow> io_step (mNetwork s) cbs n \<Longrightarrow> recv_buffer_ok cbs bs
    \<Longrightarrow> run_callbacks m (map Some bs) cbs (mPacketManager s) = Inr pm
    \<Longrightarrow> chat_run d m handle db (ins @ [(cbs, bs)]) (s\<lparr>mNetwork := n, mPacketManager := pm\<rparr>)"
| packets: "chat_run d m handle db ins s \<Longrightarrow> ProcessPacket d (mPacketManager s) = Inr pm
    \<Longrightarrow> flush accepted (sent (mUserManager pm)) (mNetwork s) = Inr n
    \<Longrightarrow> chat_run d m handle db ins (s\<lparr>mNetwork := n, mPacketManager := clear_outbox pm\<rparr>)"

lemma chat_run_reach: "chat_run d m handle db ins s \<Longrightarrow> chat_reach d m handle db s"
  by (induction rule: chat_run.induct) (blast intro: chat_reach.intros chat_step.intros)+

lemma chat_reach_run: "chat_reach d m handle db s \<Longrightarrow> \<exists>ins. chat_run d m handle db ins s"
proof (induction rule: chat_reach.induct)
  case (step s s')
  from step.hyps(2) step.IH show ?case
    by cases (blast intro: chat_run.intros)+
qed (blast intro: chat_run.start)

definition follows :: "'db odbc \<Rightarrow> 'db \<Rightarrow> (callback list \<times> bytes) list \<Rightarrow> ('db, 'conn) chat_server \<Rightarrow> event list \<Rightarrow> bool" where
  "follows d db ins s h \<longleftrightarrow> service_run d (initial_service db) h (service_of (mUserManager (mPacketManager s)))
     \<and> (\<forall>p. inputs p h = bytes_from p ins)
     \<and> (\<forall>i < MAX_CLIENT. send_lines (mNetwork s) ! i = messages_to i (outputs h))"

lemma service_run_trans:
  assumes "service_run d v0 h v" and "service_run d v h' v'"
  shows "service_run d v0 (h @ h') v'"
  using assms(2,1)
proof (induction rule: service_run.induct)
  case (more h' v e v')
  then show ?case
    using service_run.more[of d v0 "h @ h'" v e v'] by simp
qed simp

lemma run_encode_length:
  "proto_run s tr t \<Longrightarrow> \<forall>(q, m) \<in> set tr. length (encode m) < 65536"
  by (induction rule: proto_run.induct) (use step_encode_length in fastforce)+

text \<open>Between two steps the outbox is empty, and the members of every room are sessions.\<close>

definition at_rest :: "('db, 'conn) chat_server \<Rightarrow> bool" where
  "at_rest s \<longleftrightarrow> sent (mUserManager (mPacketManager s)) = [] \<and> members_live (mUserManager (mPacketManager s))
     \<and> mCurrentUserCnt (mUserManager (mPacketManager s)) = 0"

lemma server_chat_ok: "server_ok s \<Longrightarrow> at_rest s \<Longrightarrow> chat_ok (mUserManager (mPacketManager s))"
  by (simp add: server_ok_def at_rest_def chat_ok_def pm_ok_def)

text \<open>A virtual call is the arrival of its bytes, and nothing else that the service sees.\<close>

definition delivers :: "'db odbc \<Rightarrow> (nat \<Rightarrow> bytes) \<Rightarrow> 'db app \<Rightarrow> 'db app \<Rightarrow> bool" where
  "delivers d x a a' \<longleftrightarrow> (\<exists>h. service_run d (service_of a) h (service_of a') \<and> set h \<subseteq> range (case_prod Received) \<and> (\<forall>p. inputs p h = x p))
     \<and> sent a' = sent a \<and> rooms a' = rooms a \<and> mCurrentUserCnt a' = mCurrentUserCnt a \<and> mUserObjPool a' = mUserObjPool a"

lemma received_silent: "set h \<subseteq> range (case_prod Received) \<Longrightarrow> outputs h = []"
  by (auto simp: outputs_def)

lemma delivers_refl: "delivers d (\<lambda>_. []) a a"
  unfolding delivers_def using service_run.start by fastforce

lemma delivers_trans:
  assumes "delivers d x a a1" and "delivers d y a1 a2"
  shows "delivers d (\<lambda>p. x p @ y p) a a2"
proof -
  obtain h h' where h: "service_run d (service_of a) h (service_of a1)" "set h \<subseteq> range (case_prod Received)" "\<forall>p. inputs p h = x p"
    and h': "service_run d (service_of a1) h' (service_of a2)" "set h' \<subseteq> range (case_prod Received)" "\<forall>p. inputs p h' = y p"
    using assms by (auto simp: delivers_def)
  then have "service_run d (service_of a) (h @ h') (service_of a2)"
    using service_run_trans by blast
  then show ?thesis
    unfolding delivers_def using h h' assms by (intro conjI exI[of _ "h @ h'"]) (auto simp: delivers_def)
qed

lemma callback_delivers:
  assumes ok: "pm_ok s" and n: "length (mUserObjPool (mUserManager s)) = n" and cb: "known_callback n cb"
    and k: "length bs < 2 ^ 31" "\<And>i k. cb = OnReceive i k \<Longrightarrow> k = of_nat (length bs)"
    and ret: "run_callback m (map Some bs) cb s = Inr s'"
  shows "delivers d (\<lambda>p. handed_over p bs cb) (mUserManager s) (mUserManager s')"
proof (cases "\<exists>i k. cb = OnReceive i k")
  case True
  then obtain p where p: "p < n" "cb = OnReceive (of_nat p) (of_nat (length bs))"
    using cb k(2) by (fastforce simp: known_callback_def)
  let ?a = "mUserManager s" and ?a' = "mUserManager s'"
  have lv: "live ?a p"
    using p(1) n by (simp add: live_def)
  have idx: "unat (of_nat p :: u32) = p"
    using p(1) n ok by (intro unat_of_nat_u32) (simp add: pm_ok_def app_ok_def)
  have r: "ReceivePacketData m (of_nat p) (of_nat (length bs)) (map Some bs) s = Inr s'"
    using ret p(2) by (simp add: ChatServer_OnReceive_def)
  have s: "session_ok p (heap ?a p)"
    using ok lv by (auto simp: pm_ok_def intro: app_ok_session)
  obtain u' where u': "?a' = ?a\<lparr>heap := (heap ?a)(p := u')\<rparr>"
    and sp: "SetPacketData m (of_nat (length bs)) (map Some bs) (heap ?a p) = Inr u'"
    by (rule ReceivePacketData_ok[OF ok lv k(1) r]) simp
  note e = SetPacketData_session[OF s k(1) sp]
  have "abstraction ?a' = abstraction ?a"
    using abstraction_buffer[OF mode_of_buffer[OF e(4,5,6)] e(3)] by (simp add: u')
  then have "service_of ?a' = (service_of ?a)\<lparr>waiting := (waiting (service_of ?a))(p := waiting (service_of ?a) p @ bs)\<rparr>"
    using e(2) by (simp add: service_of_def u' fun_eq_iff)
  then have "service_run d (service_of ?a) [Received p bs] (service_of ?a')"
    using service_run.more[OF service_run.start service_step.received, of d "service_of ?a" p bs] by simp
  then show ?thesis
    unfolding delivers_def using idx p(2) by (intro conjI exI[of _ "[Received p bs]"]) (auto simp: u')
next
  case False
  then have "mUserManager s' = mUserManager s" and "handed_over p bs cb = []" for p
    using ret by (cases cb; auto simp: ChatServer_OnConnect_def ChatServer_OnClose_def PushSystemPacket_def)+
  then show ?thesis
    using delivers_refl[of d "mUserManager s"] by simp
qed

lemma callbacks_deliver:
  assumes "pm_ok s" and "length (mUserObjPool (mUserManager s)) = n" and "\<forall>cb \<in> set cbs. known_callback n cb"
    and "recv_buffer_ok cbs bs" and "run_callbacks m (map Some bs) cbs s = Inr s'"
  shows "delivers d (\<lambda>p. concat (map (handed_over p bs) cbs)) (mUserManager s) (mUserManager s')"
  using assms
proof (induction cbs arbitrary: s)
  case Nil
  then show ?case
    using delivers_refl by simp
next
  case (Cons cb cbs)
  obtain s1 where r: "run_callback m (map Some bs) cb s = Inr s1" and rs: "run_callbacks m (map Some bs) cbs s1 = Inr s'"
    using Cons.prems(5) by (auto simp: bindr_simps)
  have k: "length bs < 2 ^ 31" and eq: "\<And>i k. cb = OnReceive i k \<Longrightarrow> k = of_nat (length bs)"
    using Cons.prems(4) by (auto simp: recv_buffer_ok_def MAX_SOCKBUF_def)
  have cb: "known_callback n cb"
    using Cons.prems(3) by simp
  note o1 = run_callback_ok[OF Cons.prems(1,2) cb k eq r] and d1 = callback_delivers[OF Cons.prems(1,2) cb k eq r]
  have "delivers d (\<lambda>p. concat (map (handed_over p bs) cbs)) (mUserManager s1) (mUserManager s')"
    using Cons.prems rs o1 by (intro Cons.IH) (auto simp: recv_buffer_ok_def)
  then show ?case
    using delivers_trans[OF d1] by simp
qed

lemma network_delivers:
  assumes ok: "server_ok s" and rest: "at_rest s" and io: "io_step (mNetwork s) cbs n"
    and bs: "recv_buffer_ok cbs bs" and run: "run_callbacks m (map Some bs) cbs (mPacketManager s) = Inr pm"
  shows "delivers d (\<lambda>p. concat (map (handed_over p bs) cbs)) (mUserManager (mPacketManager s)) (mUserManager pm)"
    and "at_rest (s\<lparr>mNetwork := n, mPacketManager := pm\<rparr>)"
proof -
  have cb: "\<forall>cb \<in> set cbs. known_callback MAX_CLIENT cb"
    using io_step_ok[OF _ io] ok by (auto simp: server_ok_def)
  have pm: "pm_ok (mPacketManager s)" "length (mUserObjPool (mUserManager (mPacketManager s))) = MAX_CLIENT"
    using ok by (simp_all add: server_ok_def)
  show dl: "delivers d (\<lambda>p. concat (map (handed_over p bs) cbs)) (mUserManager (mPacketManager s)) (mUserManager pm)"
    by (rule callbacks_deliver[OF pm cb bs run])
  have "live (mUserManager pm) = live (mUserManager (mPacketManager s))"
    using dl by (intro live_same_pool) (simp add: delivers_def)
  then show "at_rest (s\<lparr>mNetwork := n, mPacketManager := pm\<rparr>)"
    using dl rest by (simp add: delivers_def at_rest_def members_live_def)
qed

lemma network_follows:
  assumes ok: "server_ok s" and rest: "at_rest s" and fo: "follows d db ins s h" and io: "io_step (mNetwork s) cbs n"
    and bs: "recv_buffer_ok cbs bs" and run: "run_callbacks m (map Some bs) cbs (mPacketManager s) = Inr pm"
  shows "\<exists>h. follows d db (ins @ [(cbs, bs)]) (s\<lparr>mNetwork := n, mPacketManager := pm\<rparr>) h"
proof -
  obtain h' where h': "service_run d (service_of (mUserManager (mPacketManager s))) h' (service_of (mUserManager pm))"
    "set h' \<subseteq> range (case_prod Received)" "\<forall>p. inputs p h' = concat (map (handed_over p bs) cbs)"
    using network_delivers(1)[OF ok rest io bs run, of d] by (auto simp: delivers_def)
  have "follows d db (ins @ [(cbs, bs)]) (s\<lparr>mNetwork := n, mPacketManager := pm\<rparr>) (h @ h')"
    using fo h' service_run_trans[of d _ h _ h'] io_step_lines[OF io] received_silent by (auto simp: follows_def)
  then show ?thesis ..
qed

text \<open>What a run of the service emits fits the sends, and reaches the lines of its clients.\<close>

lemma emitted_sends:
  assumes run: "service_run d v h v'" and q: "\<forall>(q, m) \<in> set (outputs h). q < MAX_CLIENT"
  shows "\<forall>(c, data) \<in> set (map wire (outputs h)). unat c < MAX_CLIENT \<and> length data < 65536"
proof -
  have "\<forall>(q, m) \<in> set (outputs h). length (encode m) < 65536"
    using run run_encode_length service_run_proto by fastforce
  then show ?thesis
    using q by (auto simp: wire_def MAX_CLIENT_def mem_simps)
qed

lemma emitted_lines:
  assumes net: "net_ok MAX_CLIENT net" and run: "service_run d v h v'" and q: "\<forall>(q, m) \<in> set (outputs h). q < MAX_CLIENT"
    and fl: "flush accepted (map wire (outputs h)) net = Inr n" and i: "i < MAX_CLIENT"
  shows "send_lines n ! i = send_lines net ! i @ messages_to i (outputs h)"
proof -
  have "\<forall>(c, data) \<in> set (map wire (outputs h)). length data < 65536"
    using emitted_sends[OF run q] by auto
  then show ?thesis
    using flush_lines[OF net fl _ i] messages_to_wire[OF q] by simp
qed

lemma turn_outbox:
  assumes ok: "server_ok s" and rest: "at_rest s" and sim: "simulates d (mUserManager (mPacketManager s)) h (mUserManager pm)"
  shows "sent (mUserManager pm) = map wire (outputs h)" and "\<forall>(q, m) \<in> set (outputs h). q < MAX_CLIENT"
    and "\<forall>(c, data) \<in> set (sent (mUserManager pm)). unat c < MAX_CLIENT \<and> length data < 65536"
proof -
  show sent: "sent (mUserManager pm) = map wire (outputs h)" and lv: "\<forall>(q, m) \<in> set (outputs h). q < MAX_CLIENT"
    using sim rest ok by (auto simp: simulates_def at_rest_def server_ok_def live_def)
  show "\<forall>(c, data) \<in> set (sent (mUserManager pm)). unat c < MAX_CLIENT \<and> length data < 65536"
    unfolding sent using sim emitted_sends[OF _ lv] unfolding simulates_def by blast
qed

lemma packets_follow:
  assumes ok: "server_ok s" and rest: "at_rest s" and fo: "follows d db ins s h"
    and turn: "ProcessPacket d (mPacketManager s) = Inr pm" and fl: "flush accepted (sent (mUserManager pm)) (mNetwork s) = Inr n"
  shows "at_rest (s\<lparr>mNetwork := n, mPacketManager := clear_outbox pm\<rparr>)"
    and "\<exists>h. follows d db ins (s\<lparr>mNetwork := n, mPacketManager := clear_outbox pm\<rparr>) h"
proof -
  have pm: "pm_ok (mPacketManager s)"
    using ok by (simp add: server_ok_def)
  note c = turn_simulates[OF pm server_chat_ok[OF ok rest] turn]
  show "at_rest (s\<lparr>mNetwork := n, mPacketManager := clear_outbox pm\<rparr>)"
    using c(2) by (simp add: at_rest_def clear_outbox_def chat_ok_def)
  obtain h' where sim: "simulates d (mUserManager (mPacketManager s)) h' (mUserManager pm)"
    using c(1) by blast
  note o = turn_outbox[OF ok rest sim]
  have "service_run d (service_of (mUserManager (mPacketManager s))) h' (service_of (mUserManager pm))"
    and "net_ok MAX_CLIENT (mNetwork s)"
    using sim ok by (simp_all add: simulates_def server_ok_def)
  then have "send_lines n ! i = send_lines (mNetwork s) ! i @ messages_to i (outputs h')" if "i < MAX_CLIENT" for i
    using emitted_lines[OF _ _ o(2) fl[unfolded o(1)] that] by blast
  moreover have "service_of (mUserManager (clear_outbox pm)) = service_of (mUserManager pm)"
    by (simp add: clear_outbox_def service_of_def abs_simps)
  ultimately have "follows d db ins (s\<lparr>mNetwork := n, mPacketManager := clear_outbox pm\<rparr>) (h @ h')"
    using fo sim service_run_trans[of d _ h _ h'] by (auto simp: follows_def simulates_def)
  then show "\<exists>h. follows d db ins (s\<lparr>mNetwork := n, mPacketManager := clear_outbox pm\<rparr>) h" ..
qed

lemma started_follows:
  fixes handle db defines "s \<equiv> started handle db :: ('db, 'conn) chat_server"
  shows "at_rest s" and "follows d db [] s []"
proof -
  have r: "mUserList r = [] \<and> mCurrentUserCount r = 0" if "r \<in> set (mRoomList chat_rooms)" for r
    using that by (auto simp: chat_rooms_def RoomManager_SetSendPacketFunc_def RoomManager_Init_def Room_Init_def new_Room_def)
  have a: "mUserManager (mPacketManager s) = ready_app MAX_CLIENT db chat_rooms"
    by (simp add: s_def started_def PacketManager_Init_def)
  have "room_numbered k chat_rooms \<in> set (mRoomList chat_rooms)" if "in_table k" for k
    using that by (auto simp: room_numbered_def in_table_def)
  then have "abstraction (ready_app MAX_CLIENT db chat_rooms) = initial"
    using r by (auto simp: abstraction_def initial_def ready_app_def mode_of_def new_User_def fun_eq_iff)
  moreover have "stream (heap (ready_app MAX_CLIENT db chat_rooms) p) = []" for p
    by (auto simp: ready_app_def new_User_def stream_def unread_def block_def)
  ultimately have "service_of (mUserManager (mPacketManager s)) = initial_service db"
    by (simp add: service_of_def initial_service_def a)
  moreover have "send_lines (mNetwork s) = replicate MAX_CLIENT []"
    by (auto simp: s_def started_def StartServer_def CreateWokerThread_def CreateAccepterThread_def CreateClient_def
        listening_def new_IOCPServer_def ClientInfo_Init_def new_ClientInfo_def send_lines_def send_line_def intro: nth_equalityI)
  ultimately show "follows d db [] s []"
    by (simp add: follows_def service_run.start)
  show "at_rest s"
    using r by (auto simp: at_rest_def a members_live_def ready_app_def)
qed

lemma run_follows:
  assumes "chat_run d m handle db ins s"
  shows "at_rest s \<and> (\<exists>h. follows d db ins s h)"
  using assms
proof (induction rule: chat_run.induct)
  case (start s0 s)
  show ?case
    unfolding started_server[OF start.hyps] using started_follows by (intro conjI exI)
next
  case (network ins s cbs n bs pm)
  then obtain h where "at_rest s" and "follows d db ins s h"
    by blast
  then show ?case
    using network_follows[OF chat_reach_ok[OF chat_run_reach[OF network.hyps(1)]] _ _ network.hyps(2-4)]
      network_delivers(2)[OF chat_reach_ok[OF chat_run_reach[OF network.hyps(1)]] _ network.hyps(2-4)] by blast
next
  case (packets ins s pm accepted n)
  then obtain h where "at_rest s" and "follows d db ins s h"
    by blast
  then show ?case
    using packets_follow[OF chat_reach_ok[OF chat_run_reach[OF packets.hyps(1)]] _ _ packets.hyps(2,3)] by blast
qed

text \<open>What the clients see is a run of the machine.\<close>

definition implements :: "('db, 'conn) chat_server \<Rightarrow> (nat \<times> message) list \<Rightarrow> bool" where
  "implements s tr \<longleftrightarrow> proto_run initial tr (abstraction (mUserManager (mPacketManager s)))
     \<and> (\<forall>i < MAX_CLIENT. send_lines (mNetwork s) ! i = messages_to i tr)"

lemma follows_implements: "follows d db ins s h \<Longrightarrow> implements s (outputs h)"
  using service_run_proto by (fastforce simp: follows_def implements_def service_of_def initial_service_def)

lemma reach_implements:
  assumes "chat_reach d m handle db s"
  shows "at_rest s \<and> (\<exists>tr. implements s tr)"
proof -
  obtain ins where "chat_run d m handle db ins s"
    using chat_reach_run[OF assms] ..
  then have "at_rest s \<and> (\<exists>h. follows d db ins s h)"
    by (rule run_follows)
  then obtain h where "at_rest s" and f: "follows d db ins s h"
    by auto
  then show ?thesis
    using follows_implements[OF f] by auto
qed

text \<open>A place in a filtered list is a place in the list.\<close>

lemma filter_split:
  assumes "filter P xs = us @ y # ys"
  shows "\<exists>as bs. xs = as @ y # bs \<and> us = filter P as"
  using assms
proof (induction xs arbitrary: us)
  case (Cons x xs)
  show ?case
  proof (cases "P x \<and> us = []")
    case True
    then show ?thesis
      using Cons.prems by (intro exI[of _ "[]"] exI[of _ xs]) auto
  next
    case False
    then obtain vs where vs: "filter P xs = vs @ y # ys" "us = (if P x then x # vs else vs)"
      using Cons.prems by (cases us) (auto split: if_splits)
    then show ?thesis
      using Cons.IH[OF vs(1)] by (metis append_Cons filter.simps(2))
  qed
qed simp

text \<open>On the line of one client, a guarded packet does not come before the grant.\<close>

context authorization
begin

lemma line_guarded:
  assumes run: "proto_run initial tr t" and no: "encode grant \<notin> set (take n (messages_to i tr))"
    and x: "x \<in> set (take (Suc n) (filter (\<lambda>x. fst x = i) tr))"
  shows "\<not> guarded (snd x)"
proof
  assume g: "guarded (snd x)"
  have "x \<in> set (filter (\<lambda>x. fst x = i) tr)"
    using x in_set_takeD by fast
  then have q: "fst x = i"
    by simp
  obtain j where j: "j < Suc n" "j < length (filter (\<lambda>x. fst x = i) tr)" "filter (\<lambda>x. fst x = i) tr ! j = x"
    using x by (auto simp: in_set_conv_nth)
  obtain us ys where us: "filter (\<lambda>x. fst x = i) tr = us @ x # ys" "length us = j"
    using id_take_nth_drop[OF j(2)] j by (metis length_take min.absorb4)
  then obtain tr1 tr2 where tr: "tr = tr1 @ x # tr2" "us = filter (\<lambda>x. fst x = i) tr1"
    using filter_split by metis
  have "(i, grant) \<in> set tr1"
    using granted_before[OF run, of tr1 i "snd x" tr2] tr(1) q g by (metis prod.collapse)
  then have "encode grant \<in> set (map (\<lambda>x. encode (snd x)) us)"
    using tr(2) by force
  moreover have "map (\<lambda>x. encode (snd x)) us = take j (messages_to i tr)"
    using us by (simp add: messages_to_def)
  ultimately show False
    using no set_take_subset_set_take[of j n "messages_to i tr"] j(1) by (simp add: subset_iff)
qed

end

section \<open>Properties\<close>

text \<open>
  C1. The server refines its specification: for every run of the server, whatever the interleaving of completions and
  turns and whatever bytes arrive, there is a history of the service in which every client sends exactly the
  bytes that were received from it, that ends in the state of the server (phases, names, directory, rooms,
  data base, bytes that wait), and whose messages to each client are exactly, in order, the packets sent or queued
  for its slot.
\<close>

theorem server_refines_service:
  assumes "chat_run d m handle db ins s"
  shows "\<exists>h. service_run d (initial_service db) h (service_of (mUserManager (mPacketManager s)))
    \<and> (\<forall>p. inputs p h = bytes_from p ins)
    \<and> (\<forall>i < MAX_CLIENT. send_lines (mNetwork s) ! i = messages_to i (outputs h))"
  using run_follows[OF assms] by (auto simp: follows_def)

text \<open>Packets to existing slots can be sent.\<close>

lemma flush_returns:
  assumes "net_ok k n" and "\<forall>(c, data) \<in> set xs. unat c < k \<and> length data < 65536"
  shows "\<exists>n'. flush accepted xs n = Inr n'"
  using assms
proof (induction xs arbitrary: n)
  case (Cons x xs)
  obtain c data where x: "x = (c, data)"
    by (cases x)
  have c: "unat c < length (mClientInfos n)" and d: "length data < 65536"
    using Cons.prems x by (auto simp: net_ok_def)
  have "\<exists>r n1. IOCP_SendMsg (accepted (length xs)) c (of_nat (length data)) data n = Inr (r, n1)"
    using c d by (auto simp: IOCP_SendMsg_def GetClientInfo_def ClientInfo_SendMsg_def read_all SendIO_def Let_def
        split: list.splits)
  then obtain r n1 where s: "IOCP_SendMsg (accepted (length xs)) c (of_nat (length data)) data n = Inr (r, n1)"
    by blast
  have "net_ok k n1"
    using net_step_ok[OF Cons.prems(1) net_step.send[OF s]] by blast
  then show ?case
    using Cons.IH[of n1] Cons.prems(2) s x by auto
qed simp

text \<open>Client 7 asks for a login, with the right or with a wrong password.\<close>

lemma login_state:
  assumes "SelectAccount sample_odbc test001 pw init_db = Some (found, db')" and "0 \<notin> set pw" and "length pw \<le> MAX_USER_PW_LEN"
  obtains s :: "(account_db, unit) chat_server" where "chat_reach sample_odbc Disjoint_only (Some 0, 1) init_db s"
    and "mUserIDDictionary (mUserManager (mPacketManager s)) test001 = (if found then Some 7 else None)"
    and "send_lines (mNetwork s) ! 7 = [ack_cells ACK_LOGIN (if found then 30 else 33)]"
proof -
  obtain s :: "(account_db, unit) chat_server" where r: "chat_reach sample_odbc Disjoint_only (Some 0, 1) init_db s"
    and d: "mUserIDDictionary (mUserManager (mPacketManager s)) test001 = (if found then Some 7 else None)"
    and l: "completed (mClientInfos (mNetwork s) ! 7) @ mSendDataqueue (mClientInfos (mNetwork s) ! 7)
        = [ack_cells ACK_LOGIN (if found then 30 else 33)]"
    using first_login[OF _ test001_bounds(1,2) assms(2,3,1), of 7 Disjoint_only "(Some 0, 1)"]
    by (cases found) (auto simp: MAX_CLIENT_def)
  have "7 < length (mClientInfos (mNetwork s))"
    using chat_reach_ok[OF r] by (simp add: server_ok_def net_ok_def MAX_CLIENT_def)
  then have "send_lines (mNetwork s) ! 7 = [ack_cells ACK_LOGIN (if found then 30 else 33)]"
    unfolding l[symmetric] send_lines_def by (simp add: send_line_def del: append_eq_conv_conj)
  then show thesis
    by (rule that[OF r d])
qed

lemma wrong_password: "\<exists>db'. SelectAccount sample_odbc test001 [97] init_db = Some (False, db')"
  using sample.select_returns[OF init_db_select, of "[97]"]
  by (simp add: succeeded_def narrow_take) (simp add: test001_def)

theorem server_refines_service_witness:
  "\<exists>(s :: (account_db, unit) chat_server) ins h. chat_run sample_odbc Disjoint_only (Some 0, 1) init_db ins s
    \<and> service_run sample_odbc (initial_service init_db) h (service_of (mUserManager (mPacketManager s)))
    \<and> messages_to 7 (outputs h) = [encode login_ok] \<and> inputs 7 h = bytes_from 7 ins"
proof -
  obtain db' where db: "SelectAccount sample_odbc test001 test001 init_db = Some (True, db')"
    using sample_login by blast
  obtain s :: "(account_db, unit) chat_server" where r: "chat_reach sample_odbc Disjoint_only (Some 0, 1) init_db s"
    and l: "send_lines (mNetwork s) ! 7 = [ack_cells ACK_LOGIN 30]"
    by (rule login_state[OF db]) (auto simp: test001_bounds)
  from r have "\<exists>ins. chat_run sample_odbc Disjoint_only (Some 0, 1) init_db ins s"
    by (rule chat_reach_run)
  then obtain ins where run: "chat_run sample_odbc Disjoint_only (Some 0, 1) init_db ins s"
    by auto
  obtain h where h: "service_run sample_odbc (initial_service init_db) h (service_of (mUserManager (mPacketManager s)))"
    and ins: "inputs 7 h = bytes_from 7 ins" and sl: "\<forall>i < MAX_CLIENT. send_lines (mNetwork s) ! i = messages_to i (outputs h)"
    using server_refines_service[OF run] by auto
  have "messages_to 7 (outputs h) = [encode login_ok]"
    using sl l by (simp add: MAX_CLIENT_def)
  then show ?thesis
    using run h ins by blast
qed

text \<open>
  C5. Nothing before the login: in every reachable state and for every slot, as long as its line of packets holds
  no accepted login, every packet up to and including the next one is an answer to an account request. No
  room table, member list, notice or chat is ever sent to a client before it has been told that it is logged in.
\<close>

theorem nothing_before_login:
  assumes "chat_reach d m handle db s" and "i < MAX_CLIENT"
    and "ack_cells ACK_LOGIN 30 \<notin> set (take n (send_lines (mNetwork s) ! i))"
  shows "\<forall>x \<in> set (take (Suc n) (send_lines (mNetwork s) ! i)).
    \<exists>pid \<in> {ACK_CREATE_ACCOUNT, ACK_LOGIN}. \<exists>rc. x = ack_cells pid (result_code rc)"
proof -
  obtain tr where run: "proto_run initial tr (abstraction (mUserManager (mPacketManager s)))"
    and l: "send_lines (mNetwork s) ! i = messages_to i tr"
    using reach_implements[OF assms(1)] assms(2) by (auto simp: implements_def)
  have "account_answer (snd x)" if "x \<in> set (take (Suc n) (filter (\<lambda>x. fst x = i) tr))" for x
    using login.line_guarded[OF run _ that] assms(3) unfolding l by simp
  moreover have "\<exists>pid \<in> {ACK_CREATE_ACCOUNT, ACK_LOGIN}. \<exists>rc. encode m = ack_cells pid (result_code rc)"
    if "account_answer m" for m
    using that by (cases m) auto
  ultimately show ?thesis
    unfolding l messages_to_def take_map by auto
qed

theorem nothing_before_login_witness:
  "\<exists>s :: (account_db, unit) chat_server. chat_reach sample_odbc Disjoint_only (Some 0, 1) init_db s
    \<and> length (send_lines (mNetwork s) ! 7) = 1
    \<and> (\<forall>x \<in> set (take 2 (send_lines (mNetwork s) ! 7)).
        \<exists>pid \<in> {ACK_CREATE_ACCOUNT, ACK_LOGIN}. \<exists>rc. x = ack_cells pid (result_code rc))"
proof -
  obtain db' where db: "SelectAccount sample_odbc test001 [97] init_db = Some (False, db')"
    using wrong_password by blast
  obtain s :: "(account_db, unit) chat_server" where r: "chat_reach sample_odbc Disjoint_only (Some 0, 1) init_db s"
    and l: "send_lines (mNetwork s) ! 7 = [ack_cells ACK_LOGIN 33]"
    by (rule login_state[OF db]) (auto simp: packet_sizes)
  have "ack_cells ACK_LOGIN 30 \<notin> set (take 1 (send_lines (mNetwork s) ! 7))"
    by (simp add: l ack_cells_def le16_def)
  from nothing_before_login[OF r _ this] show ?thesis
    using r l by (intro exI[of _ s]) (simp add: MAX_CLIENT_def numeral_2_eq_2)
qed

text \<open>
  C6. Rooms are private: in every reachable state and for every slot, as long as its line of packets holds no
  \<open>ENTER_ROOM_SUCCESS\<close>, no packet up to and including the next one is a notice of a room: who enters, who leaves
  and what is said reaches only clients that were admitted to a room.
\<close>

theorem rooms_private:
  assumes "chat_reach d m handle db s" and "i < MAX_CLIENT"
    and "ack_cells ACK_ROOM_ENTER 50 \<notin> set (take n (send_lines (mNetwork s) ! i))"
  shows "\<forall>x \<in> set (take (Suc n) (send_lines (mNetwork s) ! i)).
    \<forall>pid \<in> {NOTIFY_ROOM_INFO, NOTIFY_ROOM_LEAVE, NOTIFY_ROOM_CHAT}. take 2 (drop 2 x) \<noteq> map Some (le16 (pid16 pid))"
proof -
  obtain tr where run: "proto_run initial tr (abstraction (mUserManager (mPacketManager s)))"
    and l: "send_lines (mNetwork s) ! i = messages_to i tr"
    using reach_implements[OF assms(1)] assms(2) by (auto simp: implements_def)
  have "\<not> notice_packet (encode (snd x))" if "x \<in> set (take (Suc n) (filter (\<lambda>x. fst x = i) tr))" for x
    using entry.line_guarded[OF run _ that] assms(3) unfolding l by simp
  then have "\<not> notice_packet x" if "x \<in> set (take (Suc n) (messages_to i tr))" for x
    using that unfolding messages_to_def take_map by auto
  then show ?thesis
    unfolding l notice_packet_def packet_field_def notices_def by blast
qed

theorem rooms_private_witness:
  "\<exists>s :: (account_db, unit) chat_server. chat_reach sample_odbc Disjoint_only (Some 0, 1) init_db s
    \<and> length (send_lines (mNetwork s) ! 7) = 1
    \<and> (\<forall>x \<in> set (take 2 (send_lines (mNetwork s) ! 7)).
        \<forall>pid \<in> {NOTIFY_ROOM_INFO, NOTIFY_ROOM_LEAVE, NOTIFY_ROOM_CHAT}. take 2 (drop 2 x) \<noteq> map Some (le16 (pid16 pid)))"
proof -
  obtain db' where db: "SelectAccount sample_odbc test001 test001 init_db = Some (True, db')"
    using sample_login by blast
  obtain s :: "(account_db, unit) chat_server" where r: "chat_reach sample_odbc Disjoint_only (Some 0, 1) init_db s"
    and l: "send_lines (mNetwork s) ! 7 = [ack_cells ACK_LOGIN 30]"
    by (rule login_state[OF db]) (auto simp: test001_bounds)
  have "ack_cells ACK_ROOM_ENTER 50 \<notin> set (take 1 (send_lines (mNetwork s) ! 7))"
    by (simp add: l ack_cells_def le16_def)
  from rooms_private[OF r _ this] have "\<forall>x \<in> set (take 2 (send_lines (mNetwork s) ! 7)).
      \<forall>pid \<in> {NOTIFY_ROOM_INFO, NOTIFY_ROOM_LEAVE, NOTIFY_ROOM_CHAT}. take 2 (drop 2 x) \<noteq> map Some (le16 (pid16 pid))"
    by (simp add: MAX_CLIENT_def numeral_2_eq_2)
  then show ?thesis
    using r l by (intro exI[of _ s]) simp
qed

end
