(* ===== verification/Service_Progress.thy ===== *)
theory Service_Progress
  imports Server_Protocol
begin

text \<open>
  The other direction of the refinement: where the service has an answer, the code gives it. A handler returns
  exactly where the request can be read and has an answer (\<open>run_recv_returns\<close>), so the packet thread takes a packet
  without a fault exactly where the service does; and from every state of the server whose queues are empty, bytes
  that complete a packet are received, answered and the answers queued for their slots (\<open>quiet_request\<close>).

  Shown here: that a turn fails exactly where the service has no answer, that every request is served by steps of
  the server from the state it arrives in, and, for all reachable states, the outcomes of a turn, the admissions and the
  occupancy of the rooms.
\<close>

section \<open>Handlers return\<close>

lemma EnterRoom_returns:
  assumes ok: "chat_ok a" and lv: "live a p" and m: "mode_of (heap a p) = Lobby"
    and r: "respond_enter (abstraction a) p k \<noteq> None"
  shows "\<exists>rc a1. User_EnterRoom p k a = Inr (rc, a1) \<and> session_ok p (heap a1 p)"
proof -
  note ok' = chat_okD[OF ok]
  have "\<exists>rc rm out. RoomManager_EnterUser (heap a) k p (rooms a) (sent a) = Inr (rc, rm, out)"
    using r RoomManager_EnterUser_table[OF ok'(3,2), of "heap a" k p "sent a"]
    by (auto simp: respond_enter_def Let_def abs_simps split: if_splits)
  then obtain rc rm out where rm: "RoomManager_EnterUser (heap a) k p (rooms a) (sent a) = Inr (rc, rm, out)"
    by blast
  show ?thesis
    by (rule User_EnterRoom_ok[OF ok'(1) lv rm]) auto
qed

lemma LeaveRoom_returns:
  assumes ok: "chat_ok a" and lv: "live a p" and r: "respond_leave (abstraction a) p (mRoomIndex (heap a p)) \<noteq> None"
  shows "\<exists>rc a1. User_LeaveRoom p a = Inr (rc, a1) \<and> session_ok p (heap a1 p)"
proof -
  note ok' = chat_okD[OF ok]
  have "\<exists>rc rm out. RoomManager_LeaveUser (heap a) (mRoomIndex (heap a p)) p (rooms a) (sent a) = Inr (rc, rm, out)"
    using r RoomManager_LeaveUser_table[OF ok'(3,2), of "heap a" "mRoomIndex (heap a p)" p "sent a"]
    by (auto simp: respond_leave_def Let_def abs_simps split: if_splits)
  then obtain rc rm out where rm: "RoomManager_LeaveUser (heap a) (mRoomIndex (heap a p)) p (rooms a) (sent a) = Inr (rc, rm, out)"
    by blast
  show ?thesis
    by (rule User_LeaveRoom_ok[OF ok'(1) lv rm]) auto
qed

lemma CheckLoginable_returns:
  assumes ok: "chat_ok a" and lv: "live a p"
    and r: "respond_login d (abstraction a) (accounts a) p uid pw \<noteq> None"
  shows "\<exists>rc a1. CheckLoginable d (of_nat p) uid pw a = Inr (rc, a1)"
proof -
  note ok' = chat_okD[OF ok]
  have idx: "sint (of_nat p :: u32) = int p"
    using live_index[OF ok'(1) lv] by simp
  note none = FindUserIndexByID_none[OF ok'(1), of uid]
  show ?thesis
  proof (cases "mUserIDDictionary a uid")
    case None
    then obtain found db where db: "SelectAccount d uid pw (accounts a) = Some (found, db)"
      using r by (auto simp: respond_login_def abs_simps split: option.splits)
    obtain u where "AddUser uid (int p) (a\<lparr>accounts := db\<rparr>) = Inr (NONE, u)"
      by (rule AddUser_new[of "a\<lparr>accounts := db\<rparr>" p uid]) (use ok'(1) lv None in auto)
    then show ?thesis
      using db none None idx by (auto simp: CheckLoginable_def Let_def)
  next
    case (Some i)
    then show ?thesis
      using none by (auto simp: CheckLoginable_def)
  qed
qed

lemma Login_returns:
  assumes ok: "chat_ok a" and lv: "live a p" and r: "respond_login d (abstraction a) (accounts a) p uid pw \<noteq> None"
    and n: "unat n = REQ_LOGIN_PACKET_SIZE"
    and f: "read_string off_UserID (drop ptr (mPacketDataBuffer (heap a p))) = Inr uid"
      "read_string off_UserPW (drop ptr (mPacketDataBuffer (heap a p))) = Inr pw"
  shows "\<exists>a'. ProcessLogin d p (of_nat p) n (Some ptr) a = Inr a'"
proof -
  note ok' = chat_okD[OF ok]
  obtain rc a1 where l: "CheckLoginable d (of_nat p) uid pw a = Inr (rc, a1)"
    using CheckLoginable_returns[OF ok lv r] by blast
  have s: "session_ok p (heap a p)"
    using app_ok_session[OF ok'(1) lv] .
  have "\<exists>a'. bindr (if result_code rc = result_code LOGIN_SUCCESS then on_user p (SetLogin uid) a1 else Inr a1)
      (send_ack p (of_nat p) ACK_LOGIN rc) = Inr a'"
    using ok'(1) lv ok'(6) l
  proof (cases rule: CheckLoginable_effect)
    case already
    then show ?thesis
      using s by (simp add: send_ack_eq)
  next
    case (wrong db)
    then show ?thesis
      using s by (simp add: send_ack_eq)
  next
    case (accepted db u)
    obtain u' where "ChangeState InLobby u = Inr u'" "session_ok p u'"
      by (rule session_ChangeState[OF accepted(5), of InLobby]) auto
    then show ?thesis
      using accepted(1,4) by (simp add: on_user_def SetLogin_def send_ack_eq)
  qed
  then show ?thesis
    using n f l by (simp add: ProcessLogin_def read_at)
qed

text \<open>The handler of a state returns where its request can be read and has an answer.\<close>

definition answerable :: "'db odbc \<Rightarrow> PACKET_ID \<Rightarrow> u16 \<Rightarrow> nat \<Rightarrow> nat \<Rightarrow> 'db app \<Rightarrow> bool" where
  "answerable d pid n ptr p a \<longleftrightarrow> (case request_of (mode_of (heap a p)) (pid16 pid) (unat n) (drop ptr (mPacketDataBuffer (heap a p))) of
     Inl e \<Rightarrow> False | Inr None \<Rightarrow> True | Inr (Some r) \<Rightarrow> respond d (abstraction a) (accounts a) p (mode_of (heap a p)) r \<noteq> None)"

lemma serves_answerable: "serves d pid n ptr p a a' \<Longrightarrow> answerable d pid n ptr p a"
  by (auto simp: serves_def answerable_def answers_def split: option.splits)

lemma with_db_None [simp]: "with_db db x = None \<longleftrightarrow> x = None"
  by (simp add: with_db_def)

lemma room_info_sent: "unat (ucast (of_nat k :: u32) :: u16) \<le> k"
proof -
  have "unat (ucast (of_nat k :: u32) :: u16) = k mod 65536"
    by (simp add: unsigned_of_nat) (simp add: take_bit_eq_mod)
  then show ?thesis
    by simp
qed

lemma run_recv_returns:
  assumes ok: "chat_ok a" and lv: "live a p" and c: "\<not> cleared (heap a p)" and pid: "pid \<in> set requests"
    and ans: "answerable d pid n ptr p a"
  shows "\<exists>a'. run_recv d (allowed (mState (heap a p)) pid) p n (Some ptr) a = Inr a'"
proof -
  note ok' = chat_okD[OF ok]
  let ?mem = "drop ptr (mPacketDataBuffer (heap a p))"
  have s: "session_ok p (heap a p)"
    using app_ok_session[OF ok'(1) lv] .
  have idx: "word_of_int (GetNetConnIdx (heap a) p) = (of_nat p :: u32)"
    using s by (simp add: GetNetConnIdx_def session_ok_def)
  have st: "in_state (heap a p)"
    using s c by (auto simp: session_ok_def user_ok_def)
  note md = mode_of_in_state[OF st]
  show ?thesis
  proof (cases "allowed (mState (heap a p)) pid")
    case RecvNothing
    then show ?thesis by simp
  next
    case Connected_ProcessCreateAccount
    note al = this
    have m: "mode_of (heap a p) = Waiting" "pid = REQ_CREATE_ACCOUNT"
      using md al by (auto elim!: allowed.elims)
    show ?thesis
    proof (cases "unat n = REQ_LOGIN_PACKET_SIZE")
      case True
      then obtain uid pw where "read_string off_UserID ?mem = Inr uid" "read_string off_UserPW ?mem = Inr pw"
        using ans m by (auto simp: answerable_def account_fields_def bindr_simps split: sum.splits option.splits)
      then show ?thesis
        using s True unfolding al by (cases "CreateAccount d uid pw (accounts a)")
          (simp add: idx ProcessCreateAccount_def UserManager_CreateAccount_def read_at send_ack_eq packet_sizes del: of_int_of_nat_eq)
    next
      case False
      then show ?thesis
        unfolding al by (simp add: ProcessCreateAccount_def packet_sizes)
    qed
  next
    case Connected_ProcessLogin
    note al = this
    have m: "mode_of (heap a p) = Waiting" "pid = REQ_LOGIN"
      using md al by (auto elim!: allowed.elims)
    show ?thesis
    proof (cases "unat n = REQ_LOGIN_PACKET_SIZE")
      case True
      then obtain uid pw where "read_string off_UserID ?mem = Inr uid" "read_string off_UserPW ?mem = Inr pw"
        "respond_login d (abstraction a) (accounts a) p uid pw \<noteq> None"
        using ans m by (auto simp: answerable_def account_fields_def pid16_inj bindr_simps split: sum.splits option.splits)
      then show ?thesis
        using Login_returns[OF ok lv _ True] unfolding al by (simp add: idx del: of_int_of_nat_eq)
    next
      case False
      then show ?thesis
        unfolding al by (simp add: ProcessLogin_def)
    qed
  next
    case InLobby_ProcessLobbyInfo
    let ?cs = "notify_lobby_cells (map int [0..<10])"
    let ?a = "a\<lparr>sent := sent a @ [(of_nat p, ack_cells ACK_LOBBY_INFO 90)]\<rparr>"
    have "length ?cs = lobby_info_length (map int [0..<10])" and "lobby_info_length (map int [0..<10]) < 65536"
      by (simp_all add: length_notify_lobby_cells lobby_info_length_def packet_sizes)
    then have "\<exists>a'. send_to p (of_nat p) (of_nat (lobby_info_length (map int [0..<10]))) ?cs ?a = Inr a'"
      using send_to_whole[of p ?a ?cs "of_nat p"] s by simp
    then show ?thesis
      using s GetRoomList_table[OF ok] unfolding InLobby_ProcessLobbyInfo
      by (simp add: idx ProcessLobbyInfo_def send_ack_eq Let_def del: of_int_of_nat_eq upt_Suc)
  next
    case InLobby_ProcessEnterRoom
    note al = this
    have m: "mode_of (heap a p) = Lobby" "pid = REQ_ROOM_ENTER"
      using md al by (auto elim!: allowed.elims)
    obtain w where w: "read_u32 off_RoomNumber ?mem = Inr w" "respond_enter (abstraction a) p (sint w) \<noteq> None"
      using ans m by (cases "read_u32 off_RoomNumber ?mem") (auto simp: answerable_def pid16_inj)
    obtain rc a1 where "User_EnterRoom p (sint w) a = Inr (rc, a1)" "session_ok p (heap a1 p)"
      using EnterRoom_returns[OF ok lv m(1) w(2)] by blast
    then show ?thesis
      using w(1) unfolding al by (simp add: idx ProcessEnterRoom_def read_at send_ack_eq del: of_int_of_nat_eq)
  next
    case InRoom_ProcessRoomInfo
    note al = this
    have m: "mode_of (heap a p) = Chatting (mRoomIndex (heap a p))" "pid = REQ_ROOM_INFO"
      using md al by (auto elim!: allowed.elims)
    have t: "in_table (mRoomIndex (heap a p))"
      using ans m by (auto simp: answerable_def split: if_splits)
    show ?thesis
      using User_GetRoom_numbered[OF shape_limit(1)[OF ok'(3,2) t]] s
      unfolding al by (simp add: idx ProcessRoomInfo_def GetRoomMemberList_def Let_def send_to_def send_call_def session_ok_def
        read_cells_def length_ack_room_info_cells room_info_sent del: of_int_of_nat_eq)
  next
    case InRoom_ProcessLeaveRoom
    note al = this
    have m: "mode_of (heap a p) = Chatting (mRoomIndex (heap a p))" "pid = REQ_ROOM_LEAVE"
      using md al by (auto elim!: allowed.elims)
    obtain rc a1 where "User_LeaveRoom p a = Inr (rc, a1)" "session_ok p (heap a1 p)"
      using LeaveRoom_returns[OF ok lv] ans m by (auto simp: answerable_def pid16_inj)
    then show ?thesis
      unfolding al by (simp add: idx ProcessLeaveRoom_def send_ack_eq del: of_int_of_nat_eq)
  next
    case InRoom_ProcessRoomChatMessage
    note al = this
    have m: "mode_of (heap a p) = Chatting (mRoomIndex (heap a p))" "pid = REQ_ROOM_CHAT"
      using md al by (auto elim!: allowed.elims)
    show ?thesis
    proof (cases "in_table (mRoomIndex (heap a p))")
      case False
      then have "User_GetRoom p a = Inr None"
        using not_in_table[OF ok'(3,2)] by (simp add: User_GetRoom_def)
      then show ?thesis
        using s unfolding al by (simp add: idx ProcessRoomChatMessage_def send_ack_eq del: of_int_of_nat_eq)
    next
      case True
      note n = shape_limit[OF ok'(3,2) True]
      have "off_Message + 257 \<le> length ?mem"
        using ans m True by (auto simp: answerable_def pid16_inj read_cells_def packet_sizes split: if_splits)
      then show ?thesis
        using s User_GetRoom_numbered[OF n(1)] NotifyChat_eq[OF room_numbered_send[OF n(1)]]
        unfolding al by (auto simp: idx ProcessRoomChatMessage_def send_ack_eq simp del: of_int_of_nat_eq)
    qed
  qed
qed

section \<open>Turns return\<close>

definition can_answer :: "'db odbc \<Rightarrow> 'db service \<Rightarrow> nat \<Rightarrow> nat \<Rightarrow> cell list \<Rightarrow> bool" where
  "can_answer d v p n mem \<longleftrightarrow> (case request_of (phase_at (machine v) p) (of_le16 (drop 2 (waiting v p))) n mem of
     Inl e \<Rightarrow> False | Inr None \<Rightarrow> True
   | Inr (Some r) \<Rightarrow> respond d (machine v) (database v) p (phase_at (machine v) p) r \<noteq> None)"

abbreviation app_of :: "('db, 'conn) chat_server \<Rightarrow> 'db app" where
  "app_of s \<equiv> mUserManager (mPacketManager s)"

text \<open>The memory from the first packet of a session on.\<close>

definition packet_memory :: "user \<Rightarrow> cell list" where
  "packet_memory u = drop (unat (mPacketDataBufferRPos u)) (mPacketDataBuffer u)"

lemma recv_returns_iff:
  assumes ok: "pm_ok s" and c: "chat_ok (mUserManager s)" and q: "mInComingPacketUserIndex s = of_nat p # is"
    and lv: "live (mUserManager s) p" and u: "u = heap (mUserManager s) p" and g: "spec_get (stream u) = Some (f, rest)"
  shows "(\<exists>s'. ProcessPacket_recv d s = Inr s') \<longleftrightarrow> can_answer d (service_of (mUserManager s)) p (length f) (packet_memory u)"
proof -
  let ?a = "mUserManager s"
  let ?a1 = "?a\<lparr>heap := (heap ?a)(p := taken (heap ?a p))\<rparr>"
  have s: "session_ok p u"
    using app_ok_session[OF chat_okD(1)[OF c] lv] u by simp
  have len: "length f = unat (of_le16 (stream u))"
    using taken_service(5)[of p ?a f rest ?a1] s g u by simp
  show ?thesis
  proof (cases "served u (of_le16 (drop 2 (stream u)))")
    case False
    then have "\<exists>s'. ProcessPacket_recv d s = Inr s'"
      using unserved_packet_step[OF ok q lv u, of d] by blast
    then show ?thesis
      using unserved_request[OF s False] by (simp add: can_answer_def service_of_def abs_simps u)
  next
    case True
    then obtain pid where pid: "pid \<in> set requests" and id: "of_le16 (drop 2 (stream u)) = pid16 pid" and nc: "\<not> cleared u"
      by (auto simp: served_def)
    have c1: "chat_ok ?a1"
      using c taken_pm_ok[OF ok q lv] by (simp add: chat_ok_def pm_ok_def shape_def)
    have lv1: "live ?a1 p"
      using lv by simp
    note t = taken_ok[OF s] and ts = taken_service[of p ?a f rest ?a1]
    have nc1: "\<not> cleared (heap ?a1 p)"
      using nc t(4) by (simp add: cleared_def u)
    have e: "mode_of (heap ?a1 p) = phase_at (machine (service_of ?a)) p" "abstraction ?a1 = machine (service_of ?a)"
      "accounts ?a1 = database (service_of ?a)" "mPacketDataBuffer (heap ?a1 p) = mPacketDataBuffer u"
      "waiting (service_of ?a) p = stream u"
      using ts(2,3) s g u by (simp_all add: service_of_def abs_simps)
    let ?run = "run_recv d (allowed (mState u) pid) p (of_le16 (stream u)) (Some (unat (mPacketDataBufferRPos u))) ?a1"
    have "(\<exists>s'. ProcessPacket_recv d s = Inr s') \<longleftrightarrow> (\<exists>a'. ?run = Inr a')"
      unfolding served_run[OF ok q lv u refl g pid id nc] u by (auto simp: bindr_simps)
    also have "\<dots> \<longleftrightarrow> answerable d pid (of_le16 (stream u)) (unat (mPacketDataBufferRPos u)) p ?a1"
    proof
      assume "\<exists>a'. ?run = Inr a'"
      then show "answerable d pid (of_le16 (stream u)) (unat (mPacketDataBufferRPos u)) p ?a1"
        using run_recv_serves[OF c1 lv1 nc1 pid] serves_answerable t(3) u by fastforce
    next
      assume "answerable d pid (of_le16 (stream u)) (unat (mPacketDataBufferRPos u)) p ?a1"
      from run_recv_returns[OF c1 lv1 nc1 pid this] show "\<exists>a'. ?run = Inr a'"
        using t(3) u by simp
    qed
    also have "\<dots> \<longleftrightarrow> can_answer d (service_of ?a) p (length f) (packet_memory u)"
      unfolding answerable_def can_answer_def len packet_memory_def e id ..
    finally show ?thesis .
  qed
qed

lemma system_returns:
  assumes ok: "pm_ok s"
  shows "\<exists>s'. ProcessPacket_system d s = Inr s'"
proof (cases "mSystemPacketQueue s")
  case Nil
  then show ?thesis
    by (simp add: ProcessPacket_system_def DequeSystemPacketData_def empty_PacketInfo_def)
next
  case (Cons x xs)
  show ?thesis
    by (rule system_packet_effect[OF ok Cons]) blast
qed

lemma turn_returns_iff:
  assumes r: "chat_reach d m handle db s" and q: "mInComingPacketUserIndex (mPacketManager s) = of_nat p # is"
    and p: "p < MAX_CLIENT"
  shows "(\<exists>pm. ProcessPacket d (mPacketManager s) = Inr pm) \<longleftrightarrow> (case spec_get (stream (heap (app_of s) p)) of
      None \<Rightarrow> True
    | Some (f, rest) \<Rightarrow> can_answer d (service_of (app_of s)) p (length f) (packet_memory (heap (app_of s) p)))"
proof -
  have so: "server_ok s" and rest: "at_rest s"
    using chat_reach_ok[OF r] reach_implements[OF r] by auto
  then have ok: "pm_ok (mPacketManager s)" and lv: "live (app_of s) p" and c: "chat_ok (app_of s)"
    using p server_chat_ok by (auto simp: server_ok_def live_def)
  have "(\<exists>pm. ProcessPacket d (mPacketManager s) = Inr pm) \<longleftrightarrow> (\<exists>pm. ProcessPacket_recv d (mPacketManager s) = Inr pm)"
  proof
    assume "\<exists>pm. ProcessPacket_recv d (mPacketManager s) = Inr pm"
    then obtain pm where pm: "ProcessPacket_recv d (mPacketManager s) = Inr pm" ..
    then show "\<exists>pm. ProcessPacket d (mPacketManager s) = Inr pm"
      using system_returns[OF ProcessPacket_recv_ok(1)[OF ok pm]] by (simp add: ProcessPacket_def)
  qed (use chat_reach_running[OF r] in \<open>auto simp: ProcessPacket_def bindr_simps\<close>)
  also have "\<dots> \<longleftrightarrow> (case spec_get (stream (heap (app_of s) p)) of None \<Rightarrow> True
    | Some (f, rest) \<Rightarrow> can_answer d (service_of (app_of s)) p (length f) (packet_memory (heap (app_of s) p)))"
  proof (cases "spec_get (stream (heap (app_of s) p))")
    case None
    then show ?thesis
      using unserved_packet_step[OF ok q lv refl, of d] by auto
  next
    case (Some fr)
    then show ?thesis
      using recv_returns_iff[OF ok c q lv refl] by (cases fr) auto
  qed
  finally show ?thesis .
qed

section \<open>A quiet server serves\<close>

text \<open>Every slot has its front buffer with the system, which accepts the sends.\<close>

definition slots_ok :: "iocp_server \<Rightarrow> bool" where
  "slots_ok n \<longleftrightarrow> (\<forall>c \<in> set (mClientInfos n). posted c = completed c @ take 1 (mSendDataqueue c))"

lemma slots_ok_update:
  assumes "slots_ok n" and "posted c = completed c @ take 1 (mSendDataqueue c)"
  shows "slots_ok (n\<lparr>mClientInfos := (mClientInfos n)[i := c]\<rparr>)"
  using assms set_update_subset_insert by (fastforce simp: slots_ok_def)

lemma flush_slots:
  assumes "flush (\<lambda>_. True) xs n = Inr n'" and "slots_ok n" and "\<forall>(c, data) \<in> set xs. length data < 65536"
  shows "slots_ok n'"
  using assms
proof (induction "(\<lambda>_ :: nat. True)" xs n rule: flush.induct)
  case (2 c data xs n)
  obtain r n1 where s: "IOCP_SendMsg True c (of_nat (length data)) data n = Inr (r, n1)"
    and f: "flush (\<lambda>_. True) xs n1 = Inr n'"
    using "2.prems"(1) by (auto simp: bindr_simps)
  obtain b c1 where u: "unat c < length (mClientInfos n)"
    and sm: "ClientInfo_SendMsg True (of_nat (length data)) data (mClientInfos n ! unat c) = Inr (b, c1)"
    and n1: "n1 = n\<lparr>mClientInfos := (mClientInfos n)[unat c := c1]\<rparr>"
    using s by (auto simp: IOCP_SendMsg_def GetClientInfo_def bindr_simps split: if_splits)
  have "posted (mClientInfos n ! unat c) = completed (mClientInfos n ! unat c) @ take 1 (mSendDataqueue (mClientInfos n ! unat c))"
    using "2.prems"(2) u by (simp add: slots_ok_def)
  from slot.send_law[OF _ this, of data] have "posted c1 = completed c1 @ take 1 (mSendDataqueue c1)"
    using "2.prems"(3) sm by (auto simp: slot_send_def)
  then have "slots_ok n1"
    unfolding n1 by (rule slots_ok_update[OF "2.prems"(2)])
  then show ?case
    using "2.hyps"[of "(r, n1)" r n1] s f "2.prems"(3) by simp
qed simp

text \<open>Both queues are empty, the workers and the packet thread run.\<close>

definition quiet :: "'db odbc \<Rightarrow> memcpy_mode \<Rightarrow> nat option \<times> u64 \<Rightarrow> 'db \<Rightarrow> ('db, 'conn) chat_server \<Rightarrow> bool" where
  "quiet d m handle db s \<longleftrightarrow> serving d m handle db s \<and> slots_ok (mNetwork s)
     \<and> mInComingPacketUserIndex (mPacketManager s) = [] \<and> mSystemPacketQueue (mPacketManager s) = []"

text \<open>From \<open>s\<close> to \<open>s'\<close> the service moves to \<open>v\<close> and the messages \<open>out\<close> are appended to the lines of their clients.\<close>

definition moves :: "('db, 'conn) chat_server \<Rightarrow> 'db service \<Rightarrow> (nat \<times> message) list \<Rightarrow> ('db, 'conn) chat_server \<Rightarrow> bool" where
  "moves s v out s' \<longleftrightarrow> service_of (app_of s') = v
     \<and> (\<forall>i < MAX_CLIENT. send_lines (mNetwork s') ! i = send_lines (mNetwork s) ! i @ messages_to i out)"

text \<open>The steps of an exchange: \<open>bs\<close> arrive for the slot \<open>p\<close>, and the packet thread takes a turn.\<close>

definition receives :: "'db odbc \<Rightarrow> memcpy_mode \<Rightarrow> nat \<Rightarrow> bytes \<Rightarrow> ('db, 'conn) chat_server \<Rightarrow> ('db, 'conn) chat_server \<Rightarrow> bool" where
  "receives d m p bs s s' \<longleftrightarrow> chat_step d m s s' \<and> mNetwork s' = mNetwork s
     \<and> ChatServer_OnReceive m (of_nat p) (of_nat (length bs)) (map Some bs) (mPacketManager s) = Inr (mPacketManager s')"

definition takes_turn :: "'db odbc \<Rightarrow> memcpy_mode \<Rightarrow> ('db, 'conn) chat_server \<Rightarrow> ('db, 'conn) chat_server \<Rightarrow> bool" where
  "takes_turn d m s s' \<longleftrightarrow> chat_step d m s s' \<and> (\<exists>pm. ProcessPacket d (mPacketManager s) = Inr pm \<and> mPacketManager s' = clear_outbox pm
     \<and> flush (\<lambda>_. True) (sent (mUserManager pm)) (mNetwork s) = Inr (mNetwork s'))"

lemma slots_ok_started: "slots_ok (mNetwork (started handle db))"
  by (auto simp: slots_ok_def started_def listening_def StartServer_def CreateWokerThread_def CreateAccepterThread_def CreateClient_def
      new_IOCPServer_def ClientInfo_Init_def new_ClientInfo_def)

lemma quiet_started: "quiet d m handle db (started handle db)"
  unfolding quiet_def
  by (intro conjI serving_started slots_ok_started) (simp_all add: started_def PacketManager_Init_def)

lemma serving_facts:
  assumes "serving d m handle db s" and "p < MAX_CLIENT"
  shows "pm_ok (mPacketManager s)" and "live (app_of s) p" and "chat_ok (app_of s)" and "at_rest s"
    and "server_ok s" and "net_ok MAX_CLIENT (mNetwork s)" and "mIsRunProcessThread (mPacketManager s)" and "session_ok p (heap (app_of s) p)"
proof -
  have r: "chat_reach d m handle db s"
    using assms(1) by (simp add: serving_def)
  show so: "server_ok s" and rest: "at_rest s"
    using chat_reach_ok[OF r] reach_implements[OF r] by auto
  then show "pm_ok (mPacketManager s)" and lv: "live (app_of s) p" and c: "chat_ok (app_of s)" and "net_ok MAX_CLIENT (mNetwork s)"
    using assms(2) server_chat_ok by (auto simp: server_ok_def live_def)
  show "mIsRunProcessThread (mPacketManager s)"
    using chat_reach_running[OF r] .
  show "session_ok p (heap (app_of s) p)"
    using app_ok_session[OF chat_okD(1)[OF c] lv] .
qed

text \<open>A turn whose packets are \<open>out\<close>.\<close>

lemma turn_moves:
  fixes s :: "('db, 'conn) chat_server"
  assumes s: "serving d m handle db s" and sl: "slots_ok (mNetwork s)" and p: "p < MAX_CLIENT"
    and turn: "ProcessPacket d (mPacketManager s) = Inr pm"
    and out: "sent (mUserManager pm) = map wire out" "\<forall>(q, m) \<in> set out. live (app_of s) q"
    and empty: "mInComingPacketUserIndex pm = []" "mSystemPacketQueue pm = []"
  obtains s' :: "('db, 'conn) chat_server" where "quiet d m handle db s'" and "takes_turn d m s s'"
    and "moves s (service_of (mUserManager pm)) out s'"
proof -
  note f = serving_facts[OF s p]
  obtain h where sim: "simulates d (app_of s) h (mUserManager pm)"
    using turn_simulates(1)[OF f(1,3) turn] by blast
  note o = turn_outbox[OF f(5,4) sim]
  obtain n where fl: "flush (\<lambda>_. True) (sent (mUserManager pm)) (mNetwork s) = Inr n"
    using flush_returns[OF f(6) o(3)] by blast
  obtain s' :: "('db, 'conn) chat_server" where s': "serving d m handle db s'" "chat_step d m s s'" "mNetwork s' = n" "mPacketManager s' = clear_outbox pm"
    by (rule serving_packets[OF s turn fl])
  have "\<forall>(c, data) \<in> set (sent (mUserManager pm)). length data < 65536"
    using o(3) by auto
  moreover have "\<forall>(q, m) \<in> set out. q < MAX_CLIENT"
    using out(2) f(5) by (simp add: server_ok_def live_def)
  ultimately have "send_lines n ! i = send_lines (mNetwork s) ! i @ messages_to i out" if "i < MAX_CLIENT" for i
    using flush_lines[OF f(6) fl _ that] messages_to_wire by (simp add: out(1))
  moreover have "service_of (mUserManager (clear_outbox pm)) = service_of (mUserManager pm)"
    by (simp add: clear_outbox_def service_of_def abs_simps)
  ultimately have "moves s (service_of (mUserManager pm)) out s'"
    by (simp add: moves_def s')
  moreover have "quiet d m handle db s'"
    using s' empty flush_slots[OF fl sl] o(3) by (fastforce simp: quiet_def clear_outbox_def)
  moreover have "takes_turn d m s s'"
    using s' turn fl by (simp add: takes_turn_def)
  ultimately show thesis
    using that by blast
qed

lemma turn_without_system:
  assumes "mIsRunProcessThread s" and "ProcessPacket_recv d s = Inr s'" and "mSystemPacketQueue s' = []"
  shows "ProcessPacket d s = Inr s'"
  using assms by (simp add: ProcessPacket_def ProcessPacket_system_def DequeSystemPacketData_def empty_PacketInfo_def)

text \<open>A connection opens.\<close>

lemma quiet_connect:
  fixes s :: "('db, 'conn) chat_server"
  assumes q: "quiet d m handle db s" and p: "p < MAX_CLIENT"
  obtains s' :: "('db, 'conn) chat_server" where "quiet d m handle db s'" and "(chat_step d m)\<^sup>*\<^sup>* s s'"
    and "moves s ((service_of (app_of s))\<lparr>machine := opened p (machine (service_of (app_of s))),
      waiting := (waiting (service_of (app_of s)))(p := [])\<rparr>) [] s'"
proof -
  have sv: "serving d m handle db s" and e: "mInComingPacketUserIndex (mPacketManager s) = []" "mSystemPacketQueue (mPacketManager s) = []"
    and sl: "slots_ok (mNetwork s)"
    using q by (auto simp: quiet_def)
  let ?x = "system_packet SYS_USER_CONNECT (of_nat p)"
  obtain s1 :: "('db, 'conn) chat_server" where s1: "serving d m handle db s1" and st1: "chat_step d m s s1"
    and n1: "mClientInfos (mNetwork s1) = mClientInfos (mNetwork s)"
    and p1: "mPacketManager s1 = PushSystemPacket ?x (mPacketManager s)"
    by (rule serving_connect[OF sv p])
  note f = serving_facts[OF s1 p]
  have a1: "app_of s1 = app_of s" and sys: "mSystemPacketQueue (mPacketManager s1) = [?x]"
    and inc: "mInComingPacketUserIndex (mPacketManager s1) = []"
    using p1 e by (simp_all add: PushSystemPacket_def)
  obtain u where c: "ProcessPacket_system d (mPacketManager s1) = Inr ((mPacketManager s1)\<lparr>mSystemPacketQueue := [],
      mUserManager := (app_of s1)\<lparr>heap := (heap (app_of s1))(p := u)\<rparr>\<rparr>)"
    and u: "mState u = Connected" "\<not> cleared u" "mUserID u = []" "stream u = []"
    by (rule connect_dispatch[OF f(1,2), of "[]" d]) (use sys in auto)
  let ?pm = "(mPacketManager s1)\<lparr>mSystemPacketQueue := [], mUserManager := (app_of s1)\<lparr>heap := (heap (app_of s1))(p := u)\<rparr>\<rparr>"
  have t: "ProcessPacket d (mPacketManager s1) = Inr ?pm"
    using c f(7) inc by (simp add: ProcessPacket_def ProcessPacket_recv_def DequePacketData_empty empty_PacketInfo_def)
  have "mode_of u = Waiting"
    using u(1,2) by (simp add: mode_of_def)
  then have v: "service_of (mUserManager ?pm) = (service_of (app_of s))\<lparr>machine := opened p (machine (service_of (app_of s))),
      waiting := (waiting (service_of (app_of s)))(p := [])\<rparr>"
    using u(3,4) by (simp add: service_of_def a1 abs_simps opened_def fun_eq_iff)
  obtain s' :: "('db, 'conn) chat_server" where "quiet d m handle db s'" and "takes_turn d m s1 s'"
    and "moves s1 (service_of (mUserManager ?pm)) [] s'"
    by (rule turn_moves[OF s1 _ p t, of "[]"]) (use f(4) inc sl n1 in \<open>auto simp: at_rest_def slots_ok_def\<close>)
  moreover from this have "(chat_step d m)\<^sup>*\<^sup>* s s'"
    using st1 by (auto simp: takes_turn_def intro: rtranclp.rtrancl_into_rtrancl)
  ultimately show thesis
    using n1 that[of s'] unfolding v by (simp add: moves_def send_lines_def)
qed

text \<open>Bytes arrive.\<close>

lemma quiet_receive:
  fixes s :: "('db, 'conn) chat_server"
  assumes q: "quiet d m handle db s" and p: "p < MAX_CLIENT" and bs: "0 < length bs" "length bs \<le> MAX_SOCKBUF"
    and bl: "length (stream (heap (app_of s) p)) \<le> 3920"
  obtains s1 :: "('db, 'conn) chat_server" where "serving d m handle db s1" and "receives d m p bs s s1" and "mNetwork s1 = mNetwork s"
    and "mInComingPacketUserIndex (mPacketManager s1) = [of_nat p]" and "mSystemPacketQueue (mPacketManager s1) = []"
    and "service_of (app_of s1) = (service_of (app_of s))\<lparr>waiting := (waiting (service_of (app_of s)))
          (p := waiting (service_of (app_of s)) p @ bs)\<rparr>"
proof -
  have sv: "serving d m handle db s" and e: "mInComingPacketUserIndex (mPacketManager s) = []" "mSystemPacketQueue (mPacketManager s) = []"
    and sl: "slots_ok (mNetwork s)"
    using q by (auto simp: quiet_def)
  note f = serving_facts[OF sv p]
  obtain u where r: "ReceivePacketData m (of_nat p) (of_nat (length bs)) (map Some bs) (mPacketManager s) =
      Inr ((mPacketManager s)\<lparr>mUserManager := (app_of s)\<lparr>heap := (heap (app_of s))(p := u)\<rparr>,
        mInComingPacketUserIndex := mInComingPacketUserIndex (mPacketManager s) @ [of_nat p]\<rparr>)"
    and u: "stream u = stream (heap (app_of s) p) @ bs" "mUserID u = mUserID (heap (app_of s) p)"
      "mState u = mState (heap (app_of s) p)" "recvFuntionDictionary u = recvFuntionDictionary (heap (app_of s) p)"
      "mRoomIndex u = mRoomIndex (heap (app_of s) p)"
    by (rule ReceivePacketData_small[OF f(1,2) bs(2) bl])
  obtain s1 :: "('db, 'conn) chat_server" where s1: "serving d m handle db s1" "chat_step d m s s1" "mNetwork s1 = mNetwork s" and p1: "mPacketManager s1 =
      (mPacketManager s)\<lparr>mUserManager := (app_of s)\<lparr>heap := (heap (app_of s))(p := u)\<rparr>,
        mInComingPacketUserIndex := mInComingPacketUserIndex (mPacketManager s) @ [of_nat p]\<rparr>"
    by (rule serving_receive[OF sv p bs r])
  have "abstraction (app_of s1) = abstraction (app_of s)"
    using abstraction_buffer[OF mode_of_buffer[OF u(3,4,5)] u(2)] by (simp add: p1)
  then have "service_of (app_of s1) = (service_of (app_of s))\<lparr>waiting := (waiting (service_of (app_of s)))
          (p := waiting (service_of (app_of s)) p @ bs)\<rparr>"
    using u(1) by (simp add: service_of_def p1 fun_eq_iff)
  moreover have "receives d m p bs s s1"
    using s1 r p1 by (simp add: receives_def ChatServer_OnReceive_def)
  ultimately show thesis
    using s1 p1 e by (intro that[of s1]) simp_all
qed

text \<open>Where no packet is complete yet, they wait; where one is, and asks for something that has an answer, it is answered.\<close>

lemma quiet_wait:
  fixes s :: "('db, 'conn) chat_server"
  assumes q: "quiet d m handle db s" and p: "p < MAX_CLIENT" and bs: "0 < length bs" "length bs \<le> MAX_SOCKBUF"
    and bl: "length (waiting (service_of (app_of s)) p) \<le> 3920" and g: "spec_get (waiting (service_of (app_of s)) p @ bs) = None"
  obtains s' :: "('db, 'conn) chat_server" where "quiet d m handle db s'" and "(chat_step d m)\<^sup>*\<^sup>* s s'"
    and "moves s ((service_of (app_of s))\<lparr>waiting := (waiting (service_of (app_of s)))
          (p := waiting (service_of (app_of s)) p @ bs)\<rparr>) [] s'"
proof -
  have bl': "length (stream (heap (app_of s) p)) \<le> 3920"
    using bl by (simp add: service_of_def)
  obtain s1 :: "('db, 'conn) chat_server" where s1: "serving d m handle db s1" "mNetwork s1 = mNetwork s" and rc: "receives d m p bs s s1"
    and inc: "mInComingPacketUserIndex (mPacketManager s1) = [of_nat p]" and sys: "mSystemPacketQueue (mPacketManager s1) = []"
    and v: "service_of (app_of s1) = (service_of (app_of s))\<lparr>waiting := (waiting (service_of (app_of s)))
          (p := waiting (service_of (app_of s)) p @ bs)\<rparr>"
    by (rule quiet_receive[OF q p bs bl'])
  note f = serving_facts[OF s1(1) p]
  have "waiting (service_of (app_of s1)) p = waiting (service_of (app_of s)) p @ bs"
    by (simp add: v)
  then have n: "spec_get (stream (heap (app_of s1) p)) = None"
    using g by (simp add: service_of_def)
  let ?pm = "(mPacketManager s1)\<lparr>mInComingPacketUserIndex := [], mUserManager := (app_of s1)\<lparr>heap := (heap (app_of s1))
      (p := taken (heap (app_of s1) p))\<rparr>\<rparr>"
  have "ProcessPacket_recv d (mPacketManager s1) = Inr ?pm"
    by (rule unserved_packet_step[OF f(1) inc f(2) refl]) (use n in simp)
  then have t: "ProcessPacket d (mPacketManager s1) = Inr ?pm"
    using sys by (intro turn_without_system[OF f(7)]) simp_all
  have a: "mUserManager ?pm = app_of s1"
    using n by (simp add: taken_def)
  obtain s' :: "('db, 'conn) chat_server" where "quiet d m handle db s'" and "takes_turn d m s1 s'"
    and "moves s1 (service_of (mUserManager ?pm)) [] s'"
    by (rule turn_moves[OF s1(1) _ p t, of "[]"]) (use f(4) sys s1(2) q in \<open>auto simp: at_rest_def quiet_def\<close>)
  moreover from this have "(chat_step d m)\<^sup>*\<^sup>* s s'"
    using rc by (auto simp: takes_turn_def receives_def intro: rtranclp.rtrancl_into_rtrancl)
  ultimately show thesis
    using that[of s'] s1(2) unfolding a v by (simp add: moves_def)
qed

lemma quiet_request:
  fixes s :: "('db, 'conn) chat_server"
  assumes q: "quiet d m handle db s" and p: "p < MAX_CLIENT" and bs: "0 < length bs" "length bs \<le> MAX_SOCKBUF"
    and v: "v = service_of (app_of s)" and bl: "length (waiting v p) \<le> 3920" and w: "w = waiting v p @ bs"
    and g: "spec_get w = Some (f, rest)"
    and req: "\<And>junk. request_of (phase_at (machine v) p) (of_le16 (drop 2 w)) (length f) (map Some w @ junk) = Inr (Some r)"
    and ans: "respond d (machine v) (database v) p (phase_at (machine v) p) r = Some (out, t, db')"
  obtains s1 s' :: "('db, 'conn) chat_server" where "quiet d m handle db s'" and "receives d m p bs s s1" and "takes_turn d m s1 s'"
    and "(chat_step d m)\<^sup>*\<^sup>* s s'" and "moves s \<lparr>machine = t, database = db', waiting = (waiting v)(p := rest)\<rparr> out s'"
proof -
  have bl': "length (stream (heap (app_of s) p)) \<le> 3920"
    using bl v by (simp add: service_of_def)
  obtain s1 :: "('db, 'conn) chat_server" where s1: "serving d m handle db s1" "mNetwork s1 = mNetwork s" and rc: "receives d m p bs s s1"
    and inc: "mInComingPacketUserIndex (mPacketManager s1) = [of_nat p]" and sys: "mSystemPacketQueue (mPacketManager s1) = []"
    and v1: "service_of (app_of s1) = v\<lparr>waiting := (waiting v)(p := w)\<rparr>"
    by (rule quiet_receive[OF q p bs bl']) (use v w in simp)
  note fs = serving_facts[OF s1(1) p]
  let ?a = "app_of s1"
  let ?u = "heap ?a p"
  let ?a1 = "?a\<lparr>heap := (heap ?a)(p := taken ?u)\<rparr>"
  have st: "stream ?u = w" and ph: "mode_of ?u = phase_at (machine v) p" and ab: "abstraction ?a = machine v"
    and ac: "accounts ?a = database v"
    using arg_cong[OF v1, of "\<lambda>v. waiting v p"] arg_cong[OF v1, of "\<lambda>v. phase_at (machine v) p"]
      arg_cong[OF v1, of machine] arg_cong[OF v1, of database] by (simp_all add: service_of_def abs_simps)
  have g1: "spec_get (stream ?u) = Some (f, rest)"
    using g st by simp
  note ts = taken_service[OF fs(8) g1 refl]
  have served: "served ?u (of_le16 (drop 2 w))"
    using unserved_request[OF fs(8)] req[of "[]"] ph by fastforce
  then obtain pid where pid: "pid \<in> set requests" and id: "of_le16 (drop 2 w) = pid16 pid" and nc: "\<not> cleared ?u"
    by (auto simp: served_def)
  have c1: "chat_ok ?a1" and lv1: "live ?a1 p" and nc1: "\<not> cleared (heap ?a1 p)"
    using fs(3) taken_pm_ok[OF fs(1) inc fs(2)] fs(2) nc taken_ok(4)[OF fs(8)]
    by (simp_all add: chat_ok_def pm_ok_def shape_def cleared_def)
  obtain junk where mem: "drop (unat (mPacketDataBufferRPos ?u)) (mPacketDataBuffer (heap ?a1 p)) = map Some w @ junk"
    using ts(4) st by blast
  have r1: "request_of (mode_of (heap ?a1 p)) (pid16 pid) (unat (of_le16 w))
      (drop (unat (mPacketDataBufferRPos ?u)) (mPacketDataBuffer (heap ?a1 p))) = Inr (Some r)"
    using req[of junk] ts(3,5) ph st unfolding mem by (simp add: id)
  have a1: "abstraction ?a1 = machine v" "mode_of (heap ?a1 p) = phase_at (machine v) p" "accounts ?a1 = database v"
    using ts(2,3) ab ph ac by simp_all
  have "answerable d pid (of_le16 w) (unat (mPacketDataBufferRPos ?u)) p ?a1"
    unfolding answerable_def r1 unfolding a1 using ans by simp
  from run_recv_returns[OF c1 lv1 nc1 pid this] obtain a' where
    run: "run_recv d (allowed (mState (heap ?a1 p)) pid) p (of_le16 w) (Some (unat (mPacketDataBufferRPos ?u))) ?a1 = Inr a'"
    by blast
  have "serves d pid (of_le16 w) (unat (mPacketDataBufferRPos ?u)) p ?a1 a'"
    by (rule run_recv_serves[OF c1 lv1 nc1 pid run])
  then have "answers d p r ?a1 a'"
    unfolding serves_def r1 by simp
  then have a': "abstraction a' = t" "accounts a' = db'" "sent a' = sent ?a @ map wire out" "\<forall>(q, m) \<in> set out. live ?a q"
    unfolding answers_def a1 using ans by auto
  have "stream (heap a' q) = stream (heap ?a1 q)" for q
    using run_recv_buffers[OF run] same_buffer_stream unfolding same_buffers_def by blast
  then have sv: "service_of a' = \<lparr>machine = t, database = db', waiting = (waiting v)(p := rest)\<rparr>"
    using a'(1,2) arg_cong[OF ts(1), of waiting] arg_cong[OF v1, of waiting] by (simp add: service_of_def)
  let ?pm = "(mPacketManager s1)\<lparr>mInComingPacketUserIndex := [], mUserManager := a'\<rparr>"
  have "ProcessPacket_recv d (mPacketManager s1) = Inr ?pm"
    using run taken_ok(3)[OF fs(8)]
    by (simp add: served_run[OF fs(1) inc fs(2) refl refl g1 pid _ nc] st id)
  then have turn: "ProcessPacket d (mPacketManager s1) = Inr ?pm"
    using sys by (intro turn_without_system[OF fs(7)]) simp_all
  obtain s' :: "('db, 'conn) chat_server" where s': "quiet d m handle db s'" "takes_turn d m s1 s'" "moves s1 (service_of (mUserManager ?pm)) out s'"
    by (rule turn_moves[OF s1(1) _ p turn, of out]) (use fs(4) sys a' s1(2) q in \<open>auto simp: at_rest_def quiet_def\<close>)
  have "(chat_step d m)\<^sup>*\<^sup>* s s'"
    using rc s'(2) by (auto simp: takes_turn_def receives_def intro: rtranclp.rtrancl_into_rtrancl)
  then show thesis
    using that[OF s'(1) rc s'(2)] s'(3) s1(2) sv by (simp add: moves_def)
qed

section \<open>Everything queued is sent\<close>






section \<open>A conversation\<close>

text \<open>The client's images of its requests.\<close>

definition chat_request :: "bytes \<Rightarrow> bytes" where
  "chat_request msg = le16 262 @ le16 (pid16 REQ_ROOM_CHAT) @ [0] @ msg"

lemma login_asked:
  assumes "0 \<notin> set uid" "length uid \<le> MAX_USER_ID_LEN" and "0 \<notin> set pw" "length pw \<le> MAX_USER_PW_LEN"
  defines "f \<equiv> account_request REQ_LOGIN 0 uid pw"
  shows "spec_get f = Some (f, [])" and "length f = 27"
    and "request_of Waiting (of_le16 (drop 2 f)) 27 (map Some f @ junk) = Inr (Some (Login uid pw))"
proof -
  show len: "length f = 27"
    using length_account_request[of uid pw] assms(2,4) by (simp add: f_def packet_sizes)
  have "frame f"
    using account_request_fields assms(2,4) by (simp add: f_def packet_sizes)
  from spec_get_frame[OF this, of "[]"] show "spec_get f = Some (f, [])"
    by simp
  have m: "drop 0 (map Some f @ junk) = map Some (account_request REQ_LOGIN 0 uid pw) @ junk"
    by (simp add: f_def)
  show "request_of Waiting (of_le16 (drop 2 f)) 27 (map Some f @ junk) = Inr (Some (Login uid pw))"
    using account_request_header(2)[of REQ_LOGIN 0 uid pw "[]"] read_account_request[OF m assms(1-4)]
    by (simp add: f_def account_fields_def packet_sizes pid16_inj)
qed

lemma enter_asked:
  assumes "fits_int k"
  defines "f \<equiv> enter_request k"
  shows "spec_get f = Some (f, [])" and "length f = 9"
    and "request_of Lobby (of_le16 (drop 2 f)) 9 (map Some f @ junk) = Inr (Some (Enter k))"
proof -
  show len: "length f = 9"
    by (simp add: f_def enter_request_def)
  have "frame f"
    using len by (simp add: frame_def f_def enter_request_def packet_sizes wire_simps)
  from spec_get_frame[OF this, of "[]"] show "spec_get f = Some (f, [])"
    by simp
  have id: "of_le16 (drop 2 f) = pid16 REQ_ROOM_ENTER"
    by (simp add: f_def enter_request_def wire_simps)
  have "block 5 4 (map Some f @ junk) = map Some (le32 (word_of_int k))"
    by (simp add: f_def enter_request_def block_def le16_def)
  then have "read_u32 off_RoomNumber (map Some f @ junk) = Inr (word_of_int k)"
    using len by (simp add: read_u32_def read_cells_def packet_offsets packet_sizes wire_simps)
  then show "request_of Lobby (of_le16 (drop 2 f)) 9 (map Some f @ junk) = Inr (Some (Enter k))"
    using sint_fits[OF assms(1)] unfolding id by (simp add: pid16_inj)
qed

lemma chat_asked:
  assumes "length msg = 257" and "in_table k"
  defines "f \<equiv> chat_request msg"
  shows "spec_get f = Some (f, [])" and "length f = 262" and "spec_get (take 256 f) = None"
    and "request_of (Chatting k) (of_le16 (drop 2 f)) 262 (map Some f @ junk) = Inr (Some (Chat (map Some msg)))"
proof -
  show len: "length f = 262"
    using assms(1) by (simp add: f_def chat_request_def)
  have hd: "of_le16 f = 262"
    by (simp add: f_def chat_request_def wire_simps)
  then have "frame f"
    using len by (simp add: frame_def packet_sizes)
  from spec_get_frame[OF this, of "[]"] show "spec_get f = Some (f, [])"
    by simp
  show "spec_get (take 256 f) = None"
    using len hd by (simp add: spec_get_def of_le16_take Let_def)
  have id: "of_le16 (drop 2 f) = pid16 REQ_ROOM_CHAT"
    by (simp add: f_def chat_request_def wire_simps)
  have "read_cells off_Message 257 (map Some f @ junk) = Inr (map Some msg)"
    using assms(1) by (simp add: f_def chat_request_def read_cells_def block_def packet_offsets packet_sizes le16_def)
  then show "request_of (Chatting k) (of_le16 (drop 2 f)) 262 (map Some f @ junk) = Inr (Some (Chat (map Some msg)))"
    using assms(2) unfolding id by (simp add: pid16_inj packet_sizes)
qed

inductive_cases service_run_NilE: "service_run d v0 [] v"

text \<open>A client connects, logs in, enters a room and speaks.\<close>

lemma conversation_login:
  assumes p: "p < MAX_CLIENT" and uid: "0 \<notin> set uid" "length uid \<le> MAX_USER_ID_LEN"
    and pw: "0 \<notin> set pw" "length pw \<le> MAX_USER_PW_LEN" and db: "SelectAccount d uid pw db = Some (True, db')"
  obtains s :: "('db, 'conn) chat_server" and v where "quiet d m handle db s" and "service_of (app_of s) = v"
    and "phase_at (machine v) p = Lobby" and "user_id (machine v) p = uid" and "waiting v p = []"
    and "members (machine v) = (\<lambda>_. [])" and "admitted (machine v) = (\<lambda>_. 0)"
    and "send_lines (mNetwork s) ! p = messages_to p [(p, login_ok)]"
proof -
  let ?s0 = "started handle db :: ('db, 'conn) chat_server"
  have v0: "service_of (app_of ?s0) = initial_service db" and l0: "send_lines (mNetwork ?s0) ! p = []"
    using started_follows(2)[where db = db and handle = handle and d = d] p by (auto simp: follows_def elim: service_run_NilE)
  obtain s1 :: "('db, 'conn) chat_server" where s1: "quiet d m handle db s1"
    and m1: "moves ?s0 ((service_of (app_of ?s0))\<lparr>machine := opened p (machine (service_of (app_of ?s0))),
      waiting := (waiting (service_of (app_of ?s0)))(p := [])\<rparr>) [] s1"
    by (rule quiet_connect[OF quiet_started p])
  let ?v1 = "\<lparr>machine = opened p initial, database = db, waiting = (\<lambda>_. [])\<rparr>"
  have v1: "?v1 = service_of (app_of s1)" and l1: "send_lines (mNetwork s1) ! p = []"
    using m1 v0 l0 p by (simp_all add: moves_def initial_service_def fun_upd_idem)
  let ?f = "account_request REQ_LOGIN 0 uid pw"
  note la = login_asked[OF uid pw]
  let ?t = "(opened p initial)\<lparr>phase_at := (phase_at (opened p initial))(p := Lobby),
      user_id := (user_id (opened p initial))(p := uid), registered := [uid \<mapsto> int p]\<rparr>"
  have ph: "phase_at (opened p initial) p = Waiting" and reg: "registered (opened p initial) = Map.empty"
    by (simp_all add: opened_def initial_def)
  have ans: "respond d (machine ?v1) (database ?v1) p (phase_at (machine ?v1) p) (Login uid pw) = Some ([(p, login_ok)], ?t, db')"
    using db by (simp add: ph reg respond_login_def)
  obtain s2 :: "('db, 'conn) chat_server" where s2: "quiet d m handle db s2"
    and m2: "moves s1 \<lparr>machine = ?t, database = db', waiting = (waiting ?v1)(p := [])\<rparr> [(p, login_ok)] s2"
    by (rule quiet_request[OF s1 p _ _ v1 _ refl _ _ ans, of ?f ?f "[]"]) (use la ph in \<open>auto simp: MAX_SOCKBUF_def\<close>)
  show thesis
    by (rule that[OF s2 refl]) (use m2 l1 p in \<open>auto simp: moves_def opened_def initial_def\<close>)
qed

lemma conversation_enter:
  assumes p: "p < MAX_CLIENT" and uid: "0 \<notin> set uid" "length uid \<le> MAX_USER_ID_LEN"
    and pw: "0 \<notin> set pw" "length pw \<le> MAX_USER_PW_LEN" and db: "SelectAccount d uid pw db = Some (True, db')"
    and k: "in_table k"
  obtains s :: "('db, 'conn) chat_server" and v where "quiet d m handle db s" and "service_of (app_of s) = v"
    and "phase_at (machine v) p = Chatting k" and "user_id (machine v) p = uid" and "waiting v p = []"
    and "members (machine v) k = [p]" and "send_lines (mNetwork s) ! p = messages_to p [(p, login_ok), (p, enter_ok)]"
proof -
  obtain s1 :: "('db, 'conn) chat_server" and v where s1: "quiet d m handle db s1" and v: "service_of (app_of s1) = v"
    and ph: "phase_at (machine v) p = Lobby" and id: "user_id (machine v) p = uid" and w: "waiting v p = []"
    and ms: "members (machine v) = (\<lambda>_. [])" and ad: "admitted (machine v) = (\<lambda>_. 0)"
    and l1: "send_lines (mNetwork s1) ! p = messages_to p [(p, login_ok)]"
    by (rule conversation_login[OF p uid pw db])
  let ?f = "enter_request k"
  have "fits_int k"
    using k by (simp add: fits_int_def in_table_def)
  note ea = enter_asked[OF this]
  let ?t = "(machine v)\<lparr>phase_at := (phase_at (machine v))(p := Chatting k), members := (members (machine v))(k := [p]),
      admitted := (admitted (machine v))(k := 1)\<rparr>"
  have ans: "respond d (machine v) (database v) p (phase_at (machine v) p) (Enter k) = Some ([(p, enter_ok)], ?t, database v)"
    using k uid(2) by (simp add: ph id ms ad respond_enter_def with_db_def to_members_def packet_sizes)
  obtain s2 :: "('db, 'conn) chat_server" where s2: "quiet d m handle db s2"
    and m2: "moves s1 \<lparr>machine = ?t, database = database v, waiting = (waiting v)(p := [])\<rparr> [(p, enter_ok)] s2"
    by (rule quiet_request[OF s1 p _ _ v[symmetric] _ refl _ _ ans, of ?f ?f "[]"]) (use ea ph w in \<open>auto simp: MAX_SOCKBUF_def\<close>)
  show thesis
    by (rule that[OF s2 refl]) (use m2 l1 p id in \<open>auto simp: moves_def messages_to_def\<close>)
qed

lemma conversation_chat:
  assumes p: "p < MAX_CLIENT" and uid: "0 \<notin> set uid" "length uid \<le> MAX_USER_ID_LEN"
    and pw: "0 \<notin> set pw" "length pw \<le> MAX_USER_PW_LEN" and db: "SelectAccount d uid pw db = Some (True, db')"
    and k: "in_table k" and msg: "length msg = 257"
  obtains s :: "('db, 'conn) chat_server" where "quiet d m handle db s"
    and "send_lines (mNetwork s) ! p = map encode [login_ok, enter_ok, Ack ACK_ROOM_CHAT CHAT_ROOM_SUCCESS, Said uid (map Some msg)]"
proof -
  obtain s1 :: "('db, 'conn) chat_server" and v where s1: "quiet d m handle db s1" and v: "service_of (app_of s1) = v"
    and ph: "phase_at (machine v) p = Chatting k" and id: "user_id (machine v) p = uid" and w: "waiting v p = []"
    and ms: "members (machine v) k = [p]" and l1: "send_lines (mNetwork s1) ! p = messages_to p [(p, login_ok), (p, enter_ok)]"
    by (rule conversation_enter[OF p uid pw db k])
  let ?f = "chat_request msg" and ?out = "[(p, Ack ACK_ROOM_CHAT CHAT_ROOM_SUCCESS), (p, Said uid (map Some msg))]"
  note ca = chat_asked[OF msg k]
  obtain s2 :: "('db, 'conn) chat_server" where s2: "quiet d m handle db s2"
    and m2: "moves s1 (v\<lparr>waiting := (waiting v)(p := take 256 ?f)\<rparr>) [] s2"
    by (rule quiet_wait[OF s1 p, of "take 256 ?f"]) (use ca v w in \<open>auto simp: MAX_SOCKBUF_def\<close>)
  let ?v2 = "v\<lparr>waiting := (waiting v)(p := take 256 ?f)\<rparr>"
  have v2: "?v2 = service_of (app_of s2)" and l2: "send_lines (mNetwork s2) ! p = send_lines (mNetwork s1) ! p"
    using m2 p by (simp_all add: moves_def)
  have ans: "respond d (machine ?v2) (database ?v2) p (phase_at (machine ?v2) p) (Chat (map Some msg)) = Some (?out, machine v, database v)"
    using k by (simp add: ph id ms to_members_def)
  have whole: "?f = waiting ?v2 p @ drop 256 ?f"
    by simp
  obtain s3 :: "('db, 'conn) chat_server" where s3: "quiet d m handle db s3"
    and m3: "moves s2 \<lparr>machine = machine v, database = database v, waiting = (waiting ?v2)(p := [])\<rparr> ?out s3"
    by (rule quiet_request[OF s2 p _ _ v2 _ whole _ _ ans, of ?f "[]"]) (use ca ph in \<open>auto simp: MAX_SOCKBUF_def\<close>)
  show thesis
    by (rule that[OF s3]) (use m3 l1 l2 p in \<open>auto simp: moves_def messages_to_def\<close>)
qed

section \<open>Properties\<close>

text \<open>
  C4. Authenticity: every chat notice that the server ever queues for any slot is the notice of what some client
  asked to say, under the id that this client logged in with. In the bytes received from that client there are a
  login packet with that id and a password that the account procedure accepts for it, and later a chat packet; the
  text of the notice is the 257 cells at its message field, whatever its length.
\<close>

theorem chat_authentic:
  assumes "chat_run d m handle db ins s" and "i < MAX_CLIENT" and "x \<in> set (send_lines (mNetwork s) ! i)"
    and "take 2 (drop 2 x) = map Some (le16 (pid16 NOTIFY_ROOM_CHAT))"
  shows "\<exists>p uid pw cs a g b f c db1 db2. x = notify_chat_cells (c_str_cells (MAX_USER_ID_LEN + 1) uid) cs
    \<and> bytes_from p ins = a @ g @ b @ f @ c
    \<and> login_packet g uid pw \<and> SelectAccount d uid pw db1 = Some (True, db2) \<and> chat_packet f cs"
proof -
  have "\<exists>h. follows d db ins s h"
    using run_follows[OF assms(1)] by simp
  then obtain h where h: "follows d db ins s h"
    by auto
  have "x \<in> set (messages_to i (outputs h))"
    using assms(2,3) h by (simp add: follows_def)
  then obtain m where m: "(i, m) \<in> set (outputs h)" and x: "x = encode m"
    by (auto simp: messages_to_def)
  have run: "service_run d (initial_service db) h (service_of (app_of s))" and ins: "inputs p h = bytes_from p ins" for p
    using h by (auto simp: follows_def)
  have pr: "proto_run initial (outputs h) (machine (service_of (app_of s)))"
    using service_run_proto[OF run] by (simp add: initial_service_def)
  obtain uid cs where s: "m = Said uid cs"
    using chat_notice[OF pr m] assms(4) x by (auto simp: packet_field_def)
  obtain p where "spoken d (inputs p h) uid cs"
    using said_spoken[OF run] m s by blast
  then show ?thesis
    unfolding spoken_def signed_in_def ins using x s by (fastforce simp: packet_sizes)
qed

theorem chat_authentic_witness:
  "\<exists>(s :: (account_db, unit) chat_server) ins p uid pw a g b f c db1 db2.
     chat_run sample_odbc Disjoint_only (Some 0, 1) init_db ins s
   \<and> notify_chat_cells (c_str_cells 11 test001) (map Some (replicate 257 65)) \<in> set (send_lines (mNetwork s) ! 7)
   \<and> bytes_from p ins = a @ g @ b @ f @ c \<and> login_packet g uid pw
   \<and> SelectAccount sample_odbc uid pw db1 = Some (True, db2) \<and> chat_packet f (map Some (replicate 257 65))"
proof -
  let ?msg = "replicate 257 (65 :: u8)"
  let ?x = "notify_chat_cells (c_str_cells 11 test001) (map Some ?msg)"
  obtain db' where db: "SelectAccount sample_odbc test001 test001 init_db = Some (True, db')"
    using sample_login by blast
  obtain s :: "(account_db, unit) chat_server" where q: "quiet sample_odbc Disjoint_only (Some 0, 1) init_db s"
    and l: "send_lines (mNetwork s) ! 7 = map encode [login_ok, enter_ok, Ack ACK_ROOM_CHAT CHAT_ROOM_SUCCESS, Said test001 (map Some ?msg)]"
    by (rule conversation_chat[of 7 test001 test001 sample_odbc init_db db' 3 ?msg, OF _ test001_bounds(1,2,1,3) db])
      (auto simp: MAX_CLIENT_def in_table_def)
  have "chat_reach sample_odbc Disjoint_only (Some 0, 1) init_db s"
    using q by (simp add: quiet_def serving_def)
  then have "\<exists>ins. chat_run sample_odbc Disjoint_only (Some 0, 1) init_db ins s"
    by (rule chat_reach_run)
  then obtain ins where run: "chat_run sample_odbc Disjoint_only (Some 0, 1) init_db ins s"
    by auto
  have x: "?x \<in> set (send_lines (mNetwork s) ! 7)" and i: "7 < MAX_CLIENT"
    by (simp_all add: l MAX_CLIENT_def)
  have h: "take 2 (drop 2 ?x) = map Some (le16 (pid16 NOTIFY_ROOM_CHAT))"
    by (simp add: notify_chat_cells_def header_cells_def le16_def)
  obtain p uid pw cs a g b f c db1 db2 where e: "?x = notify_chat_cells (c_str_cells (MAX_USER_ID_LEN + 1) uid) cs"
    and r: "bytes_from p ins = a @ g @ b @ f @ c" "login_packet g uid pw" "SelectAccount sample_odbc uid pw db1 = Some (True, db2)"
      "chat_packet f cs"
    using chat_authentic[OF run i x h] by blast
  have "length (c_str_cells 11 u) = 11" for u
    by (simp add: c_str_cells_def)
  then have "cs = map Some ?msg"
    using e by (simp add: notify_chat_cells_def packet_sizes)
  then show ?thesis
    using run x r by blast
qed



text \<open>The login request of client 7 has arrived and waits for the packet thread.\<close>

lemma login_pending:
  obtains s :: "(account_db, unit) chat_server" where "chat_reach sample_odbc Disjoint_only (Some 0, 1) init_db s"
    and "mInComingPacketUserIndex (mPacketManager s) = [of_nat 7]"
    and "stream (heap (app_of s) 7) = account_request REQ_LOGIN 0 test001 test001"
    and "spec_get (stream (heap (app_of s) 7)) = Some (account_request REQ_LOGIN 0 test001 test001, [])"
    and "can_answer sample_odbc (service_of (app_of s)) 7 (length (account_request REQ_LOGIN 0 test001 test001)) (packet_memory (heap (app_of s) 7))"
proof -
  obtain db' where db: "SelectAccount sample_odbc test001 test001 init_db = Some (True, db')"
    using sample_login by blast
  have p: "7 < MAX_CLIENT"
    by (simp add: MAX_CLIENT_def)
  let ?s0 = "started (Some 0, 1) init_db :: (account_db, unit) chat_server"
  have v0: "service_of (app_of ?s0) = initial_service init_db"
    using started_follows(2)[where db = init_db and handle = "(Some 0, 1)" and d = sample_odbc]
    by (auto simp: follows_def elim: service_run_NilE)
  obtain s1 :: "(account_db, unit) chat_server" where s1: "quiet sample_odbc Disjoint_only (Some 0, 1) init_db s1"
    and m1: "moves ?s0 ((service_of (app_of ?s0))\<lparr>machine := opened 7 (machine (service_of (app_of ?s0))),
      waiting := (waiting (service_of (app_of ?s0)))(7 := [])\<rparr>) [] s1"
    by (rule quiet_connect[OF quiet_started p])
  have v1: "service_of (app_of s1) = \<lparr>machine = opened 7 initial, database = init_db, waiting = (\<lambda>_. [])\<rparr>"
    using m1 v0 by (simp add: moves_def initial_service_def fun_upd_idem)
  let ?f = "account_request REQ_LOGIN 0 test001 test001"
  note la = login_asked[OF test001_bounds(1,2,1,3)]
  obtain s2 :: "(account_db, unit) chat_server" where s2: "serving sample_odbc Disjoint_only (Some 0, 1) init_db s2"
    and q: "mInComingPacketUserIndex (mPacketManager s2) = [of_nat 7]"
    and v2: "service_of (app_of s2) = (service_of (app_of s1))\<lparr>waiting := (waiting (service_of (app_of s1)))
          (7 := waiting (service_of (app_of s1)) 7 @ ?f)\<rparr>"
    by (rule quiet_receive[OF s1 p, of ?f])
      (use la arg_cong[OF v1, of "\<lambda>v. waiting v 7"] in \<open>auto simp: MAX_SOCKBUF_def service_of_def\<close>)
  have r: "chat_reach sample_odbc Disjoint_only (Some 0, 1) init_db s2"
    using s2 by (simp add: serving_def)
  have st: "stream (heap (app_of s2) 7) = ?f"
    using arg_cong[OF v2, of "\<lambda>v. waiting v 7"] arg_cong[OF v1, of "\<lambda>v. waiting v 7"] by (simp add: service_of_def)
  note fs = serving_facts(8)[OF s2 p]
  obtain junk where mem: "packet_memory (heap (app_of s2) 7) = map Some ?f @ junk"
    using packet_at_memory[of "heap (app_of s2) 7" ?f "[]"] fs st by (auto simp: packet_memory_def session_ok_def)
  have "can_answer sample_odbc (service_of (app_of s2)) 7 (length ?f) (packet_memory (heap (app_of s2) 7))"
    using la(2) la(3)[of junk] db unfolding v2 v1 mem can_answer_def
    by (simp add: opened_def initial_def respond_login_def)
  then show thesis
    using that[OF r q st] la(1) st by simp
qed

text \<open>
  C7. A turn fails exactly where the specification has no answer: in every reachable state in which a client's
  receive is at the front of the queue, the packet thread finishes its turn if and only if that client's packet is
  incomplete, asks for nothing, or asks, in the memory from its place in the buffer on, for something that has an
  answer. Nothing else in the whole state of the server can make a turn fail.
\<close>

theorem turn_fails_exactly:
  assumes "chat_reach d m handle db s" and "mInComingPacketUserIndex (mPacketManager s) = of_nat p # is" and "p < MAX_CLIENT"
  shows "(\<exists>pm. ProcessPacket d (mPacketManager s) = Inr pm) \<longleftrightarrow>
    (case spec_get (stream (heap (mUserManager (mPacketManager s)) p)) of
      None \<Rightarrow> True
    | Some (f, rest) \<Rightarrow> can_answer d (service_of (mUserManager (mPacketManager s))) p (length f)
        (packet_memory (heap (mUserManager (mPacketManager s)) p)))"
  by (rule turn_returns_iff[OF assms])

theorem turn_fails_exactly_witness:
  "\<exists>(s :: (account_db, unit) chat_server) pm. chat_reach sample_odbc Disjoint_only (Some 0, 1) init_db s
    \<and> stream (heap (mUserManager (mPacketManager s)) 7) = account_request REQ_LOGIN 0 test001 test001
    \<and> ProcessPacket sample_odbc (mPacketManager s) = Inr pm"
proof -
  obtain s :: "(account_db, unit) chat_server" where r: "chat_reach sample_odbc Disjoint_only (Some 0, 1) init_db s"
    and q: "mInComingPacketUserIndex (mPacketManager s) = [of_nat 7]" and s: "stream (heap (app_of s) 7) = account_request REQ_LOGIN 0 test001 test001"
      "spec_get (stream (heap (app_of s) 7)) = Some (account_request REQ_LOGIN 0 test001 test001, [])"
      "can_answer sample_odbc (service_of (app_of s)) 7 (length (account_request REQ_LOGIN 0 test001 test001)) (packet_memory (heap (app_of s) 7))"
    by (rule login_pending)
  have "\<exists>pm. ProcessPacket sample_odbc (mPacketManager s) = Inr pm"
    using turn_fails_exactly[OF r q] s(2,3) by (simp add: MAX_CLIENT_def)
  then show ?thesis
    using r s(1) by blast
qed

text \<open>
  C21. Occupancy: in every reachable state the table has the ten rooms with the numbers 0 to 9 and the limit of four
  the server was started with, each room lists at most four members, and every member is a session of the pool, which has
  100 of them: its address is the place of an entry of the pool.
\<close>

theorem room_occupancy:
  assumes "chat_reach d m handle db s"
  shows "length (mRoomList (rooms (mUserManager (mPacketManager s)))) = 10
    \<and> length (mUserObjPool (mUserManager (mPacketManager s))) = 100
    \<and> (\<forall>i < 10. let r = mRoomList (rooms (mUserManager (mPacketManager s))) ! i in
        mRoomNum r = int i \<and> mMaxUserCount r = 4 \<and> length (mUserList r) \<le> 4
        \<and> (\<forall>q \<in> set (mUserList r). q < length (mUserObjPool (mUserManager (mPacketManager s)))
             \<and> mUserObjPool (mUserManager (mPacketManager s)) ! q = q))"
proof -
  let ?a = "mUserManager (mPacketManager s)" and ?rm = "rooms (mUserManager (mPacketManager s))"
  have so: "server_ok s" and c: "chat_ok ?a"
    using chat_reach_ok[OF assms] reach_implements[OF assms] server_chat_ok by auto
  have ok: "rooms_ok ?rm" and ml: "members_live ?a" and sh: "mBeginRoomNumber ?rm = 0" "map mMaxUserCount (mRoomList ?rm) = replicate 10 4"
    using chat_okD[OF c] c by (auto simp: app_ok_def chat_ok_def shape_def table_shape_def)
  have len: "length (mRoomList ?rm) = 10"
    using arg_cong[OF sh(2), of length] by simp
  have pool: "length (mUserObjPool ?a) = 100" "\<forall>q < 100. mUserObjPool ?a ! q = q"
    using so chat_okD(1)[OF c] by (auto simp: server_ok_def MAX_CLIENT_def app_ok_def)
  have "mRoomNum (mRoomList ?rm ! i) = int i \<and> mMaxUserCount (mRoomList ?rm ! i) = 4 \<and> length (mUserList (mRoomList ?rm ! i)) \<le> 4
      \<and> (\<forall>q \<in> set (mUserList (mRoomList ?rm ! i)). q < length (mUserObjPool ?a) \<and> mUserObjPool ?a ! q = q)" if i: "i < 10" for i
  proof -
    have r: "room_ok (mRoomList ?rm ! i)" "mRoomNum (mRoomList ?rm ! i) = int i"
      using ok sh(1) len i by (simp_all add: rooms_ok_def)
    have m: "mMaxUserCount (mRoomList ?rm ! i) = 4"
      using arg_cong[OF sh(2), of "\<lambda>xs. xs ! i"] len i by simp
    have "mRoomList ?rm ! i \<in> set (mRoomList ?rm)"
      using len i by simp
    then have "\<forall>q \<in> set (mUserList (mRoomList ?rm ! i)). q < 100"
      using ml unfolding members_live_def live_def pool(1) by blast
    then show ?thesis
      using r m room_ok_length[OF r(1)] pool by simp
  qed
  then show ?thesis
    using len pool(1) by (simp add: Let_def)
qed

text \<open>The client of slot 7 has entered room 3.\<close>

theorem room_occupancy_witness:
  "\<exists>s :: (account_db, unit) chat_server. chat_reach sample_odbc Disjoint_only (Some 0, 1) init_db s
    \<and> mUserList (mRoomList (rooms (mUserManager (mPacketManager s))) ! 3) = [7]
    \<and> mMaxUserCount (mRoomList (rooms (mUserManager (mPacketManager s))) ! 3) = 4
    \<and> mUserObjPool (mUserManager (mPacketManager s)) ! 7 = 7"
proof -
  obtain db' where db: "SelectAccount sample_odbc test001 test001 init_db = Some (True, db')"
    using sample_login by blast
  obtain s :: "(account_db, unit) chat_server" and v where q: "quiet sample_odbc Disjoint_only (Some 0, 1) init_db s"
    and v: "service_of (app_of s) = v" and ms: "members (machine v) 3 = [7]"
    by (rule conversation_enter[of 7 test001 test001 sample_odbc init_db db' 3, OF _ test001_bounds(1,2,1,3) db])
      (auto simp: MAX_CLIENT_def in_table_def)
  have r: "chat_reach sample_odbc Disjoint_only (Some 0, 1) init_db s"
    using q by (simp add: quiet_def serving_def)
  have occ: "let x = mRoomList (rooms (app_of s)) ! 3 in mMaxUserCount x = 4 \<and> (\<forall>q \<in> set (mUserList x). mUserObjPool (app_of s) ! q = q)"
    using room_occupancy[OF r] by (auto simp: Let_def dest: spec[of _ 3])
  have "mBeginRoomNumber (rooms (app_of s)) = 0"
    using chat_reach_ok[OF r] by (simp add: server_ok_def shape_def table_shape_def)
  then have "mUserList (mRoomList (rooms (app_of s)) ! 3) = [7]"
    using ms unfolding v[symmetric] by (simp add: service_of_def abstraction_def room_numbered_def in_table_def)
  then show ?thesis
    using r occ by (intro exI[of _ s]) (auto simp: Let_def)
qed

text \<open>
  C2. Progress and preservation: in every reachable state a turn of the packet thread either ends in a null
  pointer, an access outside an object, a read of an indeterminate byte or a result set that never ends, or it
  returns, its packets can be sent whatever the system answers, and every session of the resulting state is
  well formed again. No table is ever indexed out of range, no empty function object called, no empty queue read.
\<close>

theorem server_type_soundness:
  assumes "chat_reach d m handle db s"
  shows "case ProcessPacket d (mPacketManager s) of
      Inl e \<Rightarrow> e \<in> {NullDeref, OutOfBoundsRead, OutOfBoundsWrite, UninitRead, NoReturn}
    | Inr pm \<Rightarrow> (\<exists>n. flush accepted (sent (mUserManager pm)) (mNetwork s) = Inr n)
        \<and> (\<forall>p < MAX_CLIENT. session_ok p (heap (mUserManager pm) p))"
proof -
  have ok: "server_ok s" and rest: "at_rest s"
    using chat_reach_ok[OF assms] reach_implements[OF assms] by auto
  have pm: "pm_ok (mPacketManager s)" and net: "net_ok MAX_CLIENT (mNetwork s)"
    using ok by (simp_all add: server_ok_def)
  note c = server_chat_ok[OF ok rest]
  show ?thesis
  proof (cases "ProcessPacket d (mPacketManager s)")
    case (Inl e)
    then show ?thesis
      using turn_faults[OF pm c, of d] by (simp add: handler_faults_def)
  next
    case (Inr pm')
    obtain h where sim: "simulates d (mUserManager (mPacketManager s)) h (mUserManager pm')"
      using turn_simulates(1)[OF pm c Inr] by blast
    have "\<exists>n. flush accepted (sent (mUserManager pm')) (mNetwork s) = Inr n"
      by (rule flush_returns[OF net turn_outbox(3)[OF ok rest sim]])
    moreover have "app_ok (mUserManager pm')" and "length (mUserObjPool (mUserManager pm')) = MAX_CLIENT"
      using ProcessPacket_ok[OF pm Inr] ok by (auto simp: pm_ok_def server_ok_def)
    then have "session_ok p (heap (mUserManager pm') p)" if "p < MAX_CLIENT" for p
      using that by (intro app_ok_session) (simp_all add: live_def)
    ultimately show ?thesis
      using Inr by simp
  qed
qed

theorem server_type_soundness_witness:
  "\<exists>(s :: (account_db, unit) chat_server) pm n. chat_reach sample_odbc Disjoint_only (Some 0, 1) init_db s
    \<and> stream (heap (mUserManager (mPacketManager s)) 7) = account_request REQ_LOGIN 0 test001 test001
    \<and> ProcessPacket sample_odbc (mPacketManager s) = Inr pm \<and> flush (\<lambda>_. True) (sent (mUserManager pm)) (mNetwork s) = Inr n
    \<and> (\<forall>p < MAX_CLIENT. session_ok p (heap (mUserManager pm) p))"
proof -
  obtain s :: "(account_db, unit) chat_server" where r: "chat_reach sample_odbc Disjoint_only (Some 0, 1) init_db s"
    and q: "mInComingPacketUserIndex (mPacketManager s) = [of_nat 7]" and s: "stream (heap (app_of s) 7) = account_request REQ_LOGIN 0 test001 test001"
      "spec_get (stream (heap (app_of s) 7)) = Some (account_request REQ_LOGIN 0 test001 test001, [])"
      "can_answer sample_odbc (service_of (app_of s)) 7 (length (account_request REQ_LOGIN 0 test001 test001)) (packet_memory (heap (app_of s) 7))"
    by (rule login_pending)
  obtain pm where pm: "ProcessPacket sample_odbc (mPacketManager s) = Inr pm"
    using turn_returns_iff[OF r q] s(2,3) by (auto simp: MAX_CLIENT_def)
  then show ?thesis
    using server_type_soundness[OF r, where accepted = "\<lambda>_. True"] pm r s(1) by (intro exI[of _ s] exI[of _ pm]) auto
qed

text \<open>
  C12. Forty admissions: over the whole lifetime of the server at most forty answers \<open>ENTER_ROOM_SUCCESS\<close> are sent,
  four for each of the ten rooms, however often the members leave again, since leaving does not free a place.
\<close>

theorem forty_admissions:
  assumes "chat_reach d m handle db s"
  shows "(\<Sum>i < MAX_CLIENT. count_list (send_lines (mNetwork s) ! i) (ack_cells ACK_ROOM_ENTER 50)) \<le> 40"
proof -
  obtain tr where run: "proto_run initial tr (abstraction (mUserManager (mPacketManager s)))"
    and l: "\<forall>i < MAX_CLIENT. send_lines (mNetwork s) ! i = messages_to i tr"
    using reach_implements[OF assms] by (auto simp: implements_def)
  have enter: "encode m = ack_cells ACK_ROOM_ENTER 50 \<longleftrightarrow> m = enter_ok" for m
    using encode_enter_ok[of m] by auto
  have "count_list (messages_to i tr) (ack_cells ACK_ROOM_ENTER 50) = entries (filter (\<lambda>x. fst x = i) tr)" for i
  proof (induction tr)
    case (Cons x tr)
    then show ?case
      by (simp add: messages_to_def enter)
  qed (simp add: messages_to_def)
  then have "(\<Sum>i < MAX_CLIENT. count_list (send_lines (mNetwork s) ! i) (ack_cells ACK_ROOM_ENTER 50))
      = (\<Sum>i < MAX_CLIENT. entries (filter (\<lambda>x. fst x = i) tr))"
    using l by simp
  also have "\<dots> \<le> entries tr"
  proof (induction tr)
    case (Cons x tr)
    have "(\<Sum>i < MAX_CLIENT. if fst x = i then entries [x] else 0) \<le> entries [x]"
      by (simp add: sum.delta)
    moreover have "(\<Sum>i < MAX_CLIENT. entries (filter (\<lambda>x. fst x = i) (x # tr)))
        = (\<Sum>i < MAX_CLIENT. if fst x = i then entries [x] else 0) + (\<Sum>i < MAX_CLIENT. entries (filter (\<lambda>x. fst x = i) tr))"
    proof -
      have "entries (filter (\<lambda>x. fst x = i) (x # tr)) = (if fst x = i then entries [x] else 0) + entries (filter (\<lambda>x. fst x = i) tr)" for i
        by simp
      then show ?thesis
        by (simp only: sum.distrib)
    qed
    ultimately show ?case
      using Cons by simp
  qed simp
  finally show ?thesis
    using run_entries[OF run] by simp
qed

theorem forty_admissions_witness:
  "\<exists>s :: (account_db, unit) chat_server. chat_reach sample_odbc Disjoint_only (Some 0, 1) init_db s
    \<and> count_list (send_lines (mNetwork s) ! 7) (ack_cells ACK_ROOM_ENTER 50) = 1
    \<and> (\<Sum>i < MAX_CLIENT. count_list (send_lines (mNetwork s) ! i) (ack_cells ACK_ROOM_ENTER 50)) \<le> 40"
proof -
  obtain db' where db: "SelectAccount sample_odbc test001 test001 init_db = Some (True, db')"
    using sample_login by blast
  obtain s :: "(account_db, unit) chat_server" where q: "quiet sample_odbc Disjoint_only (Some 0, 1) init_db s"
    and l: "send_lines (mNetwork s) ! 7 = messages_to 7 [(7, login_ok), (7, enter_ok)]"
    by (rule conversation_enter[of 7 test001 test001 sample_odbc init_db db' 3, OF _ test001_bounds(1,2,1,3) db])
      (auto simp: MAX_CLIENT_def in_table_def)
  have r: "chat_reach sample_odbc Disjoint_only (Some 0, 1) init_db s"
    using q by (simp add: quiet_def serving_def)
  have "encode login_ok \<noteq> ack_cells ACK_ROOM_ENTER 50"
    using encode_enter_ok[of login_ok] by auto
  then have "count_list (send_lines (mNetwork s) ! 7) (ack_cells ACK_ROOM_ENTER 50) = 1"
    unfolding l by (simp add: messages_to_def)
  then show ?thesis
    using r forty_admissions[OF r] by blast
qed

end
