(* ===== verification/In_Flight.thy ===== *)
theory In_Flight
  imports Packet_Buffer
begin

text \<open>
  Packets in flight. \<open>GetPacket\<close> hands out a pointer into the session's buffer, and the packet thread follows it
  while the worker threads go on delivering to the same buffer, without a lock. Shown here: deliveries that
  happen between the extraction of a packet and its handling leave the packet as it is under a bound on
  their sizes and the place of the packet, and without that bound they can replace its bytes.
\<close>

section \<open>A piece of the buffer that deliveries do not reach\<close>

lemma block_blit_after:
  assumes "p + length src \<le> off" and "p + length src \<le> length dst"
  shows "block off n (blit p src dst) = block off n dst"
proof -
  obtain k where "off = p + length src + k"
    using assms(1) le_Suc_ex by blast
  then show ?thesis
    using assms(2) by (simp add: block_def blit_def drop_append add.commute add.left_commute)
qed

text \<open>\<open>n\<close> cells from \<open>off\<close> are out of reach of \<open>T\<close> more bytes: they lie behind the read position, and the unread
  bytes fit before them after a move to the front or there is no move, or the writing goes on before them.\<close>

definition shielded :: "nat \<Rightarrow> nat \<Rightarrow> nat \<Rightarrow> user \<Rightarrow> bool" where
  "shielded off n T u \<longleftrightarrow> buffer_ok u \<and> off < PACKET_DATA_BUFFER_SIZE
     \<and> (off + n \<le> unat (mPacketDataBufferRPos u)
          \<and> (length (unread u) + T \<le> off \<or> unat (mPacketDataBufferWPos u) + T < PACKET_DATA_BUFFER_SIZE)
        \<or> unat (mPacketDataBufferWPos u) + T \<le> off)"

lemma appended_pos:
  assumes "buffer_ok u" and "unat (mPacketDataBufferWPos u) + length bs \<le> PACKET_DATA_BUFFER_SIZE"
  shows "unat (mPacketDataBufferWPos (appended bs u)) = unat (mPacketDataBufferWPos u) + length bs"
    and "mPacketDataBufferRPos (appended bs u) = mPacketDataBufferRPos u"
    and "length (unread (appended bs u)) = length (unread u) + length bs"
proof -
  have "unat (mPacketDataBufferWPos u) + length bs < 2 ^ 32"
    using assms(2) by (simp add: PACKET_DATA_BUFFER_SIZE_def)
  then show "unat (mPacketDataBufferWPos (appended bs u)) = unat (mPacketDataBufferWPos u) + length bs"
    by (simp add: appended_def mem_simps)
  show "mPacketDataBufferRPos (appended bs u) = mPacketDataBufferRPos u"
    by (simp add: appended_def)
  show "length (unread (appended bs u)) = length (unread u) + length bs"
    using appended_ok[OF assms] by (metis length_append length_map stream_def)
qed

lemma appended_block:
  assumes ok: "buffer_ok u" and fits: "unat (mPacketDataBufferWPos u) + length bs \<le> PACKET_DATA_BUFFER_SIZE"
    and off: "off + n \<le> unat (mPacketDataBufferWPos u) \<or> unat (mPacketDataBufferWPos u) + length bs \<le> off"
  shows "block off n (mPacketDataBuffer (appended bs u)) = block off n (mPacketDataBuffer u)"
proof -
  have "unat (mPacketDataBufferWPos u) + length (map Some bs) \<le> length (mPacketDataBuffer u)"
    using ok fits by (simp add: buffer_ok_def)
  then show ?thesis
    using off block_blit_before[of off n "unat (mPacketDataBufferWPos u)" "map Some bs" "mPacketDataBuffer u"]
      block_blit_after[of "unat (mPacketDataBufferWPos u)" "map Some bs" off "mPacketDataBuffer u" n]
    by (auto simp: appended_def)
qed

lemma compacted_block:
  assumes ok: "buffer_ok u" and "length (unread u) \<le> off"
  shows "block off n (mPacketDataBuffer (compacted u)) = block off n (mPacketDataBuffer u)"
  using assms unread_in_buffer[OF ok] block_blit_after[of 0 "unread u" off "mPacketDataBuffer u" n]
  by (simp add: compacted_def buffer_ok_def)

lemma shielded_step:
  assumes sh: "shielded off n T u" and T: "length bs \<le> T" and b: "length bs \<le> MAX_SOCKBUF"
    and d: "deliver m bs u = Inr u'"
  shows "shielded off n (T - length bs) u' \<and> block off n (mPacketDataBuffer u') = block off n (mPacketDataBuffer u)"
proof -
  let ?w = "unat (mPacketDataBufferWPos u)" and ?r = "unat (mPacketDataBufferRPos u)"
  have ok: "buffer_ok u" and n31: "length bs < 2 ^ 31" and rw: "?r \<le> ?w"
    using sh b by (auto simp: shielded_def MAX_SOCKBUF_def buffer_ok_def)
  show ?thesis
  proof (cases "?w + length bs < PACKET_DATA_BUFFER_SIZE")
    case True
    then have u': "u' = appended bs u"
      using d SetPacketData_eq[OF ok n31, of m] by (simp add: deliver_def)
    have fits: "?w + length bs \<le> PACKET_DATA_BUFFER_SIZE"
      using True by simp
    show ?thesis
      using sh T rw appended_pos[OF ok fits] appended_ok(1)[OF ok fits] appended_block[OF ok fits, of off n]
      by (auto simp: u' shielded_def)
  next
    case False
    then have place: "off + n \<le> ?r" "length (unread u) + T \<le> off"
      using sh T by (auto simp: shielded_def)
    have fits: "length (unread u) + length bs \<le> PACKET_DATA_BUFFER_SIZE"
      using sh T place by (simp add: shielded_def)
    then have u': "u' = appended bs (compacted u)"
      using d False SetPacketData_eq[OF ok n31, of m] by (auto simp: deliver_def split: if_splits)
    note c = compacted_ok[OF ok]
    have fits': "unat (mPacketDataBufferWPos (compacted u)) + length bs \<le> PACKET_DATA_BUFFER_SIZE"
      using fits c(3) by simp
    show ?thesis
      using sh T place c(3) appended_pos[OF c(1) fits'] appended_ok(1)[OF c(1) fits']
        appended_block[OF c(1) fits', of off n] compacted_block[OF ok, of off n]
      by (simp add: u' shielded_def)
  qed
qed

lemma shielded_run:
  assumes "shielded off n (length (concat segs)) u" and "\<forall>bs \<in> set segs. length bs \<le> MAX_SOCKBUF"
    and "run_buffer m (map Deliver segs) u = Inr (outs, u')"
  shows "block off n (mPacketDataBuffer u') = block off n (mPacketDataBuffer u)"
  using assms
proof (induction segs arbitrary: u)
  case (Cons bs segs)
  obtain u1 where u1: "deliver m bs u = Inr u1" and run: "run_buffer m (map Deliver segs) u1 = Inr (outs, u')"
    using Cons.prems(3) by (auto simp: bindr_simps)
  have "shielded off n (length (concat segs)) u1 \<and> block off n (mPacketDataBuffer u1) = block off n (mPacketDataBuffer u)"
    using shielded_step[OF Cons.prems(1) _ _ u1] Cons.prems(2) by simp
  then show ?case
    using Cons.IH[OF _ _ run] Cons.prems(2) by simp
qed simp

text \<open>A packet that was just taken.\<close>

lemma taken_shielded:
  assumes ok: "buffer_ok u" and f: "spec_get (stream u) = Some (f, s)"
    and bound: "length s + T \<le> unat (mPacketDataBufferRPos u) \<or> unat (mPacketDataBufferWPos u) + T < PACKET_DATA_BUFFER_SIZE"
  defines "v \<equiv> advanced (ucast (of_le16 (stream u))) u"
  shows "shielded (unat (mPacketDataBufferRPos u)) (length f) T v"
    and "block (unat (mPacketDataBufferRPos u)) (length f) (mPacketDataBuffer v) = map Some f" and "unat (of_le16 (stream u)) = length f"
proof -
  let ?r = "unat (mPacketDataBufferRPos u)" and ?n = "unat (of_le16 (stream u))"
  have n: "?n \<le> length (stream u)" "f = take ?n (stream u)" "s = drop ?n (stream u)" "5 \<le> length (stream u)"
    using f by (auto simp: spec_get_def Let_def packet_sizes split: if_splits)
  show nf: "?n = length f"
    using n by simp
  have un: "unat (ucast (of_le16 (stream u)) :: u32) = ?n"
    by (simp add: unat_ucast_u16_u32)
  have len: "length (stream u) = unat (mPacketDataBufferWPos u) - ?r" and w: "unat (mPacketDataBufferWPos u) \<le> PACKET_DATA_BUFFER_SIZE"
    and rw: "?r \<le> unat (mPacketDataBufferWPos u)"
    using length_unread[OF ok] ok by (simp_all add: stream_def buffer_ok_def)
  note a = advanced_ok[OF ok, of "ucast (of_le16 (stream u))", unfolded un, OF n(1), folded v_def]
  have "?r + ?n < 2 ^ 32"
    using n(1) len w rw by (simp add: PACKET_DATA_BUFFER_SIZE_def)
  then have r1: "unat (mPacketDataBufferRPos v) = ?r + ?n"
    by (simp add: v_def advanced_def mem_simps un)
  have uv: "length (unread v) = length s"
    using a(2) n(3) by (metis length_map stream_def)
  have wv: "mPacketDataBufferWPos v = mPacketDataBufferWPos u"
    by (simp add: v_def advanced_def)
  have "?r < PACKET_DATA_BUFFER_SIZE"
    using n(4) len w by linarith
  then show "shielded ?r (length f) T v"
    using a(1) bound by (simp add: shielded_def uv wv r1 nf)
  show "block ?r (length f) (mPacketDataBuffer v) = map Some f"
    using a(3)[folded n(2)] by (simp only: nf)
qed

text \<open>Wherever it lies, it is safe from what arrives as long as that leaves a margin in the buffer.\<close>

lemma margin:
  assumes ok: "buffer_ok u" and f: "spec_get (stream u) = Some (f, s)" and m: "length f + 2 * (length s + T) \<le> PACKET_DATA_BUFFER_SIZE"
  shows "length s + T \<le> unat (mPacketDataBufferRPos u) \<or> unat (mPacketDataBufferWPos u) + T < PACKET_DATA_BUFFER_SIZE"
proof -
  have "length (stream u) = length f + length s"
    using f by (auto simp: spec_get_def Let_def split: if_splits)
  moreover have "unat (mPacketDataBufferRPos u) \<le> unat (mPacketDataBufferWPos u)"
    using ok by (simp add: buffer_ok_def)
  ultimately have "unat (mPacketDataBufferWPos u) = unat (mPacketDataBufferRPos u) + length f + length s"
    using length_unread[OF ok] by (simp add: stream_def)
  then show ?thesis
    using m by arith
qed

section \<open>Properties\<close>

text \<open>
  C15. A packet in flight is safe under a bound: when a packet was handed out with \<open>s\<close> unread bytes behind it, any
  number of further deliveries before it is handled leaves all its bytes as they were, provided the unread and the
  delivered bytes together fit before the packet, or the deliveries fit behind the write position.
\<close>

theorem in_flight_intact:
  assumes ok: "buffer_ok u" and f: "spec_get (stream u) = Some (f, s)" and g: "GetPacket u = Inr (p, u1)"
    and small: "\<forall>bs \<in> set segs. length bs \<le> MAX_SOCKBUF"
    and run: "run_buffer m (map Deliver segs) u1 = Inr (outs, u2)"
    and bound: "length s + length (concat segs) \<le> unat (mPacketDataBufferRPos u)
      \<or> unat (mPacketDataBufferWPos u) + length (concat segs) < PACKET_DATA_BUFFER_SIZE"
  shows "packet_cells u2 p = Some (map Some f)"
proof -
  have p: "p = packet_at u" and u1: "u1 = advanced (ucast (of_le16 (stream u))) u"
    using g GetPacket_eq[OF ok] f by auto
  note t = taken_shielded[OF ok f bound, folded u1]
  show ?thesis
    using shielded_run[OF t(1) small run] t(2,3) by (simp add: packet_cells_def p packet_at_def)
qed

text \<open>A session into which one small packet and the start of another have been delivered.\<close>

definition two_packets :: bytes where
  "two_packets = [5, 0, 221, 0, 0, 9, 0]"

lemma two_packets_session:
  "buffer_ok (appended two_packets (fresh_session 0))" "stream (appended two_packets (fresh_session 0)) = two_packets"
  "mPacketDataBufferRPos (appended two_packets (fresh_session 0)) = 0"
  "unat (mPacketDataBufferWPos (appended two_packets (fresh_session 0))) = 7"
  using appended_ok[OF fresh_buffer_ok, of 0 two_packets] appended_pos[OF fresh_buffer_ok, of 0 two_packets]
  by (simp_all add: fresh_stream two_packets_def PACKET_DATA_BUFFER_SIZE_def)

theorem in_flight_intact_witness:
  "\<exists>p u1 u2. GetPacket (appended two_packets (fresh_session 0)) = Inr (p, u1)
    \<and> run_buffer Disjoint_only (map Deliver [[221, 0], [0, 1, 2]]) u1 = Inr ([], u2)
    \<and> packet_cells u2 p = Some (map Some [5, 0, 221, 0, 0])"
proof -
  let ?u = "appended two_packets (fresh_session 0)"
  note s = two_packets_session
  have f: "spec_get (stream ?u) = Some ([5, 0, 221, 0, 0], [9, 0])"
    unfolding s(2) by (simp add: two_packets_def spec_get_def packet_sizes)
  obtain p u1 where g: "GetPacket ?u = Inr (p, u1)" and u1: "buffer_ok u1" "stream u1 = [9, 0]"
    using user_stream.get_first[OF s(1) f] by blast
  obtain u2 where run: "run_buffer Disjoint_only (map Deliver [[221, 0], [0, 1, 2]]) u1 = Inr ([], u2)"
    using run_buffer_returns[OF u1(1), of "map Deliver [[221, 0], [0, 1, 2]]" Disjoint_only]
    by (auto simp: u1(2) MAX_SOCKBUF_def bindr_simps)
  show ?thesis
    using in_flight_intact[OF s(1) f g _ run] g run s(4) by (auto simp: MAX_SOCKBUF_def PACKET_DATA_BUFFER_SIZE_def)
qed

text \<open>
  C18. Without the bound a packet in flight is overwritten: when a packet at the front of the buffer is the only one
  and reaches far enough, the next delivery before it is handled starts again at the front, and what the
  handler then reads begins with the new bytes instead of its packet.
\<close>

theorem in_flight_overwritten:
  assumes ok: "buffer_ok u" and f: "spec_get (stream u) = Some (f, [])" and g: "GetPacket u = Inr (p, u1)"
    and front: "mPacketDataBufferRPos u = 0" and n: "length bs \<le> MAX_SOCKBUF" "length bs \<le> length f"
    and full: "PACKET_DATA_BUFFER_SIZE \<le> length f + length bs"
  shows "\<exists>u2. deliver m bs u1 = Inr u2 \<and> packet_cells u2 p = Some (map Some (bs @ drop (length bs) f))"
proof -
  let ?n = "unat (of_le16 (stream u))"
  have p: "p = packet_at u" and u1: "u1 = advanced (ucast (of_le16 (stream u))) u"
    using g GetPacket_eq[OF ok] f by auto
  have nn: "?n = length f" "f = stream u"
    using f by (auto simp: spec_get_def Let_def split: if_splits)
  have un: "unat (ucast (of_le16 (stream u)) :: u32) = ?n"
    by (simp add: unat_ucast_u16_u32)
  have a: "buffer_ok u1" "stream u1 = []" and blk: "block 0 (length f) (mPacketDataBuffer u1) = map Some f"
    using advanced_ok[OF ok, of "ucast (of_le16 (stream u))", unfolded un] front nn by (simp_all add: u1)
  have w: "mPacketDataBufferWPos u1 = mPacketDataBufferWPos u" "unat (mPacketDataBufferWPos u) = length f"
    using length_unread[OF ok] front nn(2) by (simp_all add: stream_def u1 advanced_def)
  have un1: "unread u1 = []"
    using a(2) by (simp add: stream_def)
  have full': "\<not> unat (mPacketDataBufferWPos u1) + length bs < PACKET_DATA_BUFFER_SIZE"
    using full w by simp
  have fits: "length bs \<le> PACKET_DATA_BUFFER_SIZE"
    using n(1) by (simp add: MAX_SOCKBUF_def PACKET_DATA_BUFFER_SIZE_def)
  have "length bs < 2 ^ 31"
    using n(1) by (simp add: MAX_SOCKBUF_def)
  then have d: "deliver m bs u1 = Inr (appended bs (compacted u1))"
    using SetPacketData_eq[OF a(1), of bs m] full' fits un1 by (simp add: deliver_def can_compact_def)
  have "mPacketDataBufferWPos (compacted u1) = 0"
    using compacted_ok(3)[OF a(1)] un1 by (simp add: unsigned_eq_0_iff)
  then have buf: "mPacketDataBuffer (appended bs (compacted u1)) = map Some bs @ drop (length bs) (mPacketDataBuffer u1)"
    using un1 by (simp add: appended_def compacted_def blit_def)
  have "block 0 (length f) (mPacketDataBuffer (appended bs (compacted u1)))
      = map Some bs @ drop (length bs) (block 0 (length f) (mPacketDataBuffer u1))"
    unfolding buf using n(2) by (simp add: block_def drop_take)
  also have "\<dots> = map Some (bs @ drop (length bs) f)"
    unfolding blk by (simp add: drop_map)
  finally show ?thesis
    using d nn(1) front by (simp add: packet_cells_def p packet_at_def)
qed

text \<open>A packet of 8000 bytes, and 100 more bytes.\<close>

definition long_packet :: bytes where
  "long_packet = le16 8000 @ replicate 7998 1"

theorem in_flight_overwritten_witness:
  "\<exists>p u1 u2. GetPacket (appended long_packet (fresh_session 0)) = Inr (p, u1)
    \<and> deliver Disjoint_only (replicate 100 2) u1 = Inr u2
    \<and> packet_cells u2 p = Some (map Some (replicate 100 2 @ drop 100 long_packet))"
proof -
  let ?u = "appended long_packet (fresh_session 0)"
  have len: "length long_packet = 8000"
    by (simp add: long_packet_def)
  have ok: "buffer_ok ?u" and st: "stream ?u = long_packet" and r: "mPacketDataBufferRPos ?u = 0"
    using appended_ok[OF fresh_buffer_ok, of 0 long_packet] appended_pos(2)[OF fresh_buffer_ok, of 0 long_packet] len
    by (simp_all add: fresh_stream PACKET_DATA_BUFFER_SIZE_def)
  have "of_le16 long_packet = 8000"
    unfolding long_packet_def by (rule of_le16_le16)
  then have f: "spec_get (stream ?u) = Some (long_packet, [])"
    unfolding st by (simp add: spec_get_def packet_sizes len)
  obtain p u1 where g: "GetPacket ?u = Inr (p, u1)"
    using user_stream.get_first[OF ok f] by blast
  obtain u2 where "deliver Disjoint_only (replicate 100 2) u1 = Inr u2"
    "packet_cells u2 p = Some (map Some (replicate 100 2 @ drop (length (replicate 100 (2::u8))) long_packet))"
    using in_flight_overwritten[OF ok f g r, of "replicate 100 2" Disjoint_only] len
    by (auto simp: MAX_SOCKBUF_def PACKET_DATA_BUFFER_SIZE_def simp del: drop_append map_append)
  then show ?thesis
    using g by (intro exI[of _ p] exI[of _ u1] exI[of _ u2]) simp
qed

end
