(* ===== verification/Split_Turns.thy ===== *)
theory Split_Turns
  imports Service_Progress In_Flight
begin

text \<open>
  Turns of the packet thread that are not atomic. Between the extraction of a packet (\<open>DequePacketData\<close>), its
  handling (\<open>ProcessRecvPacket\<close>) and the system packet of the same turn, the worker threads go on: connections open
  and close, sends complete, and bytes arrive, also for the session whose packet is in hand. Here the three parts of a
  turn are steps of their own (\<open>split_run\<close>), with any number of steps of the network between them.

  Shown here: the server with split turns implements the same \<open>Service\<close>, as long as every packet is still in the
  buffer when it is handled (\<open>undisturbed\<close>). \<open>In_Flight\<close> says which deliveries leave it there.
\<close>

section \<open>The parts of a turn\<close>

definition handle_packet :: "'db odbc \<Rightarrow> PacketInfo \<Rightarrow> ('db, 'conn) packet_manager \<Rightarrow> ('db, 'conn) packet_manager result" where
  "handle_packet d x s = (if PacketId x > pid16 SYS_END then ProcessRecvPacket d x s else Inr s)"

lemma turn_parts:
  "ProcessPacket d s = (if \<not> mIsRunProcessThread s then Inr s
     else bindr (DequePacketData s) (\<lambda>(x, s1). bindr (handle_packet d x s1) (ProcessPacket_system d)))"
  by (simp add: ProcessPacket_def ProcessPacket_recv_def handle_packet_def bindr_assoc case_prod_unfold cong: bindr_cong)

text \<open>Where the packet thread stands; with a packet in hand, the bytes it was taken with.\<close>

datatype turn_phase = Ready | InHand PacketInfo bytes | SystemNext

definition bytes_in_hand :: "PacketInfo \<Rightarrow> 'db app \<Rightarrow> bytes" where
  "bytes_in_hand x a = (case packet_bytes (heap a (unat (ClientIndex x))) x of None \<Rightarrow> [] | Some f \<Rightarrow> f)"

text \<open>
  The packet is still where its pointer points, and its header and its request can be read from its own bytes: what
  a handler reads behind a packet that is too short depends on what arrives meanwhile.
\<close>

definition undisturbed :: "PacketInfo \<Rightarrow> bytes \<Rightarrow> 'db app \<Rightarrow> bool" where
  "undisturbed x f a \<longleftrightarrow> pDataPtr x = None \<or>
     (let u = heap a (unat (ClientIndex x)) in
      PACKET_HEADER_LENGTH \<le> length f \<and> packet_cells u x = Some (map Some f) \<and> ok (request_of (mode_of u) (PacketId x) (length f) (map Some f)))"

inductive split_run :: "'db odbc \<Rightarrow> memcpy_mode \<Rightarrow> nat option \<times> u64 \<Rightarrow> 'db \<Rightarrow> (callback list \<times> bytes) list
    \<Rightarrow> turn_phase \<Rightarrow> ('db, 'conn) chat_server \<Rightarrow> bool" for d m handle db where
  whole: "chat_run d m handle db ins s \<Longrightarrow> split_run d m handle db ins Ready s"
| network: "split_run d m handle db ins ph s \<Longrightarrow> io_step (mNetwork s) cbs n \<Longrightarrow> recv_buffer_ok cbs bs
    \<Longrightarrow> run_callbacks m (map Some bs) cbs (mPacketManager s) = Inr pm
    \<Longrightarrow> split_run d m handle db (ins @ [(cbs, bs)]) ph (s\<lparr>mNetwork := n, mPacketManager := pm\<rparr>)"
| takes: "split_run d m handle db ins Ready s \<Longrightarrow> mIsRunProcessThread (mPacketManager s) \<Longrightarrow> DequePacketData (mPacketManager s) = Inr (x, pm)
    \<Longrightarrow> split_run d m handle db ins (InHand x (bytes_in_hand x (mUserManager pm))) (s\<lparr>mPacketManager := pm\<rparr>)"
| handled: "split_run d m handle db ins (InHand x f) s \<Longrightarrow> undisturbed x f (mUserManager (mPacketManager s))
    \<Longrightarrow> handle_packet d x (mPacketManager s) = Inr pm \<Longrightarrow> flush accepted (sent (mUserManager pm)) (mNetwork s) = Inr n
    \<Longrightarrow> split_run d m handle db ins SystemNext (s\<lparr>mNetwork := n, mPacketManager := clear_outbox pm\<rparr>)"
| system: "split_run d m handle db ins SystemNext s \<Longrightarrow> ProcessPacket_system d (mPacketManager s) = Inr pm
    \<Longrightarrow> flush accepted (sent (mUserManager pm)) (mNetwork s) = Inr n
    \<Longrightarrow> split_run d m handle db ins Ready (s\<lparr>mNetwork := n, mPacketManager := clear_outbox pm\<rparr>)"

section \<open>The simulation\<close>

text \<open>A packet in hand is, for the service, still the first one that waits.\<close>

fun held :: "turn_phase \<Rightarrow> 'db service \<Rightarrow> 'db service" where
  "held (InHand x f) v = hold (unat (ClientIndex x)) f v"
| "held _ v = v"

fun hand_ok :: "turn_phase \<Rightarrow> bool" where
  "hand_ok (InHand x f) \<longleftrightarrow> (PacketId x = 0 \<and> f = [])
     \<or> (\<exists>p < MAX_CLIENT. ClientIndex x = of_nat p \<and> pDataPtr x \<noteq> None \<and> (PACKET_HEADER_LENGTH \<le> length f \<longrightarrow>
          PacketId x = of_le16 (drop 2 f) \<and> DataSize x = of_le16 f \<and> unat (of_le16 f) = length f))"
| "hand_ok _ \<longleftrightarrow> True"

definition split_follows :: "'db odbc \<Rightarrow> 'db \<Rightarrow> (callback list \<times> bytes) list \<Rightarrow> turn_phase \<Rightarrow> ('db, 'conn) chat_server
    \<Rightarrow> event list \<Rightarrow> bool" where
  "split_follows d db ins ph s h \<longleftrightarrow>
     service_run d (initial_service db) h (held ph (service_of (mUserManager (mPacketManager s))))
     \<and> (\<forall>p. inputs p h = bytes_from p ins)
     \<and> (\<forall>i < MAX_CLIENT. send_lines (mNetwork s) ! i = messages_to i (outputs h))"

definition split_ok :: "turn_phase \<Rightarrow> ('db, 'conn) chat_server \<Rightarrow> bool" where
  "split_ok ph s \<longleftrightarrow> server_ok s \<and> at_rest s \<and> hand_ok ph"

lemma split_ok_facts:
  assumes "split_ok ph s"
  shows "pm_ok (mPacketManager s)" and "chat_ok (mUserManager (mPacketManager s))" and "sent (mUserManager (mPacketManager s)) = []"
    and "net_ok MAX_CLIENT (mNetwork s)" and "length (mUserObjPool (mUserManager (mPacketManager s))) = MAX_CLIENT"
  using assms server_chat_ok[of s] by (auto simp: split_ok_def at_rest_def server_ok_def)

text \<open>The network.\<close>

lemma network_splits:
  assumes ok: "split_ok ph s" and fo: "split_follows d db ins ph s h" and io: "io_step (mNetwork s) cbs n"
    and bs: "recv_buffer_ok cbs bs" and run: "run_callbacks m (map Some bs) cbs (mPacketManager s) = Inr pm"
  shows "split_ok ph (s\<lparr>mNetwork := n, mPacketManager := pm\<rparr>)"
    and "\<exists>h. split_follows d db (ins @ [(cbs, bs)]) ph (s\<lparr>mNetwork := n, mPacketManager := pm\<rparr>) h"
proof -
  have so: "server_ok s" "at_rest s"
    using ok by (simp_all add: split_ok_def)
  have "chat_step d m s (s\<lparr>mNetwork := n, mPacketManager := pm\<rparr>)"
    by (rule chat_step.network[OF io bs run])
  then show "split_ok ph (s\<lparr>mNetwork := n, mPacketManager := pm\<rparr>)"
    using ok chat_step_ok[OF so(1)] network_delivers(2)[OF so io bs run] by (simp add: split_ok_def)
  let ?v = "service_of (mUserManager (mPacketManager s))" and ?v' = "service_of (mUserManager pm)"
  obtain h' where h': "service_run d ?v h' ?v'" "set h' \<subseteq> range (case_prod Received)"
    "\<forall>p. inputs p h' = concat (map (handed_over p bs) cbs)"
    using network_delivers(1)[OF so io bs run, of d] by (auto simp: delivers_def)
  have "service_run d (held ph ?v) h' (held ph ?v')"
    using h'(1) hold_received[OF h'(1,2)] by (cases ph) simp_all
  then have "split_follows d db (ins @ [(cbs, bs)]) ph (s\<lparr>mNetwork := n, mPacketManager := pm\<rparr>) (h @ h')"
    using fo h' service_run_trans[of d _ h _ h'] io_step_lines[OF io] received_silent by (auto simp: split_follows_def)
  then show "\<exists>h. split_follows d db (ins @ [(cbs, bs)]) ph (s\<lparr>mNetwork := n, mPacketManager := pm\<rparr>) h" ..
qed

text \<open>Taking a packet changes nothing that the service sees.\<close>

lemma hold_front: "waiting v p = f @ rest \<Longrightarrow> hold p f (v\<lparr>waiting := (waiting v)(p := rest)\<rparr>) = v"
  by (cases v) (auto simp: hold_def fun_eq_iff)

lemma taken_bytes:
  assumes s: "session_ok p u" and g: "spec_get (stream u) = Some (f, rest)" and x: "front_packet c u = x"
  shows "packet_bytes (taken u) x = Some f" and "pDataPtr x \<noteq> None" and "stream (taken u) = rest" and "stream u = f @ rest"
    and "PACKET_HEADER_LENGTH \<le> length f \<Longrightarrow> PacketId x = of_le16 (drop 2 f) \<and> DataSize x = of_le16 f \<and> unat (of_le16 f) = length f"
proof -
  let ?n = "of_le16 (stream u)"
  have b: "buffer_ok u"
    using s by (simp add: session_ok_def)
  have n: "unat ?n \<le> length (stream u)" "f = take (unat ?n) (stream u)" "rest = drop (unat ?n) (stream u)"
    using g by (auto simp: spec_get_def Let_def split: if_splits)
  show "stream u = f @ rest"
    using n by simp
  show "stream (taken u) = rest"
    using taken_ok(6)[OF s] g by simp
  have x': "x = (packet_at u)\<lparr>ClientIndex := c\<rparr>"
    using g x by (simp add: front_packet_def)
  then show "pDataPtr x \<noteq> None"
    by (simp add: packet_at_def)
  have un: "unat (ucast ?n :: u32) = unat ?n"
    by (simp add: unat_ucast_u16_u32)
  show "packet_bytes (taken u) x = Some f"
    using advanced_ok(3)[OF b, of "ucast ?n", unfolded un, OF n(1)] g n(2)
    by (simp add: packet_bytes_def packet_cells_def x' packet_at_def taken_def comp_def)
  show "PacketId x = of_le16 (drop 2 f) \<and> DataSize x = of_le16 f \<and> unat (of_le16 f) = length f" if h: "PACKET_HEADER_LENGTH \<le> length f"
  proof -
    have "2 \<le> length f" and "2 \<le> length (drop 2 f)"
      using h by (simp_all add: packet_sizes)
    then have "of_le16 (stream u) = of_le16 f" and "of_le16 (drop 2 (stream u)) = of_le16 (drop 2 f)"
      using of_le16_append[of f rest] of_le16_append[of "drop 2 f" rest] \<open>stream u = f @ rest\<close> by simp_all
    moreover have "length f = unat ?n"
      using n by simp
    ultimately show ?thesis
      by (simp add: x' packet_at_def)
  qed
qed

lemma take_splits:
  assumes ok: "split_ok Ready s" and fo: "split_follows d db ins Ready s h" and dq: "DequePacketData (mPacketManager s) = Inr (x, pm)"
  defines "ph \<equiv> InHand x (bytes_in_hand x (mUserManager pm))"
  shows "split_ok ph (s\<lparr>mPacketManager := pm\<rparr>)" and "split_follows d db ins ph (s\<lparr>mPacketManager := pm\<rparr>) h"
proof -
  note f = split_ok_facts[OF ok]
  let ?a = "mUserManager (mPacketManager s)" and ?s = "s\<lparr>mPacketManager := pm\<rparr>"
  have "split_ok ph ?s \<and> held ph (service_of (mUserManager pm)) = service_of ?a"
  proof (cases "mInComingPacketUserIndex (mPacketManager s)")
    case Nil
    then have "x = empty_PacketInfo" and "pm = mPacketManager s"
      using dq DequePacketData_empty[OF Nil] by simp_all
    then show ?thesis
      using ok by (simp add: ph_def bytes_in_hand_def packet_bytes_def packet_cells_def empty_PacketInfo_def split_ok_def)
  next
    case (Cons i "is")
    obtain p where lv: "live ?a p" and i: "i = of_nat p"
      using pm_ok_front[OF f(1) Cons] .
    note q = Cons[unfolded i]
    let ?u = "heap ?a p"
    have p: "p < MAX_CLIENT" "unat (of_nat p :: u32) = p"
      using lv f(5) by (simp_all add: live_def MAX_CLIENT_def mem_simps)
    have pm: "pm = (mPacketManager s)\<lparr>mInComingPacketUserIndex := is, mUserManager := ?a\<lparr>heap := (heap ?a)(p := taken ?u)\<rparr>\<rparr>"
      and x: "x = front_packet (of_nat p) ?u"
      using dq DequePacketData_front[OF f(1) q lv] by simp_all
    have s: "session_ok p ?u"
      using app_ok_session[OF chat_okD(1)[OF f(2)] lv] .
    have c: "ClientIndex x = of_nat p"
      by (simp add: x front_packet_def)
    have "server_ok ?s" and "at_rest ?s"
      using ok taken_pm_ok[OF f(1) q lv] by (simp_all add: split_ok_def server_ok_def at_rest_def pm shape_def)
    then have so: "split_ok ph ?s" if "hand_ok ph"
      using that by (simp add: split_ok_def)
    show ?thesis
    proof (cases "spec_get (stream ?u)")
      case None
      then have "packet_bytes v x = None" and "PacketId x = 0" and "taken ?u = ?u" for v
        by (simp_all add: x front_packet_def packet_bytes_def packet_cells_def empty_PacketInfo_def taken_def)
      then show ?thesis
        using so by (simp add: ph_def bytes_in_hand_def pm)
    next
      case (Some fr)
      obtain f rest where g: "spec_get (stream ?u) = Some (f, rest)"
        using Some by (cases fr) simp
      note t = taken_bytes[OF s g x[symmetric]]
      have ph: "ph = InHand x f"
        using t(1) p(2) by (simp add: ph_def bytes_in_hand_def c pm)
      have "hand_ok ph"
        using t(2,5) p(1) c by (auto simp: ph)
      moreover have "held ph (service_of (mUserManager pm)) = service_of ?a"
        using taken_service(1)[OF s g refl] p(2) hold_front[of "service_of ?a" p f rest] t(4)
        by (simp add: ph pm c) (simp add: service_of_def)
      ultimately show ?thesis
        using so by simp
    qed
  qed
  then show "split_ok ph ?s" and "split_follows d db ins ph ?s h"
    using fo by (simp_all add: split_follows_def)
qed

text \<open>Handling it is one step of the service, which takes the packet then.\<close>

lemma handled_performs:
  assumes c: "chat_ok a" and ok: "pm_ok s" and a: "a = mUserManager s" and hand: "hand_ok (InHand x f)" and pool: "length (mUserObjPool a) = MAX_CLIENT"
    and un: "undisturbed x f a" and ret: "handle_packet d x s = Inr s'"
  shows "\<exists>h. service_run d (held (InHand x f) (service_of a)) h (service_of (mUserManager s'))
    \<and> sent (mUserManager s') = sent a @ map wire (outputs h) \<and> (\<forall>(q, m) \<in> set (outputs h). q < MAX_CLIENT) \<and> (\<forall>q. inputs q h = [])"
    and "members_live (mUserManager s')"
proof -
  let ?v = "held (InHand x f) (service_of a)" and ?v' = "service_of (mUserManager s')"
  let ?goal = "(\<exists>h. service_run d ?v h ?v' \<and> sent (mUserManager s') = sent a @ map wire (outputs h)
    \<and> (\<forall>(q, m) \<in> set (outputs h). q < MAX_CLIENT) \<and> (\<forall>q. inputs q h = [])) \<and> members_live (mUserManager s')"
  have one: "?goal" if "service_step d ?v e ?v'" and "sent (mUserManager s') = sent a @ map wire (emits e)"
    and "\<forall>(q, m) \<in> set (emits e). live a q" and "\<forall>q. arrived q e = []" and "members_live (mUserManager s')" for e
    using that service_run.more[OF service_run.start that(1)] pool by (intro conjI exI[of _ "[e]"]) (auto simp: live_def)
  consider (none) "PacketId x = 0" "f = []"
    | (some) p where "p < MAX_CLIENT" "ClientIndex x = of_nat p" "pDataPtr x \<noteq> None"
        "PACKET_HEADER_LENGTH \<le> length f \<longrightarrow> PacketId x = of_le16 (drop 2 f) \<and> DataSize x = of_le16 f \<and> unat (of_le16 f) = length f"
    using hand by auto
  then have ?goal
  proof cases
    case none
    then have "s' = s"
      using ret by (simp add: handle_packet_def)
    then show ?thesis
      using none chat_okD(4)[OF c] service_run.start[of d ?v] by (intro conjI exI[of _ "[]"]) (simp_all add: a)
  next
    case some
    let ?u = "heap a p"
    have p: "unat (ClientIndex x) = p" and lv: "live a p"
      using some(1,2) pool by (simp_all add: MAX_CLIENT_def mem_simps live_def)
    obtain ptr where ptr: "pDataPtr x = Some ptr"
      using some(3) by auto
    obtain r where r: "request_of (mode_of ?u) (PacketId x) (length f) (map Some f) = Inr r"
      and hd: "PACKET_HEADER_LENGTH \<le> length f" and cells: "packet_cells ?u x = Some (map Some f)"
      using un ptr unfolding undisturbed_def Let_def p ok_def by auto
    have id: "PacketId x = of_le16 (drop 2 f)" and sz: "DataSize x = of_le16 f" "unat (of_le16 f) = length f"
      using some(4) hd by simp_all
    have u: "session_ok p ?u"
      using app_ok_session[OF chat_okD(1)[OF c] lv] .
    have v: "?v = hold p f (service_of a)"
      by (simp add: p)
    let ?rest = "stream ?u"
    have w: "waiting ?v p = f @ ?rest" and ph: "phase_at (machine ?v) p = mode_of ?u"
      and mach: "machine ?v = abstraction a" "database ?v = accounts a"
      unfolding v by (simp_all add: hold_def service_of_def abs_simps)
    have fr: "frame f"
      using hd sz by (simp add: frame_def)
    have id': "of_le16 (drop 2 (f @ ?rest)) = PacketId x"
      using of_le16_append[of "drop 2 f" ?rest] hd by (simp add: id packet_sizes)
    have "request_of (mode_of ?u) (of_le16 (drop 2 (f @ ?rest))) (length f) (map Some (f @ ?rest) @ []) = Inr r"
      unfolding id' using request_of_append[OF r, of "map Some ?rest"] by simp
    then have asks: "asks ?v p f ?rest r"
      unfolding asks_def w ph using spec_get_frame[OF fr] by blast
    have front: "?v\<lparr>waiting := (waiting ?v)(p := ?rest)\<rparr> = service_of a"
      unfolding v by (simp add: hold_def service_of_def fun_eq_iff)
    show ?thesis
    proof (cases "served ?u (PacketId x)")
      case False
      then have "s' = s"
        using ret unserved_dispatch[OF ok _ some(2)] lv by (auto simp: handle_packet_def a split: if_splits)
      moreover have "r = None"
        using unserved_request[OF u False] r by simp
      then have "service_step d ?v (Ignored p f) (service_of a)"
        using service_step.ignored[of ?v p f ?rest d] asks front by simp
      ultimately show ?thesis
        using one[of "Ignored p f"] chat_okD(4)[OF c] by (simp add: a)
    next
      case True
      then obtain pid where pid: "pid \<in> set requests" and x: "PacketId x = pid16 pid" and nc: "\<not> cleared ?u"
        by (auto simp: served_def)
      have "ProcessRecvPacket d x s = Inr s'"
        using ret request_id_big[OF pid] by (simp add: handle_packet_def x)
      from this[unfolded request_dispatch[OF ok lv[unfolded a] pid some(2) x nc[unfolded a]]] obtain a' where run: "run_recv d (allowed (mState ?u) pid) p (DataSize x) (Some ptr) a = Inr a'" and s': "mUserManager s' = a'"
        using ptr by (auto simp: a bindr_simps)
      have sv: "serves d pid (DataSize x) ptr p a a'"
        by (rule run_recv_serves[OF c lv nc pid run])
      have "drop ptr (mPacketDataBuffer ?u) = map Some f @ drop (ptr + length f) (mPacketDataBuffer ?u)"
        using cells sz ptr append_take_drop_id[of "length f" "drop ptr (mPacketDataBuffer ?u)"]
        by (simp add: packet_cells_def block_def add.commute)
      then have req: "request_of (mode_of ?u) (pid16 pid) (unat (DataSize x)) (drop ptr (mPacketDataBuffer ?u)) = Inr r"
        using request_of_append[OF r] x sz by simp
      have wt: "waiting (service_of a') = waiting (service_of a)"
        using run_recv_buffers[OF run] same_buffer_stream by (simp add: service_of_def same_buffers_def fun_eq_iff)
      show ?thesis
      proof (cases r)
        case None
        then have "a' = a"
          using sv req by (simp add: serves_def)
        moreover have "service_step d ?v (Ignored p f) (service_of a)"
          using service_step.ignored[of ?v p f ?rest d] asks front None by simp
        ultimately show ?thesis
          using one[of "Ignored p f"] chat_okD(4)[OF c] s' by simp
      next
        case (Some q)
        then have "answers d p q a a'"
          using sv req by (simp add: serves_def)
        then obtain out where out: "respond d (abstraction a) (accounts a) p (mode_of ?u) q = Some (out, abstraction a', accounts a')"
          "sent a' = sent a @ map wire out" "\<forall>(q, m) \<in> set out. live a q" and ml: "members_live a'"
          by (auto simp: answers_def)
        have "service_of a' = \<lparr>machine = abstraction a', database = accounts a', waiting = (waiting ?v)(p := ?rest)\<rparr>"
          using wt arg_cong[OF front, of waiting] by (simp add: service_of_def)
        moreover have "service_step d ?v (Answered p q out) \<lparr>machine = abstraction a', database = accounts a', waiting = (waiting ?v)(p := ?rest)\<rparr>"
          using service_step.answered[of ?v p f ?rest q d out "abstraction a'" "accounts a'"] asks Some out(1) mach ph by simp
        ultimately show ?thesis
          using one[of "Answered p q out"] out ml s' by simp
      qed
    qed
  qed
  then show "\<exists>h. service_run d ?v h ?v' \<and> sent (mUserManager s') = sent a @ map wire (outputs h)
    \<and> (\<forall>(q, m) \<in> set (outputs h). q < MAX_CLIENT) \<and> (\<forall>q. inputs q h = [])" and "members_live (mUserManager s')"
    by auto
qed

lemma handle_packet_ok:
  assumes ok: "pm_ok s" and hand: "hand_ok (InHand x f)" and pool: "length (mUserObjPool (mUserManager s)) = MAX_CLIENT"
    and ret: "handle_packet d x s = Inr s'"
  shows "pm_ok s' \<and> mUserObjPool (mUserManager s') = mUserObjPool (mUserManager s)
    \<and> shape (mUserManager s') = shape (mUserManager s) \<and> mCurrentUserCnt (mUserManager s') = mCurrentUserCnt (mUserManager s)"
proof (cases "PacketId x > pid16 SYS_END")
  case True
  then obtain p where p: "p < MAX_CLIENT" "ClientIndex x = of_nat p"
    using hand by auto
  have lv: "live (mUserManager s) p"
    using p(1) pool by (simp add: live_def)
  have known: "known_client (mUserManager s) (ClientIndex x)"
    using lv p(2) by (auto simp: known_client_def)
  have r: "ProcessRecvPacket d x s = Inr s'"
    using ret True by (simp add: handle_packet_def)
  have "shape (mUserManager s') = shape (mUserManager s) \<and> mCurrentUserCnt (mUserManager s') = mCurrentUserCnt (mUserManager s)"
    using r ok run_packet_fun_shape[OF _ lv] run_packet_fun_count unfolding ProcessRecvPacket_def on_app_def p(2)
    by (fastforce simp: bindr_simps pm_ok_def split: option.splits)
  then show ?thesis
    using ProcessRecvPacket_ok[OF ok known r] by simp
qed (use ret ok in \<open>simp add: handle_packet_def\<close>)

text \<open>The packets of a part of a turn reach the lines of their clients.\<close>

lemma emit_splits:
  assumes ok: "split_ok ph s" and fo: "split_follows d db ins ph s h"
    and run: "service_run d (held ph (service_of (mUserManager (mPacketManager s)))) h' (service_of (mUserManager pm))"
    and out: "sent (mUserManager pm) = map wire (outputs h')" "\<forall>(q, m) \<in> set (outputs h'). q < MAX_CLIENT" "\<forall>q. inputs q h' = []"
    and fl: "flush accepted (sent (mUserManager pm)) (mNetwork s) = Inr n" and ph': "ph' \<in> {Ready, SystemNext}"
  shows "split_follows d db ins ph' (s\<lparr>mNetwork := n, mPacketManager := clear_outbox pm\<rparr>) (h @ h')"
proof -
  note lines = emitted_lines[OF split_ok_facts(4)[OF ok] run out(2) fl[unfolded out(1)]]
  have "service_of (mUserManager (clear_outbox pm)) = service_of (mUserManager pm)"
    by (simp add: clear_outbox_def service_of_def abs_simps)
  moreover have "held ph' v = v" for v :: "'a service"
    using ph' by auto
  ultimately show ?thesis
    using fo run out(3) lines service_run_trans[of d _ h _ h'] by (auto simp: split_follows_def)
qed

lemma rested_split_ok:
  assumes ok: "server_ok s" and pm: "pm_ok pm" "length (mUserObjPool (mUserManager pm)) = MAX_CLIENT" and c: "chat_ok (mUserManager pm)"
    and fl: "flush accepted (sent (mUserManager pm)) (mNetwork s) = Inr n" and ph': "ph' \<in> {Ready, SystemNext}"
  shows "split_ok ph' (s\<lparr>mNetwork := n, mPacketManager := clear_outbox pm\<rparr>)"
proof -
  have "sent (mUserManager (clear_outbox pm)) = []" and "members_live (mUserManager (clear_outbox pm)) = members_live (mUserManager pm)"
    and "mCurrentUserCnt (mUserManager (clear_outbox pm)) = mCurrentUserCnt (mUserManager pm)"
    by (simp_all add: clear_outbox_def)
  then show ?thesis
    using flush_ok[OF _ fl] ok pm c ph' by (auto simp: split_ok_def server_ok_def at_rest_def chat_ok_def)
qed

lemma handled_splits:
  assumes ok: "split_ok (InHand x f) s" and fo: "split_follows d db ins (InHand x f) s h"
    and un: "undisturbed x f (mUserManager (mPacketManager s))" and ret: "handle_packet d x (mPacketManager s) = Inr pm"
    and fl: "flush accepted (sent (mUserManager pm)) (mNetwork s) = Inr n"
  defines "s' \<equiv> s\<lparr>mNetwork := n, mPacketManager := clear_outbox pm\<rparr>"
  shows "split_ok SystemNext s' \<and> (\<exists>h. split_follows d db ins SystemNext s' h)"
proof -
  note f = split_ok_facts[OF ok]
  have hand: "hand_ok (InHand x f)" and so: "server_ok s"
    using ok by (simp_all add: split_ok_def)
  note p = handled_performs[OF f(2,1) refl hand f(5) un ret] and k = handle_packet_ok[OF f(1) hand f(5) ret]
  have "chat_ok (mUserManager pm)"
    using k p(2) by (intro chat_ok_kept[OF f(2)]) (simp_all add: pm_ok_def)
  then have "split_ok SystemNext s'"
    unfolding s'_def by (intro rested_split_ok[OF so _ _ _ fl]) (use k f(5) in simp_all)
  moreover obtain h' where "service_run d (held (InHand x f) (service_of (mUserManager (mPacketManager s)))) h' (service_of (mUserManager pm))"
    "sent (mUserManager pm) = map wire (outputs h')" "\<forall>(q, m) \<in> set (outputs h'). q < MAX_CLIENT" "\<forall>q. inputs q h' = []"
    using p(1) f(3) by auto
  from emit_splits[OF ok fo this fl, of SystemNext] have "split_follows d db ins SystemNext s' (h @ h')"
    by (simp add: s'_def)
  ultimately show ?thesis
    by blast
qed

lemma system_splits:
  assumes ok: "split_ok SystemNext s" and fo: "split_follows d db ins SystemNext s h"
    and ret: "ProcessPacket_system d (mPacketManager s) = Inr pm" and fl: "flush accepted (sent (mUserManager pm)) (mNetwork s) = Inr n"
  defines "s' \<equiv> s\<lparr>mNetwork := n, mPacketManager := clear_outbox pm\<rparr>"
  shows "split_ok Ready s' \<and> (\<exists>h. split_follows d db ins Ready s' h)"
proof -
  note f = split_ok_facts[OF ok]
  have so: "server_ok s"
    using ok by (simp add: split_ok_def)
  note y = system_performs[OF f(1,2) ret] and k = ProcessPacket_system_ok[OF f(1) ret]
  have "split_ok Ready s'"
    unfolding s'_def by (intro rested_split_ok[OF so _ _ _ fl]) (use k y f(5) in simp_all)
  moreover obtain h' where sim: "simulates d (mUserManager (mPacketManager s)) h' (mUserManager pm)"
    using simulates_performs[OF simulates_none[OF refl refl] conjunct1[OF y] refl] by auto
  have "service_run d (held SystemNext (service_of (mUserManager (mPacketManager s)))) h' (service_of (mUserManager pm))"
    "sent (mUserManager pm) = map wire (outputs h')" "\<forall>(q, m) \<in> set (outputs h'). q < MAX_CLIENT" "\<forall>q. inputs q h' = []"
    using sim f(3,5) by (auto simp: simulates_def live_def)
  from emit_splits[OF ok fo this fl, of Ready] have "split_follows d db ins Ready s' (h @ h')"
    by (simp add: s'_def)
  ultimately show ?thesis
    by blast
qed

lemma split_run_follows:
  assumes "split_run d m handle db ins ph s"
  shows "split_ok ph s \<and> (\<exists>h. split_follows d db ins ph s h)"
  using assms
proof (induction rule: split_run.induct)
  case (whole ins s)
  have "at_rest s" and "\<exists>h. follows d db ins s h"
    using run_follows[OF whole] by auto
  then show ?case
    using chat_reach_ok[OF chat_run_reach[OF whole]] by (simp add: split_ok_def follows_def split_follows_def)
next
  case (network ins ph s cbs n bs pm)
  then obtain h where "split_ok ph s" and "split_follows d db ins ph s h"
    by blast
  then show ?case
    using network_splits[OF _ _ network.hyps(2-4)] by blast
next
  case (takes ins s x pm)
  then obtain h where "split_ok Ready s" and "split_follows d db ins Ready s h"
    by blast
  then show ?case
    using take_splits[OF _ _ takes.hyps(3)] by blast
next
  case (handled ins x f s pm accepted n)
  then obtain h where "split_ok (InHand x f) s" and "split_follows d db ins (InHand x f) s h"
    by blast
  then show ?case
    using handled_splits[OF _ _ handled.hyps(2-4)] by blast
next
  case (system ins s pm accepted n)
  then obtain h where "split_ok SystemNext s" and "split_follows d db ins SystemNext s h"
    by blast
  then show ?case
    using system_splits[OF _ _ system.hyps(2,3)] by blast
qed

text \<open>A packet that was just taken is left as it is by bytes that leave a margin in the buffer.\<close>

lemma taken_undisturbed:
  assumes s: "session_ok p u" and g: "spec_get (stream u) = Some (f, rest)" and d: "deliver m bs (taken u) = Inr u'"
    and n: "length bs \<le> MAX_SOCKBUF" and fits: "length f + 2 * (length rest + length bs) \<le> PACKET_DATA_BUFFER_SIZE"
  shows "packet_cells u' (front_packet c u) = Some (map Some f)"
proof -
  have b: "buffer_ok u"
    using s by (simp add: session_ok_def)
  note t = taken_shielded[OF b g margin[OF b g fits]]
  have "taken u = advanced (ucast (of_le16 (stream u))) u"
    using g by (simp add: taken_def)
  then show ?thesis
    using shielded_step[OF t(1) order_refl n] d t(2,3) g
    by (simp add: packet_cells_def front_packet_def packet_at_def)
qed

text \<open>A packet in hand that asks for something that has an answer is answered.\<close>

lemma hand_answered:
  fixes s :: "('db, 'conn) chat_server"
  assumes ok: "split_ok (InHand x f) s" and un: "undisturbed x f (app_of s)" and p: "p < MAX_CLIENT" "ClientIndex x = of_nat p" "pDataPtr x \<noteq> None"
    and u: "u = heap (app_of s) p" and req: "request_of (mode_of u) (PacketId x) (length f) (map Some f) = Inr (Some r)"
    and ans: "respond d (abstraction (app_of s)) (accounts (app_of s)) p (mode_of u) r = Some (out, t, db')"
  obtains pm n where "handle_packet d x (mPacketManager s) = Inr pm" and "flush accepted (sent (mUserManager pm)) (mNetwork s) = Inr n"
    and "abstraction (mUserManager pm) = t" and "waiting (service_of (mUserManager pm)) = waiting (service_of (app_of s))"
    and "\<forall>i < MAX_CLIENT. send_lines n ! i = send_lines (mNetwork s) ! i @ messages_to i out"
proof -
  note k = split_ok_facts[OF ok]
  have hand: "hand_ok (InHand x f)"
    using ok by (simp add: split_ok_def)
  have lv: "live (app_of s) p" and pu: "unat (ClientIndex x) = p"
    using p(1,2) k(5) by (simp_all add: live_def MAX_CLIENT_def mem_simps)
  obtain ptr where ptr: "pDataPtr x = Some ptr"
    using p(3) by auto
  have cells: "packet_cells u x = Some (map Some f)" and hd: "PACKET_HEADER_LENGTH \<le> length f"
    using un ptr unfolding undisturbed_def Let_def pu u[symmetric] by auto
  have sz: "unat (DataSize x) = length f"
    using hand hd by (auto simp: packet_sizes)
  have "session_ok p u"
    using app_ok_session[OF chat_okD(1)[OF k(2)] lv] u by simp
  then obtain pid where pid: "pid \<in> set requests" and x: "PacketId x = pid16 pid" and nc: "\<not> cleared (heap (app_of s) p)"
    using unserved_request[of p u "PacketId x" "length f" "map Some f"] req u by (auto simp: served_def)
  have "drop ptr (mPacketDataBuffer u) = map Some f @ drop (ptr + length f) (mPacketDataBuffer u)"
    using cells sz ptr append_take_drop_id[of "length f" "drop ptr (mPacketDataBuffer u)"]
    by (simp add: packet_cells_def block_def add.commute)
  then have rq: "request_of (mode_of (heap (app_of s) p)) (pid16 pid) (unat (DataSize x)) (drop ptr (mPacketDataBuffer (heap (app_of s) p)))
      = Inr (Some r)"
    using request_of_append[OF req] x sz u by simp
  then have "answerable d pid (DataSize x) ptr p (app_of s)"
    using ans u by (simp add: answerable_def)
  from run_recv_returns[OF k(2) lv nc pid this] obtain a' where
    run: "run_recv d (allowed (mState (heap (app_of s) p)) pid) p (DataSize x) (Some ptr) (app_of s) = Inr a'"
    by blast
  let ?pm = "(mPacketManager s)\<lparr>mUserManager := a'\<rparr>"
  have ret: "handle_packet d x (mPacketManager s) = Inr ?pm"
    using request_dispatch[OF k(1) lv pid p(2) x nc, of d] run ptr request_id_big[OF pid] by (simp add: handle_packet_def x)
  have "answers d p r (app_of s) a'"
    using run_recv_serves[OF k(2) lv nc pid run] rq by (simp add: serves_def)
  then have out: "sent a' = map wire out" "\<forall>(q, m) \<in> set out. q < MAX_CLIENT" and t: "abstraction a' = t"
    using ans u k(3,5) by (auto simp: answers_def live_def)
  obtain h where h: "service_run d (held (InHand x f) (service_of (app_of s))) h (service_of a')" "sent a' = map wire (outputs h)"
    "\<forall>(q, m) \<in> set (outputs h). q < MAX_CLIENT"
    using handled_performs(1)[OF k(2,1) refl hand k(5) un ret] k(3) by auto
  have small: "\<forall>(c, data) \<in> set (sent a'). unat c < MAX_CLIENT \<and> length data < 65536"
    using emitted_sends[OF h(1,3)] h(2) by simp
  then obtain n where n: "flush accepted (sent a') (mNetwork s) = Inr n"
    using flush_returns[OF k(4)] by blast
  have "\<forall>i < MAX_CLIENT. send_lines n ! i = send_lines (mNetwork s) ! i @ messages_to i out"
    using flush_lines[OF k(4) n _] small messages_to_wire[OF out(2)] unfolding out(1) by fastforce
  moreover have "waiting (service_of a') = waiting (service_of (app_of s))"
    using run_recv_buffers[OF run] same_buffer_stream by (simp add: service_of_def same_buffers_def fun_eq_iff)
  ultimately show thesis
    using that[of ?pm n] ret n t by simp
qed

text \<open>A packet is taken, and bytes of the same client arrive while it is in hand.\<close>

lemma take_and_receive:
  fixes s :: "('db, 'conn) chat_server"
  assumes sv: "serving d m handle db s" and p: "p < MAX_CLIENT" and q: "mInComingPacketUserIndex (mPacketManager s) = of_nat p # is"
    and g: "spec_get (stream (heap (app_of s) p)) = Some (f, rest)" and bs: "0 < length bs" "length bs \<le> MAX_SOCKBUF"
    and bl: "length rest \<le> 3920" and fits: "length f + 2 * (length rest + length bs) \<le> PACKET_DATA_BUFFER_SIZE"
  obtains ins x and s' :: "('db, 'conn) chat_server" where "split_run d m handle db ins (InHand x f) s'"
    and "packet_cells (heap (app_of s') p) x = Some (map Some f)" and "ClientIndex x = of_nat p" and "pDataPtr x \<noteq> None"
    and "PACKET_HEADER_LENGTH \<le> length f \<longrightarrow> PacketId x = of_le16 (drop 2 f)" and "mNetwork s' = mNetwork s"
    and "service_of (app_of s') = (service_of (app_of s))\<lparr>waiting := (waiting (service_of (app_of s)))(p := rest @ bs)\<rparr>"
proof -
  note k = serving_facts[OF sv p]
  let ?u = "heap (app_of s) p" and ?x = "front_packet (of_nat p) (heap (app_of s) p)"
  have "chat_reach d m handle db s"
    using sv by (simp add: serving_def)
  then have "\<exists>ins. chat_run d m handle db ins s"
    by (rule chat_reach_run)
  then obtain ins where "chat_run d m handle db ins s"
    by auto
  note r1 = split_run.whole[OF this]
  let ?pm = "(mPacketManager s)\<lparr>mInComingPacketUserIndex := is, mUserManager := (app_of s)\<lparr>heap := (heap (app_of s))(p := taken ?u)\<rparr>\<rparr>"
  note t = taken_bytes[OF k(8) g, where c = "of_nat p", OF refl] and tk = taken_ok[OF k(8)]
  have pu: "unat (of_nat p :: u32) = p" and c: "ClientIndex ?x = of_nat p"
    using p by (simp_all add: MAX_CLIENT_def mem_simps front_packet_def)
  have r2: "split_run d m handle db ins (InHand ?x f) (s\<lparr>mPacketManager := ?pm\<rparr>)"
    using split_run.takes[OF r1 k(7) DequePacketData_front[OF k(1) q k(2)]] t(1) pu by (simp add: bytes_in_hand_def c)
  have pm: "pm_ok ?pm" "live (mUserManager ?pm) p" "length (stream (heap (mUserManager ?pm) p)) \<le> 3920"
    using taken_pm_ok[OF k(1) q k(2)] k(2) t(3) bl by simp_all
  obtain u' where rec: "ReceivePacketData m (of_nat p) (of_nat (length bs)) (map Some bs) ?pm =
      Inr (?pm\<lparr>mUserManager := (mUserManager ?pm)\<lparr>heap := (heap (mUserManager ?pm))(p := u')\<rparr>,
        mInComingPacketUserIndex := mInComingPacketUserIndex ?pm @ [of_nat p]\<rparr>)"
    and u': "stream u' = stream (heap (mUserManager ?pm) p) @ bs" "mUserID u' = mUserID (heap (mUserManager ?pm) p)"
      "mState u' = mState (heap (mUserManager ?pm) p)" "recvFuntionDictionary u' = recvFuntionDictionary (heap (mUserManager ?pm) p)"
      "mRoomIndex u' = mRoomIndex (heap (mUserManager ?pm) p)"
    and d: "deliver m bs (heap (mUserManager ?pm) p) = Inr u'"
    by (rule ReceivePacketData_small[OF pm(1,2) bs(2) pm(3)])
  let ?s' = "s\<lparr>mPacketManager := ?pm\<lparr>mUserManager := (mUserManager ?pm)\<lparr>heap := (heap (mUserManager ?pm))(p := u')\<rparr>,
        mInComingPacketUserIndex := mInComingPacketUserIndex ?pm @ [of_nat p]\<rparr>\<rparr>"
  have "io_step (mNetwork s) [OnReceive (of_nat p) (of_nat (length bs))] (mNetwork s)"
    using sv serving_slot[OF sv p] receive_io[of "mNetwork s" p bs] bs by (simp add: serving_def)
  then have r3: "split_run d m handle db (ins @ [([OnReceive (of_nat p) (of_nat (length bs))], bs)]) (InHand ?x f) ?s'"
    using split_run.network[OF r2, of _ "mNetwork s" bs] rec bs by (simp add: recv_buffer_ok_def ChatServer_OnReceive_def)
  have "abstraction ((app_of s)\<lparr>heap := (heap (app_of s))(p := u')\<rparr>) = abstraction (app_of s)"
    by (rule abstraction_buffer) (use mode_of_buffer[OF u'(3-5)] mode_of_buffer[OF tk(3-5)] u'(2) tk(2) in simp_all)
  then have "service_of (app_of ?s') = (service_of (app_of s))\<lparr>waiting := (waiting (service_of (app_of s)))(p := rest @ bs)\<rparr>"
    using u'(1) t(3) by (simp add: service_of_def fun_eq_iff)
  moreover have "packet_cells (heap (app_of ?s') p) ?x = Some (map Some f)"
    using taken_undisturbed[OF k(8) g _ bs(2) fits] d by simp
  ultimately show thesis
    using that[OF r3] c t(2,5) by simp
qed

section \<open>Properties\<close>

text \<open>
  C8. Turns need not be atomic: when the worker threads go on between the extraction of a packet, its handling and
  the system packet of the same turn, delivering bytes to every session, also the one whose packet is in hand,
  the server still refines the service, as long as every packet that has its header and its fields is still in the
  buffer when it is handled. There is a history on the same bytes that ends in the state of the server, with a packet
  in hand as the first that waits, and whose messages are the packets sent or queued, in order.
\<close>

theorem split_turns_refine:
  assumes "split_run d m handle db ins ph s"
  shows "\<exists>h. service_run d (initial_service db) h (held ph (service_of (mUserManager (mPacketManager s))))
    \<and> (\<forall>p. inputs p h = bytes_from p ins)
    \<and> (\<forall>i < MAX_CLIENT. send_lines (mNetwork s) ! i = messages_to i (outputs h))"
  using split_run_follows[OF assms] by (auto simp: split_follows_def)

text \<open>A client that has logged in asks for a room; while its request is in hand, the start of its first line arrives.\<close>

definition early_line :: bytes where
  "early_line = take 256 (chat_request (replicate 257 65))"

lemma early_line_length: "length early_line = 256"
  by (simp add: early_line_def chat_request_def)

theorem split_turns_refine_witness:
  "\<exists>ins (s :: (account_db, unit) chat_server) h. split_run sample_odbc Disjoint_only (Some 0, 1) init_db ins SystemNext s
    \<and> service_run sample_odbc (initial_service init_db) h (service_of (mUserManager (mPacketManager s)))
    \<and> waiting (service_of (mUserManager (mPacketManager s))) 7 = early_line
    \<and> messages_to 7 (outputs h) = [ack_cells ACK_LOGIN 30, ack_cells ACK_ROOM_ENTER 50]"
proof -
  obtain db' where db: "SelectAccount sample_odbc test001 test001 init_db = Some (True, db')"
    using sample_login by blast
  have p: "7 < MAX_CLIENT"
    by (simp add: MAX_CLIENT_def)
  obtain s0 :: "(account_db, unit) chat_server" and v where s0: "quiet sample_odbc Disjoint_only (Some 0, 1) init_db s0"
    and v0: "service_of (app_of s0) = v" and ph: "phase_at (machine v) 7 = Lobby" and uid: "user_id (machine v) 7 = test001"
    and w: "waiting v 7 = []" and ms: "members (machine v) = (\<lambda>_. [])" and ad: "admitted (machine v) = (\<lambda>_. 0)"
    and l0: "send_lines (mNetwork s0) ! 7 = messages_to 7 [(7, login_ok)]"
    by (rule conversation_login[OF p test001_bounds(1,2,1,3) db])
  let ?f = "enter_request 3"
  note ea = enter_asked[of 3]
  have st0: "stream (heap (app_of s0) 7) = []"
    using arg_cong[OF v0, of "\<lambda>v. waiting v 7"] w by (simp add: service_of_def)
  obtain s1 :: "(account_db, unit) chat_server" where s1: "serving sample_odbc Disjoint_only (Some 0, 1) init_db s1" and n1: "mNetwork s1 = mNetwork s0"
    and q1: "mInComingPacketUserIndex (mPacketManager s1) = [of_nat 7]"
    and v1: "service_of (app_of s1) = (service_of (app_of s0))\<lparr>waiting := (waiting (service_of (app_of s0)))
          (7 := waiting (service_of (app_of s0)) 7 @ ?f)\<rparr>"
    by (rule quiet_receive[OF s0 p, of ?f]) (use ea st0 in \<open>auto simp: MAX_SOCKBUF_def fits_int_def\<close>)
  note f1 = serving_facts[OF s1 p]
  let ?u = "heap (app_of s1) 7"
  have "stream ?u = ?f"
    using arg_cong[OF v1, of "\<lambda>v. waiting v 7"] st0 by (simp add: service_of_def)
  then have g: "spec_get (stream ?u) = Some (?f, [])"
    using ea(1) by (simp add: fits_int_def)
  have bounds: "length ?f + 2 * (length ([] :: bytes) + length early_line) \<le> PACKET_DATA_BUFFER_SIZE" "0 < length early_line"
    "length early_line \<le> MAX_SOCKBUF" "length ([] :: bytes) \<le> 3920" and ea2: "length ?f = 9"
    using ea(2) by (simp_all add: early_line_length MAX_SOCKBUF_def PACKET_DATA_BUFFER_SIZE_def fits_int_def)
  obtain ins x and s2 :: "(account_db, unit) chat_server" where r2: "split_run sample_odbc Disjoint_only (Some 0, 1) init_db ins (InHand x ?f) s2"
    and cells: "packet_cells (heap (app_of s2) 7) x = Some (map Some ?f)" and c: "ClientIndex x = of_nat 7" "pDataPtr x \<noteq> None"
    and id: "PACKET_HEADER_LENGTH \<le> length ?f \<longrightarrow> PacketId x = of_le16 (drop 2 ?f)" and n2: "mNetwork s2 = mNetwork s1"
    and v2: "service_of (app_of s2) = (service_of (app_of s1))\<lparr>waiting := (waiting (service_of (app_of s1)))(7 := [] @ early_line)\<rparr>"
    by (rule take_and_receive[OF s1 p q1 g bounds(2,3,4,1)])
  have ab: "abstraction (app_of s2) = machine v" and ac: "accounts (app_of s2) = database v"
    and st2: "waiting (service_of (app_of s2)) 7 = early_line"
    using arg_cong[OF v2, of machine] arg_cong[OF v2, of database] arg_cong[OF v2, of "\<lambda>v. waiting v 7"]
      arg_cong[OF v1, of machine] arg_cong[OF v1, of database] v0 by (auto simp: service_of_def)
  have md: "mode_of (heap (app_of s2) 7) = Lobby"
    using arg_cong[OF ab, of "\<lambda>t. phase_at t 7"] ph by (simp add: abstraction_def)
  have req: "request_of (mode_of (heap (app_of s2) 7)) (PacketId x) (length ?f) (map Some ?f) = Inr (Some (Enter 3))"
    using ea(3)[of "[]"] id ea2 unfolding md by (simp add: fits_int_def packet_sizes)
  have un: "undisturbed x ?f (app_of s2)"
    using cells req ea2 by (simp add: undisturbed_def c Let_def ok_def packet_sizes)
  let ?t = "(machine v)\<lparr>phase_at := (phase_at (machine v))(7 := Chatting 3), members := (members (machine v))(3 := [7]),
      admitted := (admitted (machine v))(3 := 1)\<rparr>"
  have "respond sample_odbc (machine v) (database v) 7 Lobby (Enter 3) = Some ([(7, enter_ok)], ?t, database v)"
    using test001_bounds by (simp add: ph uid ms ad respond_enter_def with_db_def to_members_def in_table_def packet_sizes)
  then have ans: "respond sample_odbc (abstraction (app_of s2)) (accounts (app_of s2)) 7 (mode_of (heap (app_of s2) 7)) (Enter 3)
      = Some ([(7, enter_ok)], ?t, database v)"
    by (simp only: ab ac md)
  obtain pm n where h: "handle_packet sample_odbc x (mPacketManager s2) = Inr pm" "flush (\<lambda>_. True) (sent (mUserManager pm)) (mNetwork s2) = Inr n"
    and wt: "waiting (service_of (mUserManager pm)) = waiting (service_of (app_of s2))"
    and ln: "\<forall>i < MAX_CLIENT. send_lines n ! i = send_lines (mNetwork s2) ! i @ messages_to i [(7, enter_ok)]"
    by (rule hand_answered[OF conjunct1[OF split_run_follows[OF r2]] un p c refl req ans, where accepted = "\<lambda>_. True"])
  let ?s3 = "s2\<lparr>mNetwork := n, mPacketManager := clear_outbox pm\<rparr>"
  have r3: "split_run sample_odbc Disjoint_only (Some 0, 1) init_db ins SystemNext ?s3"
    by (rule split_run.handled[OF r2 un h])
  have "waiting (service_of (app_of ?s3)) 7 = early_line" and "send_lines (mNetwork ?s3) ! 7 = [ack_cells ACK_LOGIN 30, ack_cells ACK_ROOM_ENTER 50]"
    using arg_cong[OF wt, of "\<lambda>f. f 7"] st2 ln l0 n1 n2 p by (simp_all add: clear_outbox_def service_of_def messages_to_def)
  then show ?thesis
    using split_turns_refine[OF r3] r3 p by (intro exI[of _ ins] exI[of _ ?s3]) auto
qed

end
