(* ===== verification/Sample_Client.thy ===== *)
theory Sample_Client
  imports Packet_Manager
begin

text \<open>
  The console client of the repository: \<open>IOCPClient\<close> and its \<open>main\<close> (\<open>src/LHJSampleClient\<close>). What the console and the
  socket calls answer is an argument, one record per round of the loop. The result is the list of buffers that were
  handed to \<open>WSASend\<close>, and how the program ended.

  Shown here: what the client sends, and that the server never finds a packet in it.
\<close>

section \<open>The client\<close>

datatype call_result = Succeeded | IoPending | CallFailed

datatype client_end = Exited | ReturnedTrue | InLoop

text \<open>\<open>scanned\<close> is the word \<open>scanf_s\<close> read, \<open>None\<close> at the end of the input; \<open>arrived\<close> are bytes that an earlier receive
  has put into the message since then.\<close>

record client_round =
  scanned :: "bytes option"
  arrived :: bytes
  sendCall :: call_result
  recvCall :: call_result

record client_env =
  startup :: int
  client_sock :: "nat option"
  connected :: bool

definition MESSAGE_SIZE :: nat where
  "MESSAGE_SIZE = 1024"

definition exit_word :: bytes where
  "exit_word = [101, 120, 105, 116]"

text \<open>\<open>scanf_s\<close> stores the word and a NUL, or an empty string where they do not fit.\<close>

fun scan_word :: "bytes option \<Rightarrow> bytes \<Rightarrow> bytes" where
  "scan_word None message = message"
| "scan_word (Some w) message =
     (if length w < MESSAGE_SIZE then w @ 0 # drop (length w + 1) message else 0 # drop 1 message)"

definition c_string :: "bytes \<Rightarrow> bytes" where
  "c_string message = takeWhile (\<lambda>b. b \<noteq> 0) message"

definition IOCPClient_Init :: "int \<Rightarrow> nat option \<Rightarrow> client_end option" where
  "IOCPClient_Init wsa sock = (if wsa \<noteq> 0 then Some Exited else case sock of None \<Rightarrow> Some Exited | Some _ \<Rightarrow> None)"

fun client_loop :: "client_round list \<Rightarrow> bytes \<Rightarrow> bytes list \<times> client_end" where
  "client_loop [] message = ([], InLoop)"
| "client_loop (r # rs) message =
     (let m1 = scan_word (scanned r) message;
          m2 = arrived r @ drop (length (arrived r)) m1
      in if c_string m2 = exit_word then ([], ReturnedTrue)
         else if sendCall r = CallFailed then ([], Exited)
         else if recvCall r = CallFailed then ([c_string m2], Exited)
         else (case client_loop rs m2 of (out, e) \<Rightarrow> (c_string m2 # out, e)))"

definition IOCPClient_Run :: "bool \<Rightarrow> client_round list \<Rightarrow> bytes list \<times> client_end" where
  "IOCPClient_Run connectOk rounds =
     (if \<not> connectOk then ([], Exited) else client_loop rounds (replicate MESSAGE_SIZE 0))"

definition client_main :: "client_env \<Rightarrow> client_round list \<Rightarrow> bytes list \<times> client_end" where
  "client_main e rounds =
     (case IOCPClient_Init (startup e) (client_sock e) of
        Some x \<Rightarrow> ([], x)
      | None \<Rightarrow> IOCPClient_Run (connected e) rounds)"

section \<open>What it sends\<close>

text \<open>A word of printable characters, without blanks.\<close>

definition printable :: "bytes \<Rightarrow> bool" where
  "printable w \<longleftrightarrow> w \<noteq> [] \<and> length w < MESSAGE_SIZE \<and> (\<forall>b \<in> set w. 33 \<le> b \<and> b \<le> 126)"

definition typed :: "client_round \<Rightarrow> bool" where
  "typed r \<longleftrightarrow> arrived r = [] \<and> (\<exists>w. scanned r = Some w \<and> printable w)"

lemma c_string_scanned: "printable w \<Longrightarrow> c_string (scan_word (Some w) m) = w"
  by (auto simp: c_string_def printable_def takeWhile_append)

lemma client_loop_sends:
  assumes "\<forall>r \<in> set rounds. typed r"
  shows "\<exists>n. fst (client_loop rounds m) = take n (map (\<lambda>r. the (scanned r)) rounds)"
  using assms
proof (induction rounds arbitrary: m)
  case (Cons r rs)
  obtain w where w: "scanned r = Some w" "printable w" "arrived r = []"
    using Cons.prems by (auto simp: typed_def)
  let ?m = "scan_word (Some w) m"
  obtain n where n: "fst (client_loop rs ?m) = take n (map (\<lambda>r. the (scanned r)) rs)"
    using Cons by fastforce
  have step: "client_loop (r # rs) m = (if w = exit_word then ([], ReturnedTrue)
      else if sendCall r = CallFailed then ([], Exited) else if recvCall r = CallFailed then ([w], Exited)
      else (w # fst (client_loop rs ?m), snd (client_loop rs ?m)))"
    using w c_string_scanned[OF w(2)] by (simp add: Let_def split: prod.splits)
  have "fst (client_loop (r # rs) m) \<in> {[], [w], w # take n (map (\<lambda>r. the (scanned r)) rs)}"
    unfolding step using n by (simp del: scan_word.simps)
  then consider "fst (client_loop (r # rs) m) = []" | "fst (client_loop (r # rs) m) = [w]"
    | "fst (client_loop (r # rs) m) = w # take n (map (\<lambda>r. the (scanned r)) rs)"
    by blast
  then show ?case
  proof cases
    case 1
    then show ?thesis by (intro exI[of _ 0]) simp
  next
    case 2
    then show ?thesis by (intro exI[of _ 1]) (simp add: w)
  next
    case 3
    then show ?thesis by (intro exI[of _ "Suc n"]) (simp add: w)
  qed
qed simp

lemma client_main_sends:
  assumes "\<forall>r \<in> set rounds. typed r" and "client_main e rounds = (out, x)"
  shows "\<forall>w \<in> set out. printable w"
proof -
  have "\<forall>w \<in> set (fst (client_loop rounds m)). printable w" for m
  proof -
    obtain n where "fst (client_loop rounds m) = take n (map (\<lambda>r. the (scanned r)) rounds)"
      using client_loop_sends[OF assms(1)] by blast
    then show ?thesis
      using assms(1) by (fastforce simp: typed_def dest!: in_set_takeD)
  qed
  then show ?thesis
    using assms(2) by (auto simp: client_main_def IOCPClient_Run_def split: option.splits if_splits) (metis fst_conv)
qed

text \<open>Two printable characters announce a packet that is longer than the server's buffer.\<close>

lemma printable_no_frame:
  assumes "\<forall>b \<in> set bs. 33 \<le> b" and "length bs \<le> PACKET_DATA_BUFFER_SIZE"
  shows "spec_get bs = None"
proof (cases "length bs < PACKET_HEADER_LENGTH")
  case True
  then show ?thesis by (simp add: spec_get_def)
next
  case False
  then obtain a b cs where bs: "bs = a # b # cs"
    by (cases bs rule: of_le16.cases) (auto simp: packet_sizes)
  have "33 \<le> b"
    using assms(1) bs by simp
  then have "33 \<le> unat b"
    by (simp add: word_le_nat_alt)
  moreover have "256 * unat b \<le> unat (or (ucast a) (push_bit 8 (ucast b)) :: u16)"
  proof -
    have "drop_bit 8 (or (ucast a) (push_bit 8 (ucast b)) :: u16) = ucast b"
      by (rule bit_word_eqI) (auto simp: bit_simps dest: bit_imp_le_length)
    moreover have "unat (ucast b :: u16) = unat b"
      by (simp add: unsigned_ucast_eq) (simp add: take_bit_eq_mod order.strict_trans2[OF unsigned_less])
    ultimately have "unat b = drop_bit 8 (unat (or (ucast a) (push_bit 8 (ucast b)) :: u16))"
      by (metis unat_drop_bit_eq)
    then show ?thesis
      by (simp add: drop_bit_eq_div)
  qed
  ultimately show ?thesis
    using False assms(2) by (simp add: spec_get_def bs PACKET_DATA_BUFFER_SIZE_def)
qed


section \<open>Properties\<close>

text \<open>
  C40. The sample client is never heard: whatever printable words are typed into it and however its calls end, and
  however much of what it sends has reached its session, a turn of the packet thread takes the client off the queue
  and changes nothing else. The client sends bare text; its first two characters are read as the length of
  a packet, which is more than the buffer of the session can hold.
\<close>

theorem sample_client_unheard:
  assumes "\<forall>r \<in> set rounds. typed r" and "client_main e rounds = (out, x)"
    and "pm_ok s" and "mInComingPacketUserIndex s = of_nat p # is" and "live (mUserManager s) p"
    and "stream (heap (mUserManager s) p) = take k (concat out)"
  shows "ProcessPacket_recv d s = Inr (s\<lparr>mInComingPacketUserIndex := is\<rparr>)"
proof -
  let ?u = "heap (mUserManager s) p"
  have "\<forall>b \<in> set (concat out). 33 \<le> b"
    using client_main_sends[OF assms(1,2)] by (auto simp: printable_def)
  then have b: "\<forall>b \<in> set (stream ?u). 33 \<le> b"
    unfolding assms(6) by (auto dest!: in_set_takeD)
  have ok: "buffer_ok ?u"
    using assms(3,5) app_ok_session by (auto simp: pm_ok_def session_ok_def)
  then have "unat (mPacketDataBufferWPos ?u - mPacketDataBufferRPos ?u) \<le> PACKET_DATA_BUFFER_SIZE"
    by (auto simp: buffer_ok_def unat_sub_if_size)
  then have "spec_get (stream ?u) = None"
    by (intro printable_no_frame[OF b]) (simp add: length_stream[OF ok])
  then show ?thesis
    using unserved_packet_step[OF assms(3-5) refl, of d] by (simp add: taken_def)
qed

text \<open>The words \<open>hello\<close> and \<open>exit\<close>.\<close>

definition hello :: bytes where
  "hello = [104, 101, 108, 108, 111]"

definition hello_rounds :: "client_round list" where
  "hello_rounds = map (\<lambda>w. \<lparr>scanned = Some w, arrived = [], sendCall = Succeeded, recvCall = IoPending\<rparr>) [hello, exit_word]"

lemma hello_sent:
  "client_main \<lparr>startup = 0, client_sock = Some 5, connected = True\<rparr> hello_rounds = ([hello], ReturnedTrue)"
  by (simp add: client_main_def IOCPClient_Init_def IOCPClient_Run_def hello_rounds_def hello_def exit_word_def
      MESSAGE_SIZE_def c_string_def Let_def)

theorem sample_client_unheard_witness:
  "ProcessPacket_recv sample_odbc (waiting_pm hello) = Inr ((waiting_pm hello)\<lparr>mInComingPacketUserIndex := []\<rparr>)"
proof (rule sample_client_unheard[OF _ hello_sent])
  have len: "length hello \<le> PACKET_DATA_BUFFER_SIZE"
    by (simp add: hello_def PACKET_DATA_BUFFER_SIZE_def)
  show "pm_ok (waiting_pm hello)"
    by (rule waiting_pm_ok[OF len])
  show "stream (heap (mUserManager (waiting_pm hello)) 1) = take 5 (concat [hello])"
    using waiting_stream[OF len] by (simp add: hello_def del: One_nat_def)
  show "\<forall>r \<in> set hello_rounds. typed r"
    by (auto simp: hello_rounds_def typed_def printable_def hello_def exit_word_def MESSAGE_SIZE_def word_le_nat_alt)
qed simp_all

end
