(* ===== verification/Buffer_Race.thy ===== *)
theory Buffer_Race
  imports In_Flight
begin

text \<open>
  The race on the packet buffer. \<open>User::SetPacketData\<close> runs in a worker thread and \<open>User::GetPacket\<close> in the packet
  thread, on the same buffer and positions and without a lock. Here both are cut into the steps of their code, one
  load or store of shared data each (\<open>writer_step\<close>, \<open>reader_step\<close>; the last copy is one step per cell, the move to
  the front one step), and a step of either thread may come next (\<open>race_step\<close>). There is one writer at a time,
  since a slot posts its next receive after \<open>OnReceive\<close> has returned, and one reader, the packet thread.

  Shown here: alone, each thread does what \<open>SetPacketData\<close> and \<open>GetPacket\<close> do; as long as no delivery reaches the
  end of the buffer every interleaving has the results of a sequence of whole calls; and a move to
  the front that the reader sees half done hands out a packet that is not complete, and keeps it in the buffer.
\<close>

section \<open>The steps of the two threads\<close>

text \<open>Where a worker stands in \<open>SetPacketData\<close>: the bytes to deliver, and the values it has loaded.\<close>

datatype writer_at =
    WIdle
  | WTest bytes
  | WRemainW bytes
  | WRemainR bytes u32
  | WMove bytes u32
  | WSetW bytes u32
  | WSetR bytes
  | WPlace bytes
  | WCells bytes nat nat
  | WBump bytes

fun writer_step :: "memcpy_mode \<Rightarrow> writer_at \<Rightarrow> user \<Rightarrow> (writer_at \<times> user) result" where
  "writer_step m WIdle u = Inr (WIdle, u)"
| "writer_step m (WTest bs) u =
     Inr (if mPacketDataBufferWPos u + of_nat (length bs) \<ge> of_nat PACKET_DATA_BUFFER_SIZE then WRemainW bs else WPlace bs, u)"
| "writer_step m (WRemainW bs) u = Inr (WRemainR bs (mPacketDataBufferWPos u), u)"
| "writer_step m (WRemainR bs w) u =
     (let remainDataSize = w - mPacketDataBufferRPos u in
      Inr (if remainDataSize > 0 then WMove bs remainDataSize else WSetW bs 0, u))"
| "writer_step m (WMove bs remainDataSize) u =
     bindr (copy_to_front m (unat (mPacketDataBufferRPos u)) (unat remainDataSize) (mPacketDataBuffer u))
       (\<lambda>buf. Inr (WSetW bs remainDataSize, u\<lparr>mPacketDataBuffer := buf\<rparr>))"
| "writer_step m (WSetW bs w) u = Inr (WSetR bs, u\<lparr>mPacketDataBufferWPos := w\<rparr>)"
| "writer_step m (WSetR bs) u = Inr (WPlace bs, u\<lparr>mPacketDataBufferRPos := 0\<rparr>)"
| "writer_step m (WPlace bs) u = Inr (WCells bs (unat (mPacketDataBufferWPos u)) 0, u)"
| "writer_step m (WCells bs p k) u =
     (if k < length bs
      then bindr (write_cells (p + k) [Some (bs ! k)] (mPacketDataBuffer u))
        (\<lambda>buf. Inr (WCells bs p (Suc k), u\<lparr>mPacketDataBuffer := buf\<rparr>))
      else Inr (WBump bs, u))"
| "writer_step m (WBump bs) u =
     Inr (WIdle, u\<lparr>mPacketDataBufferWPos := mPacketDataBufferWPos u + of_nat (length bs)\<rparr>)"

text \<open>Where the packet thread stands in \<open>GetPacket\<close>; the length field is loaded at each of its
  uses. Its last use and the update of the read position are one step of the model.\<close>

datatype reader_at =
    RIdle
  | RTest
  | RRemain u32
  | RHeader u32
  | RLength u32 nat
  | RId nat
  | RSize nat u16
  | RPtr nat u16 u16
  | RAdvance nat PacketInfo
  | RDone PacketInfo

fun reader_step :: "reader_at \<Rightarrow> user \<Rightarrow> (reader_at \<times> user) result" where
  "reader_step RIdle u = Inr (RIdle, u)"
| "reader_step RTest u = Inr (RRemain (mPacketDataBufferWPos u), u)"
| "reader_step (RRemain w) u =
     (let remainByte = w - mPacketDataBufferRPos u in
      Inr (if remainByte < of_nat PACKET_HEADER_LENGTH then RDone empty_PacketInfo else RHeader remainByte, u))"
| "reader_step (RHeader remainByte) u = Inr (RLength remainByte (unat (mPacketDataBufferRPos u)), u)"
| "reader_step (RLength remainByte pHeader) u =
     bindr (read_u16 pHeader (mPacketDataBuffer u)) (\<lambda>len.
       Inr (if (ucast len :: u32) > remainByte then RDone empty_PacketInfo else RId pHeader, u))"
| "reader_step (RId pHeader) u =
     bindr (read_u16 (pHeader + 2) (mPacketDataBuffer u)) (\<lambda>pid. Inr (RSize pHeader pid, u))"
| "reader_step (RSize pHeader pid) u =
     bindr (read_u16 pHeader (mPacketDataBuffer u)) (\<lambda>len. Inr (RPtr pHeader pid len, u))"
| "reader_step (RPtr pHeader pid len) u =
     Inr (RAdvance pHeader (empty_PacketInfo\<lparr>PacketId := pid, DataSize := len,
       pDataPtr := Some (unat (mPacketDataBufferRPos u))\<rparr>), u)"
| "reader_step (RAdvance pHeader p) u =
     bindr (read_u16 pHeader (mPacketDataBuffer u)) (\<lambda>len.
       Inr (RDone p, u\<lparr>mPacketDataBufferRPos := mPacketDataBufferRPos u + ucast len\<rparr>))"
| "reader_step (RDone p) u = Inr (RDone p, u)"

section \<open>Interleavings\<close>

record race =
  shared :: user
  writer :: writer_at
  reader :: reader_at
  calls :: "bytes list"
  results :: "PacketInfo list"

inductive race_step :: "memcpy_mode \<Rightarrow> race \<Rightarrow> race \<Rightarrow> bool" for m where
  set_call: "writer s = WIdle \<Longrightarrow> length bs \<le> MAX_SOCKBUF
    \<Longrightarrow> race_step m s (s\<lparr>writer := WTest bs, calls := calls s @ [bs]\<rparr>)"
| set_step: "writer_step m (writer s) (shared s) = Inr (w, u) \<Longrightarrow> race_step m s (s\<lparr>writer := w, shared := u\<rparr>)"
| get_call: "reader s = RIdle \<Longrightarrow> race_step m s (s\<lparr>reader := RTest\<rparr>)"
| get_step: "reader_step (reader s) (shared s) = Inr (r, u) \<Longrightarrow> race_step m s (s\<lparr>reader := r, shared := u\<rparr>)"
| get_return: "reader s = RDone p \<Longrightarrow> race_step m s (s\<lparr>reader := RIdle, results := results s @ [p]\<rparr>)"

inductive race_run :: "memcpy_mode \<Rightarrow> user \<Rightarrow> race \<Rightarrow> bool" for m u where
  idle: "race_run m u \<lparr>shared = u, writer = WIdle, reader = RIdle, calls = [], results = []\<rparr>"
| more: "race_run m u s \<Longrightarrow> race_step m s s' \<Longrightarrow> race_run m u s'"

text \<open>Whole calls, one after the other.\<close>

datatype buf_event = Delivered bytes | Got PacketInfo

fun replay :: "memcpy_mode \<Rightarrow> buf_event list \<Rightarrow> user \<Rightarrow> user option" where
  "replay m [] u = Some u"
| "replay m (Delivered bs # h) u = (case deliver m bs u of Inl _ \<Rightarrow> None | Inr v \<Rightarrow> replay m h v)"
| "replay m (Got p # h) u = (case GetPacket u of Inl _ \<Rightarrow> None | Inr (q, v) \<Rightarrow> if q = p then replay m h v else None)"

fun delivered_in :: "buf_event list \<Rightarrow> bytes list" where
  "delivered_in [] = []"
| "delivered_in (Delivered bs # h) = bs # delivered_in h"
| "delivered_in (Got p # h) = delivered_in h"

fun got_in :: "buf_event list \<Rightarrow> PacketInfo list" where
  "got_in [] = []"
| "got_in (Delivered bs # h) = got_in h"
| "got_in (Got p # h) = p # got_in h"

lemma events_append [simp]:
  "delivered_in (h @ h') = delivered_in h @ delivered_in h'" "got_in (h @ h') = got_in h @ got_in h'"
  by (induction h rule: got_in.induct) auto

lemma replay_append: "replay m h u = Some v \<Longrightarrow> replay m (h @ h') u = replay m h' v"
  by (induction m h u rule: replay.induct) (auto split: sum.splits if_splits)

section \<open>Each thread alone\<close>

fun writer_run :: "memcpy_mode \<Rightarrow> nat \<Rightarrow> writer_at \<times> user \<Rightarrow> (writer_at \<times> user) result" where
  "writer_run m 0 x = Inr x"
| "writer_run m (Suc k) x = bindr (writer_step m (fst x) (snd x)) (writer_run m k)"

fun reader_run :: "nat \<Rightarrow> reader_at \<times> user \<Rightarrow> (reader_at \<times> user) result" where
  "reader_run 0 x = Inr x"
| "reader_run (Suc k) x = bindr (reader_step (fst x) (snd x)) (reader_run k)"

lemma run_idle [simp]:
  "writer_run m k (WIdle, u) = Inr (WIdle, u)" "reader_run k (RDone p, u) = Inr (RDone p, u)"
  by (induction k) simp_all

lemma blit_Nil [simp]: "p \<le> length d \<Longrightarrow> blit p [] d = d"
  by (simp add: blit_def)

lemma blit_blit: "p + length xs + length ys \<le> length d \<Longrightarrow> blit (p + length xs) ys (blit p xs d) = blit p (xs @ ys) d"
  by (simp add: blit_def add.commute add.left_commute)

lemma writer_run_add: "writer_run m (j + k) x = bindr (writer_run m j x) (writer_run m k)"
  by (induction m j x rule: writer_run.induct) (simp_all add: bindr_assoc cong: bindr_cong)

lemma writer_run_enough:
  assumes "writer_run m k x = map_sum id (Pair WIdle) r" and "k \<le> n"
  shows "writer_run m n x = map_sum id (Pair WIdle) r"
  using assms writer_run_add[of m k "n - k" x] by (cases r) simp_all

lemma writer_cells:
  assumes "p + length bs \<le> length (mPacketDataBuffer u)" and "k \<le> length bs"
  shows "writer_run m (Suc (length bs - k)) (WCells bs p k, u)
    = Inr (WBump bs, u\<lparr>mPacketDataBuffer := blit (p + k) (map Some (drop k bs)) (mPacketDataBuffer u)\<rparr>)"
  using assms
proof (induction "length bs - k" arbitrary: k u)
  case 0
  then show ?case
    by simp
next
  case (Suc n)
  let ?d = "mPacketDataBuffer u"
  have k: "k < length bs" "n = length bs - Suc k" "Suc k \<le> length bs"
    using Suc.hyps(2) by simp_all
  have "blit (p + k + length [Some (bs ! k)]) (map Some (drop (Suc k) bs)) (blit (p + k) [Some (bs ! k)] ?d)
      = blit (p + k) ([Some (bs ! k)] @ map Some (drop (Suc k) bs)) ?d"
    using Suc.prems k(1) by (intro blit_blit) simp
  also have "[Some (bs ! k)] @ map Some (drop (Suc k) bs) = map Some (drop k bs)"
    using Cons_nth_drop_Suc[OF k(1)] by (metis append_Cons append_Nil list.simps(9))
  finally have d: "blit (Suc (p + k)) (map Some (drop (Suc k) bs)) (blit (p + k) [Some (bs ! k)] ?d) = blit (p + k) (map Some (drop k bs)) ?d"
    by simp
  have e: "Suc (length bs - Suc k) = length bs - k"
    using k(1) by simp
  show ?case
    unfolding writer_run.simps(2)[of m "length bs - k"]
    using Suc.hyps(1)[OF k(2) _ k(3), of "u\<lparr>mPacketDataBuffer := blit (p + k) [Some (bs ! k)] ?d\<rparr>", unfolded e] Suc.prems k d
    by (simp add: write_cells_def mem_simps del: writer_run.simps)
qed

lemma writer_cells_out:
  assumes "length (mPacketDataBuffer u) < p + length bs" and "p + k \<le> length (mPacketDataBuffer u)" and "k \<le> length bs"
  shows "writer_run m (Suc (length bs - k)) (WCells bs p k, u) = Inl OutOfBoundsWrite"
  using assms
proof (induction "length bs - k" arbitrary: k u)
  case (Suc n)
  have k: "k < length bs" "n = length bs - Suc k" "Suc (length bs - Suc k) = length bs - k"
    using Suc.hyps(2) by simp_all
  show ?case
  proof (cases "p + k < length (mPacketDataBuffer u)")
    case True
    then show ?thesis
      unfolding writer_run.simps(2)[of m "length bs - k"]
      using Suc.hyps(1)[OF k(2), of "u\<lparr>mPacketDataBuffer := blit (p + k) [Some (bs ! k)] (mPacketDataBuffer u)\<rparr>", unfolded k(3)]
        Suc.prems k(1) by (simp add: write_cells_def mem_simps del: writer_run.simps)
  qed (use k Suc.prems in \<open>simp add: write_cells_def\<close>)
qed simp

text \<open>The last copy and the move of the write position.\<close>

lemma writer_place:
  assumes "unat (mPacketDataBufferWPos u) \<le> length (mPacketDataBuffer u)"
  shows "writer_run m (length bs + 3) (WPlace bs, u) = map_sum id (Pair WIdle)
    (if unat (mPacketDataBufferWPos u) + length bs \<le> length (mPacketDataBuffer u) then Inr (appended bs u) else Inl OutOfBoundsWrite)"
proof -
  have "writer_run m (length bs + 3) (WPlace bs, u)
      = bindr (writer_run m (Suc (length bs - 0)) (WCells bs (unat (mPacketDataBufferWPos u)) 0, u)) (writer_run m 1)"
    using writer_run_add[of m 1 "Suc (length bs) + 1" "(WPlace bs, u)"]
      writer_run_add[of m "Suc (length bs)" 1 "(WCells bs (unat (mPacketDataBufferWPos u)) 0, u)"] by (simp add: eval_nat_numeral)
  then show ?thesis
    using assms writer_cells[of "unat (mPacketDataBufferWPos u)" bs u 0 m] writer_cells_out[of u "unat (mPacketDataBufferWPos u)" bs 0 m]
    by (simp add: appended_def eval_nat_numeral)
qed

text \<open>Up to its last steps a delivery that moves the unread bytes to the front.\<close>

lemma writer_move:
  assumes ok: "buffer_ok u" and n: "length bs < 2 ^ 31"
    and full: "PACKET_DATA_BUFFER_SIZE \<le> unat (mPacketDataBufferWPos u) + length bs" and some: "stream u \<noteq> []"
  shows "writer_run m 5 (WTest bs, u) = (if can_compact m u then Inr (WSetR bs, u\<lparr>mPacketDataBuffer := blit 0 (unread u) (mPacketDataBuffer u),
      mPacketDataBufferWPos := mPacketDataBufferWPos u - mPacketDataBufferRPos u\<rparr>) else Inl OverlappingCopy)"
proof -
  let ?rem = "mPacketDataBufferWPos u - mPacketDataBufferRPos u"
  have len: "unat ?rem = length (unread u)" and pos: "0 < ?rem"
    using remain_unread[OF ok] some by (auto simp: stream_def word_less_nat_alt)
  have t: "mPacketDataBufferWPos u + of_nat (length bs) \<ge> of_nat PACKET_DATA_BUFFER_SIZE"
    using wpos_test[OF ok n] full by simp
  have "writer_run m 5 (WTest bs, u) = writer_run m 2 (WMove bs ?rem, u)"
    using t pos by (simp add: eval_nat_numeral)
  then show ?thesis
    using copy_to_front_unread[OF ok, of m] len by (simp add: eval_nat_numeral)
qed

lemma writer_alone:
  assumes ok: "buffer_ok u" and n: "length bs < 2 ^ 31"
  shows "writer_run m (length bs + 9) (WTest bs, u) = map_sum id (Pair WIdle) (deliver m bs u)"
proof -
  let ?w = "unat (mPacketDataBufferWPos u)"
  have len: "length (mPacketDataBuffer u) = PACKET_DATA_BUFFER_SIZE" "?w \<le> PACKET_DATA_BUFFER_SIZE"
    using ok by (simp_all add: buffer_ok_def)
  note t = wpos_test[OF ok n] and c = compacted_ok[OF ok] and eq = SetPacketData_eq[OF ok n, of m]
    and run = writer_run_add[of m _ "length bs + 3" "(WTest bs, u)"]
  have place: "writer_run m (length bs + 3) (WPlace bs, compacted u) = map_sum id (Pair WIdle)
      (if length (unread u) + length bs \<le> PACKET_DATA_BUFFER_SIZE then Inr (appended bs (compacted u)) else Inl OutOfBoundsWrite)"
    using writer_place[of "compacted u" m bs] c unfolding buffer_ok_def by simp
  consider (fits) "?w + length bs < PACKET_DATA_BUFFER_SIZE" | (empty) "PACKET_DATA_BUFFER_SIZE \<le> ?w + length bs" "stream u = []"
    | (move) "PACKET_DATA_BUFFER_SIZE \<le> ?w + length bs" "stream u \<noteq> []"
    by fastforce
  then show ?thesis
  proof cases
    case fits
    then have "writer_run m (1 + (length bs + 3)) (WTest bs, u) = map_sum id (Pair WIdle) (deliver m bs u)"
      unfolding run using writer_place[of u m bs] t len eq by (simp add: deliver_def)
    then show ?thesis
      by (rule writer_run_enough) simp
  next
    case empty
    have un: "unread u = []"
      using empty(2) by (simp add: stream_def)
    have w0: "mPacketDataBufferWPos u - mPacketDataBufferRPos u = 0"
      using remain_unread[OF ok] un by (simp add: unsigned_eq_0_iff)
    then have "writer_run m 5 (WTest bs, u) = Inr (WPlace bs, compacted u)"
      using t empty(1) un by (simp add: compacted_def eval_nat_numeral)
    then have "writer_run m (5 + (length bs + 3)) (WTest bs, u) = map_sum id (Pair WIdle) (deliver m bs u)"
      unfolding run using place eq empty(1) un by (simp add: deliver_def can_compact_def)
    then show ?thesis
      by (rule writer_run_enough) simp
  next
    case move
    have "writer_run m (5 + 1) (WTest bs, u) = (if can_compact m u then Inr (WPlace bs, compacted u) else Inl OverlappingCopy)"
      unfolding writer_run_add using writer_move[OF ok n move, of m] by (simp add: compacted_def)
    then have "writer_run m ((5 + 1) + (length bs + 3)) (WTest bs, u) = map_sum id (Pair WIdle) (deliver m bs u)"
      unfolding run using place eq move(1) by (simp add: deliver_def)
    then show ?thesis
      by (rule writer_run_enough) simp
  qed
qed

lemma reader_alone: "reader_run 8 (RTest, u) = bindr (GetPacket u) (\<lambda>(p, v). Inr (RDone p, v))"
proof -
  let ?rem = "mPacketDataBufferWPos u - mPacketDataBufferRPos u" and ?r = "unat (mPacketDataBufferRPos u)"
  consider (short) "?rem < of_nat PACKET_HEADER_LENGTH"
    | (noread) e where "\<not> ?rem < of_nat PACKET_HEADER_LENGTH" "read_u16 ?r (mPacketDataBuffer u) = Inl e"
    | (read) len where "\<not> ?rem < of_nat PACKET_HEADER_LENGTH" "read_u16 ?r (mPacketDataBuffer u) = Inr len"
    by (meson old.sum.exhaust)
  then show ?thesis
  proof cases
    case read
    then show ?thesis
      by (cases "(ucast len :: u32) > ?rem"; cases "read_u16 (?r + 2) (mPacketDataBuffer u)")
        (simp_all add: GetPacket_def eval_nat_numeral)
  qed (simp_all add: GetPacket_def eval_nat_numeral)
qed

text \<open>Steps of one thread are steps of the interleaving.\<close>

lemma race_writes:
  assumes "race_run m u s" and "writer_run m k (writer s, shared s) = Inr (w, v)"
  shows "race_run m u (s\<lparr>writer := w, shared := v\<rparr>)"
  using assms
proof (induction k arbitrary: s)
  case 0
  then show ?case
    by (cases s) auto
next
  case (Suc k)
  obtain w1 v1 where st: "writer_step m (writer s) (shared s) = Inr (w1, v1)" and run: "writer_run m k (w1, v1) = Inr (w, v)"
    using Suc.prems(2) by (auto simp: bindr_simps)
  have "race_run m u (s\<lparr>writer := w1, shared := v1\<rparr>)"
    by (rule race_run.more[OF Suc.prems(1) race_step.set_step[OF st]])
  from Suc.IH[OF this] run show ?case
    by simp
qed

lemma race_reads:
  assumes "race_run m u s" and "reader_run k (reader s, shared s) = Inr (r, v)"
  shows "race_run m u (s\<lparr>reader := r, shared := v\<rparr>)"
  using assms
proof (induction k arbitrary: s)
  case 0
  then show ?case
    by (cases s) auto
next
  case (Suc k)
  obtain r1 v1 where st: "reader_step (reader s) (shared s) = Inr (r1, v1)" and run: "reader_run k (r1, v1) = Inr (r, v)"
    using Suc.prems(2) by (auto simp: bindr_simps)
  have "race_run m u (s\<lparr>reader := r1, shared := v1\<rparr>)"
    by (rule race_run.more[OF Suc.prems(1) race_step.get_step[OF st]])
  from Suc.IH[OF this] run show ?case
    by simp
qed

section \<open>No delivery reaches the end\<close>

text \<open>Cells written behind the write position are not seen.\<close>

definition dirty :: "bytes \<Rightarrow> user \<Rightarrow> user" where
  "dirty bs a = a\<lparr>mPacketDataBuffer := blit (unat (mPacketDataBufferWPos a)) (map Some bs) (mPacketDataBuffer a)\<rparr>"

lemma dirty_pos [simp]: "mPacketDataBufferWPos (dirty bs a) = mPacketDataBufferWPos a"
    "mPacketDataBufferRPos (dirty bs a) = mPacketDataBufferRPos a"
  by (simp_all add: dirty_def)

lemma dirty_Nil: "buffer_ok a \<Longrightarrow> dirty [] a = a"
  by (simp add: dirty_def buffer_ok_def)

lemma dirty_ok:
  assumes ok: "buffer_ok a" and fits: "unat (mPacketDataBufferWPos a) + length bs \<le> PACKET_DATA_BUFFER_SIZE"
  shows "buffer_ok (dirty bs a)" and "stream (dirty bs a) = stream a"
proof -
  have "unread (dirty bs a) = unread a"
    using ok fits unfolding unread_def by (simp add: dirty_def buffer_ok_def block_blit_before)
  then show "buffer_ok (dirty bs a)" and "stream (dirty bs a) = stream a"
    using ok fits by (simp_all add: stream_def buffer_ok_def mem_simps) (simp add: dirty_def mem_simps)
qed

lemma dirty_more:
  assumes ok: "buffer_ok a" and fits: "unat (mPacketDataBufferWPos a) + length bs \<le> PACKET_DATA_BUFFER_SIZE" and k: "k < length bs"
  shows "write_cells (unat (mPacketDataBufferWPos a) + k) [Some (bs ! k)] (mPacketDataBuffer (dirty (take k bs) a))
    = Inr (mPacketDataBuffer (dirty (take (Suc k) bs) a))"
proof -
  let ?w = "unat (mPacketDataBufferWPos a)" and ?d = "mPacketDataBuffer a"
  have len: "length ?d = PACKET_DATA_BUFFER_SIZE"
    using ok by (simp add: buffer_ok_def)
  have "blit (?w + length (map Some (take k bs))) [Some (bs ! k)] (blit ?w (map Some (take k bs)) ?d)
      = blit ?w (map Some (take k bs) @ [Some (bs ! k)]) ?d"
    using fits k len by (intro blit_blit) simp
  then show ?thesis
    using fits k len by (simp add: write_cells_def dirty_def mem_simps take_Suc_conv_app_nth)
qed

lemma dirty_bump:
  "(dirty bs a)\<lparr>mPacketDataBufferWPos := mPacketDataBufferWPos a + of_nat (length bs)\<rparr> = appended bs a"
  by (simp add: dirty_def appended_def)

lemma dirty_advanced:
  "(dirty bs a)\<lparr>mPacketDataBufferRPos := mPacketDataBufferRPos a + n\<rparr> = dirty bs (advanced n a)"
  by (cases a) (simp add: dirty_def advanced_def)

lemma dirty_reads:
  assumes "buffer_ok a" and "unat (mPacketDataBufferWPos a) + length bs \<le> PACKET_DATA_BUFFER_SIZE" and "5 \<le> length (stream a)"
  shows "read_u16 (unat (mPacketDataBufferRPos a)) (mPacketDataBuffer (dirty bs a)) = Inr (of_le16 (stream a))"
    and "read_u16 (unat (mPacketDataBufferRPos a) + 2) (mPacketDataBuffer (dirty bs a)) = Inr (of_le16 (drop 2 (stream a)))"
  using dirty_ok[OF assms(1,2)] read_u16_unread[of "dirty bs a" 0] read_u16_unread[of "dirty bs a" 2] assms(3) by simp_all

text \<open>
  Between its steps the shared session is a session \<open>a\<close> that a sequence of whole calls leads to, with some bytes
  of the delivery that is going on behind its write position.
\<close>

fun pending :: "writer_at \<Rightarrow> bytes list" where
  "pending WIdle = []"
| "pending (WTest bs) = [bs]"
| "pending (WPlace bs) = [bs]"
| "pending (WCells bs p k) = [bs]"
| "pending (WBump bs) = [bs]"
| "pending _ = []"

fun written :: "writer_at \<Rightarrow> bytes" where
  "written (WCells bs p k) = take k bs"
| "written (WBump bs) = bs"
| "written _ = []"

fun writer_ok :: "user \<Rightarrow> writer_at \<Rightarrow> bool" where
  "writer_ok a (WCells bs p k) \<longleftrightarrow> p = unat (mPacketDataBufferWPos a) \<and> k \<le> length bs"
| "writer_ok a (WRemainW bs) \<longleftrightarrow> False"
| "writer_ok a (WRemainR bs w) \<longleftrightarrow> False"
| "writer_ok a (WMove bs w) \<longleftrightarrow> False"
| "writer_ok a (WSetW bs w) \<longleftrightarrow> False"
| "writer_ok a (WSetR bs) \<longleftrightarrow> False"
| "writer_ok a _ \<longleftrightarrow> True"

text \<open>
  The reader has seen the first \<open>n\<close> bytes of the stream. Where they hold no packet it will return none, and that call
  is counted from there on; where they hold one, its call is counted when the read position moves.
\<close>

definition seen :: "user \<Rightarrow> nat \<Rightarrow> PacketInfo list \<Rightarrow> bool" where
  "seen a n e \<longleftrightarrow> n \<le> length (stream a) \<and> e = (if spec_get (take n (stream a)) = None then [empty_PacketInfo] else [])"

fun reader_ok :: "user \<Rightarrow> reader_at \<Rightarrow> PacketInfo list \<Rightarrow> bool" where
  "reader_ok a RIdle e \<longleftrightarrow> e = []"
| "reader_ok a RTest e \<longleftrightarrow> e = []"
| "reader_ok a (RRemain w) e \<longleftrightarrow> seen a (unat (w - mPacketDataBufferRPos a)) e"
| "reader_ok a (RHeader n) e \<longleftrightarrow> 5 \<le> unat n \<and> seen a (unat n) e"
| "reader_ok a (RLength n h) e \<longleftrightarrow> h = unat (mPacketDataBufferRPos a) \<and> 5 \<le> unat n \<and> seen a (unat n) e"
| "reader_ok a (RId h) e \<longleftrightarrow> h = unat (mPacketDataBufferRPos a) \<and> spec_get (stream a) \<noteq> None \<and> e = []"
| "reader_ok a (RSize h pid) e \<longleftrightarrow> h = unat (mPacketDataBufferRPos a) \<and> spec_get (stream a) \<noteq> None \<and> e = []
     \<and> pid = of_le16 (drop 2 (stream a))"
| "reader_ok a (RPtr h pid len) e \<longleftrightarrow> h = unat (mPacketDataBufferRPos a) \<and> spec_get (stream a) \<noteq> None \<and> e = []
     \<and> pid = of_le16 (drop 2 (stream a)) \<and> len = of_le16 (stream a)"
| "reader_ok a (RAdvance h p) e \<longleftrightarrow> h = unat (mPacketDataBufferRPos a) \<and> spec_get (stream a) \<noteq> None \<and> e = [] \<and> p = packet_at a"
| "reader_ok a (RDone p) e \<longleftrightarrow> e = [p]"

lemma spec_get_length: "spec_get s \<noteq> None \<Longrightarrow> 5 \<le> length s \<and> unat (of_le16 s) \<le> length s"
  by (auto simp: spec_get_def packet_sizes Let_def split: if_splits)

lemma reader_ok_appended:
  assumes ok: "buffer_ok a" and fits: "unat (mPacketDataBufferWPos a) + length bs \<le> PACKET_DATA_BUFFER_SIZE"
    and r: "reader_ok a r e"
  shows "reader_ok (appended bs a) r e"
proof -
  note st = appended_ok(2)[OF ok fits]
  have pos: "mPacketDataBufferRPos (appended bs a) = mPacketDataBufferRPos a"
    by (simp add: appended_def)
  have seen: "seen a n e \<Longrightarrow> seen (appended bs a) n e" for n
    by (auto simp: seen_def st)
  have more: "spec_get (stream a) \<noteq> None \<Longrightarrow> spec_get (stream a @ bs) \<noteq> None \<and> of_le16 (stream a @ bs) = of_le16 (stream a)
      \<and> of_le16 (drop 2 (stream a @ bs)) = of_le16 (drop 2 (stream a))"
    using spec_get_append[of "stream a" _ _ bs] spec_get_length[of "stream a"] by (fastforce simp: of_le16_append)
  show ?thesis
    using r seen more by (cases r) (auto simp: pos st packet_at_def)
qed

definition explained :: "memcpy_mode \<Rightarrow> user \<Rightarrow> race \<Rightarrow> buf_event list \<Rightarrow> user \<Rightarrow> PacketInfo list \<Rightarrow> bool" where
  "explained m u s h a e \<longleftrightarrow> replay m h u = Some a \<and> buffer_ok a
     \<and> unat (mPacketDataBufferWPos a) = unat (mPacketDataBufferWPos u) + length (concat (delivered_in h))
     \<and> calls s = delivered_in h @ pending (writer s) \<and> writer_ok a (writer s) \<and> shared s = dirty (written (writer s)) a
     \<and> got_in h = results s @ e \<and> reader_ok a (reader s) e"

definition short_of_end :: "user \<Rightarrow> race \<Rightarrow> bool" where
  "short_of_end u s \<longleftrightarrow> unat (mPacketDataBufferWPos u) + length (concat (calls s)) < PACKET_DATA_BUFFER_SIZE"

lemma explained_fits:
  assumes "explained m u s h a e" and "short_of_end u s"
  shows "unat (mPacketDataBufferWPos a) + length (concat (pending (writer s))) < PACKET_DATA_BUFFER_SIZE"
    and "unat (mPacketDataBufferWPos a) + length (written (writer s)) \<le> PACKET_DATA_BUFFER_SIZE"
  using assms by (auto simp: explained_def short_of_end_def) (cases "writer s"; simp)

lemma explained_write:
  assumes ex: "explained m u s h a e" and short: "short_of_end u s"
  shows "\<exists>w v h' a'. writer_step m (writer s) (shared s) = Inr (w, v) \<and> explained m u (s\<lparr>writer := w, shared := v\<rparr>) h' a' e"
proof -
  note fits = explained_fits[OF ex short]
  have ok: "buffer_ok a" and sh: "shared s = dirty (written (writer s)) a" and w: "writer_ok a (writer s)"
    and r: "reader_ok a (reader s) e"
    using ex by (auto simp: explained_def)
  note small = PACKET_DATA_BUFFER_SIZE_def
  show ?thesis
  proof (cases "writer s")
    case (WTest bs)
    have "\<not> mPacketDataBufferWPos a + of_nat (length bs) \<ge> of_nat PACKET_DATA_BUFFER_SIZE"
      using wpos_test[OF ok, of "length bs"] fits(1) WTest by (simp add: small)
    then show ?thesis
      using ex WTest sh by (intro exI[of _ "WPlace bs"] exI[of _ a] exI[of _ h]) (simp add: explained_def dirty_Nil[OF ok])
  next
    case (WCells bs p k)
    show ?thesis
    proof (cases "k < length bs")
      case True
      have "write_cells (p + k) [Some (bs ! k)] (mPacketDataBuffer (shared s)) = Inr (mPacketDataBuffer (dirty (take (Suc k) bs) a))"
        using dirty_more[OF ok _ True] fits(1) w sh WCells by simp
      moreover have "(dirty (take k bs) a)\<lparr>mPacketDataBuffer := mPacketDataBuffer (dirty (take (Suc k) bs) a)\<rparr> = dirty (take (Suc k) bs) a"
        by (simp add: dirty_def)
      ultimately show ?thesis
        using ex WCells True sh by (intro exI[of _ "WCells bs p (Suc k)"] exI[of _ "dirty (take (Suc k) bs) a"] exI[of _ h] exI[of _ a])
          (simp add: explained_def)
    next
      case False
      then show ?thesis
        using ex WCells w sh by (intro exI[of _ "WBump bs"] exI[of _ "shared s"] exI[of _ h] exI[of _ a]) (simp add: explained_def)
    qed
  next
    case (WBump bs)
    have f: "unat (mPacketDataBufferWPos a) + length bs < PACKET_DATA_BUFFER_SIZE"
      using fits(1) WBump by simp
    then have d: "deliver m bs a = Inr (appended bs a)"
      using SetPacketData_eq[OF ok, of bs m] by (simp add: deliver_def small)
    have ok': "buffer_ok (appended bs a)"
      using appended_ok(1)[OF ok] f by simp
    have "unat (mPacketDataBufferWPos (appended bs a)) = unat (mPacketDataBufferWPos a) + length bs"
      using f by (simp add: appended_def mem_simps small)
    then have "explained m u (s\<lparr>writer := WIdle, shared := appended bs a\<rparr>) (h @ [Delivered bs]) (appended bs a) e"
      using ex WBump d ok' reader_ok_appended[OF ok, of bs, OF _ r] f replay_append[of m h u a "[Delivered bs]"]
      by (simp add: explained_def dirty_Nil[OF ok'])
    moreover have "writer_step m (writer s) (shared s) = Inr (WIdle, appended bs a)"
      using WBump sh dirty_bump[of a bs] by simp
    ultimately show ?thesis
      by blast
  qed (use ex w in \<open>auto simp: explained_def dirty_Nil intro!: exI[of _ h]\<close>)
qed

lemma explained_read:
  assumes ex: "explained m u s h a e" and short: "short_of_end u s"
  shows "\<exists>r v h' a' e'. reader_step (reader s) (shared s) = Inr (r, v) \<and> explained m u (s\<lparr>reader := r, shared := v\<rparr>) h' a' e'"
proof -
  note fits = explained_fits(2)[OF ex short]
  have ok: "buffer_ok a" and sh: "shared s = dirty (written (writer s)) a" and r: "reader_ok a (reader s) e"
    using ex by (auto simp: explained_def)
  note reads = dirty_reads[OF ok fits, folded sh]
  have same: "\<exists>r v h' a' e'. reader_step (reader s) (shared s) = Inr (r, v) \<and> explained m u (s\<lparr>reader := r, shared := v\<rparr>) h' a' e'"
    if "reader_step (reader s) (shared s) = Inr (r, shared s)" and "reader_ok a r e" for r
    using ex that by (intro exI[of _ r] exI[of _ "shared s"] exI[of _ h] exI[of _ a] exI[of _ e]) (simp add: explained_def)
  have pos: "mPacketDataBufferWPos (shared s) = mPacketDataBufferWPos a" "mPacketDataBufferRPos (shared s) = mPacketDataBufferRPos a"
    by (simp_all add: sh)
  show ?thesis
  proof (cases "reader s")
    case RTest
    note rem = length_stream[OF ok, symmetric]
    show ?thesis
    proof (cases "spec_get (stream a)")
      case None
      then have "GetPacket a = Inr (empty_PacketInfo, a)"
        using GetPacket_eq[OF ok] by simp
      then show ?thesis
        using ex RTest rem None replay_append[of m h u a "[Got empty_PacketInfo]"] pos
        by (intro exI[of _ "RRemain (mPacketDataBufferWPos a)"] exI[of _ "shared s"] exI[of _ "h @ [Got empty_PacketInfo]"] exI[of _ a]
            exI[of _ "[empty_PacketInfo]"]) (simp add: explained_def seen_def)
    next
      case (Some fr)
      then show ?thesis
        using RTest rem r pos by (intro same[of "RRemain (mPacketDataBufferWPos a)"]) (simp_all add: seen_def)
    qed
  next
    case (RRemain w)
    let ?n = "w - mPacketDataBufferRPos a"
    have n: "?n < of_nat PACKET_HEADER_LENGTH \<longleftrightarrow> unat ?n < 5"
      by (simp add: word_less_nat_alt packet_sizes)
    show ?thesis
    proof (cases "unat ?n < 5")
      case True
      then have "spec_get (take (unat ?n) (stream a)) = None"
        using spec_get_length[of "take (unat ?n) (stream a)"] by fastforce
      then show ?thesis
        using RRemain True n r pos by (intro same[of "RDone empty_PacketInfo"]) (simp_all add: seen_def)
    next
      case False
      then show ?thesis
        using RRemain n r pos by (intro same[of "RHeader ?n"]) simp_all
    qed
  next
    case (RHeader n)
    then show ?thesis
      using r pos by (intro same[of "RLength n (unat (mPacketDataBufferRPos a))"]) simp_all
  next
    case (RLength n p)
    have n: "5 \<le> unat n" "unat n \<le> length (stream a)" and e: "e = (if spec_get (take (unat n) (stream a)) = None then [empty_PacketInfo] else [])"
      and p: "p = unat (mPacketDataBufferRPos a)"
      using r RLength by (auto simp: seen_def)
    have hd: "of_le16 (take (unat n) (stream a)) = of_le16 (stream a)"
      using of_le16_append[of "take (unat n) (stream a)" "drop (unat n) (stream a)"] n by simp
    have cmp: "(ucast (of_le16 (stream a)) :: u32) > n \<longleftrightarrow> unat n < unat (of_le16 (stream a))"
      by (simp add: word_less_nat_alt unat_ucast_u16_u32)
    have sg: "spec_get (take (unat n) (stream a)) = None \<longleftrightarrow> unat n < unat (of_le16 (stream a))"
      using n hd by (simp add: spec_get_def packet_sizes Let_def)
    have whole: "spec_get (stream a) \<noteq> None" if "spec_get (take (unat n) (stream a)) \<noteq> None"
      using spec_get_append[of "take (unat n) (stream a)" _ _ "drop (unat n) (stream a)"] that by auto
    show ?thesis
      using RLength p reads(1) n cmp sg e whole
      by (intro same[of "if unat n < unat (of_le16 (stream a)) then RDone empty_PacketInfo else RId p"]) simp_all
  next
    case (RAdvance p q)
    have sg: "spec_get (stream a) \<noteq> None" and q: "q = packet_at a" "e = []" and p: "p = unat (mPacketDataBufferRPos a)"
      using r RAdvance by auto
    note l = spec_get_length[OF sg]
    let ?a = "advanced (ucast (of_le16 (stream a))) a"
    have g: "GetPacket a = Inr (q, ?a)"
      using GetPacket_eq[OF ok] sg q by auto
    have "buffer_ok ?a"
      using advanced_ok(1)[OF ok] l by (simp add: unat_ucast_u16_u32)
    moreover have "mPacketDataBufferWPos ?a = mPacketDataBufferWPos a"
      by (simp add: advanced_def)
    moreover have "writer_ok ?a (writer s)"
      using ex by (cases "writer s") (simp_all add: explained_def advanced_def)
    ultimately have "explained m u (s\<lparr>reader := RDone q, shared := dirty (written (writer s)) ?a\<rparr>) (h @ [Got q]) ?a [q]"
      using ex g q replay_append[of m h u a "[Got q]"] by (simp add: explained_def)
    moreover have "reader_step (reader s) (shared s) = Inr (RDone q, dirty (written (writer s)) ?a)"
      using RAdvance p reads(1) l by (simp add: sh dirty_advanced[symmetric])
    ultimately show ?thesis
      by blast
  next
    case (RId p)
    then show ?thesis
      using r reads spec_get_length[of "stream a"] by (intro same[of "RSize p (of_le16 (drop 2 (stream a)))"]) simp_all
  next
    case (RSize p pid)
    then show ?thesis
      using r reads spec_get_length[of "stream a"] by (intro same[of "RPtr p pid (of_le16 (stream a))"]) simp_all
  next
    case (RPtr p pid len)
    then show ?thesis
      using r pos by (intro same[of "RAdvance p (packet_at a)"]) (simp_all add: packet_at_def)
  next
    case RIdle
    then show ?thesis
      using r by (intro same[of RIdle]) simp_all
  next
    case (RDone p)
    then show ?thesis
      using r by (intro same[of "RDone p"]) simp_all
  qed
qed

lemma race_explained:
  assumes "race_run m u s" and "buffer_ok u" and "short_of_end u s"
  shows "\<exists>h a e. explained m u s h a e"
  using assms
proof (induction rule: race_run.induct)
  case idle
  then show ?case
    by (intro exI[of _ "[]"] exI[of _ u]) (simp add: explained_def dirty_Nil)
next
  case (more s s')
  have "short_of_end u s"
    using more.hyps(2) more.prems(2) by (cases rule: race_step.cases) (auto simp: short_of_end_def)
  then obtain h a e where ex: "explained m u s h a e" and short: "short_of_end u s"
    using more.IH more.prems(1) by blast
  from more.hyps(2) show ?case
  proof (cases rule: race_step.cases)
    case (set_call bs)
    then show ?thesis
      using ex by (intro exI[of _ h] exI[of _ a] exI[of _ e]) (simp add: explained_def)
  next
    case (set_step w v)
    then show ?thesis
      using explained_write[OF ex short] by auto
  next
    case get_call
    then show ?thesis
      using ex by (intro exI[of _ h] exI[of _ a] exI[of _ e]) (simp add: explained_def)
  next
    case (get_step r v)
    then show ?thesis
      using explained_read[OF ex short] by auto
  next
    case (get_return p)
    then show ?thesis
      using ex by (intro exI[of _ h] exI[of _ a] exI[of _ "[]"]) (simp add: explained_def)
  qed
qed

section \<open>A move to the front seen half done\<close>

text \<open>The reader between the two stores of the positions: its count of unread bytes wraps around.\<close>

lemma wrapped: "unat (x :: u32) < unat y \<Longrightarrow> unat y \<le> 8096 \<Longrightarrow> 65536 \<le> unat (x - y)"
  by (simp add: unat_sub_if')

lemma half_moved:
  assumes ok: "buffer_ok u" and hdr: "5 \<le> length (stream u)" and behind: "length (stream u) < unat (mPacketDataBufferRPos u)"
  defines "v \<equiv> u\<lparr>mPacketDataBuffer := blit 0 (unread u) (mPacketDataBuffer u),
      mPacketDataBufferWPos := mPacketDataBufferWPos u - mPacketDataBufferRPos u\<rparr>"
  shows "GetPacket v = Inr (packet_at u, advanced (ucast (of_le16 (stream u))) v)"
proof -
  let ?r = "unat (mPacketDataBufferRPos u)"
  have len: "length (unread u) = length (stream u)"
    by (simp add: stream_def)
  have "unat (mPacketDataBufferWPos u - mPacketDataBufferRPos u) = length (stream u)"
    using length_stream[OF ok] by simp
  moreover have "length (stream u) < 8096" and "?r \<le> 8096"
    using ok behind by (auto simp: buffer_ok_def PACKET_DATA_BUFFER_SIZE_def)
  ultimately have rem: "65536 \<le> unat (mPacketDataBufferWPos v - mPacketDataBufferRPos v)"
    using behind wrapped[of "mPacketDataBufferWPos u - mPacketDataBufferRPos u" "mPacketDataBufferRPos u"] by (simp add: v_def)
  have blk: "block (?r + k) 2 (mPacketDataBuffer v) = block (?r + k) 2 (mPacketDataBuffer u)" for k
    using behind len ok unread_in_buffer[OF ok] block_blit_after[of 0 "unread u" "?r + k" "mPacketDataBuffer u" 2]
    by (simp add: v_def buffer_ok_def)
  have same: "length (mPacketDataBuffer v) = length (mPacketDataBuffer u)"
    using ok unread_in_buffer[OF ok] by (simp add: v_def mem_simps buffer_ok_def)
  have rd: "read_u16 (?r + k) (mPacketDataBuffer v) = read_u16 (?r + k) (mPacketDataBuffer u)" for k
    unfolding read_u16_def read_cells_def blk same ..
  have r0: "read_u16 ?r (mPacketDataBuffer v) = Inr (of_le16 (stream u))"
    using rd[of 0] read_u16_unread[OF ok, of 0] hdr by simp
  have r2: "read_u16 (?r + 2) (mPacketDataBuffer v) = Inr (of_le16 (drop 2 (stream u)))"
    using rd[of 2] read_u16_unread[OF ok, of 2] hdr by simp
  have pos: "mPacketDataBufferRPos v = mPacketDataBufferRPos u"
    by (simp add: v_def)
  have "\<not> mPacketDataBufferWPos v - mPacketDataBufferRPos v < of_nat PACKET_HEADER_LENGTH"
    using rem by (simp add: word_less_nat_alt packet_sizes)
  moreover have "\<not> (ucast (of_le16 (stream u)) :: u32) > mPacketDataBufferWPos v - mPacketDataBufferRPos v"
    using rem unat_u16_less[of "of_le16 (stream u)"] by (simp add: word_less_nat_alt unat_ucast_u16_u32 del: unat_u16_less)
  ultimately show ?thesis
    unfolding GetPacket_def Let_def using r0 r2 by (simp add: pos packet_at_def advanced_def del: add_2_eq_Suc')
qed

text \<open>The two ways one delivery and one extraction can follow each other.\<close>

lemma one_each:
  assumes "delivered_in h = [bs]" and "length (got_in h) = 1"
  obtains p where "h = [Delivered bs, Got p] \<or> h = [Got p, Delivered bs]"
proof -
  have none: "delivered_in h = [] \<Longrightarrow> got_in h = [] \<Longrightarrow> h = []" for h
    by (cases h rule: got_in.cases) simp_all
  show thesis
  proof (cases h rule: got_in.cases)
    case (2 bs' h')
    then show thesis
      using assms none that by (cases h' rule: got_in.cases) auto
  next
    case (3 p h')
    then show thesis
      using assms none that by (cases h' rule: got_in.cases) auto
  qed (use assms in simp)
qed

section \<open>Properties\<close>

text \<open>
  C16. Without a move to the front the race is harmless: for every interleaving of the steps of any number of
  deliveries and extractions whose bytes together stay short of the end of the buffer, there is a sequence of whole
  calls that delivers the same bytes in the same order and gives the same results in the same order; when both
  threads are between calls the session is the one that this sequence leads to; and no step of either thread is a fault.
\<close>

theorem race_sequential:
  assumes "race_run m u s" and "buffer_ok u"
    and "unat (mPacketDataBufferWPos u) + length (concat (calls s)) < PACKET_DATA_BUFFER_SIZE"
  shows "\<exists>h a e. replay m h u = Some a \<and> calls s = delivered_in h @ pending (writer s) \<and> got_in h = results s @ e
    \<and> (writer s = WIdle \<longrightarrow> reader s = RIdle \<longrightarrow> shared s = a \<and> e = [])
    \<and> ok (writer_step m (writer s) (shared s)) \<and> ok (reader_step (reader s) (shared s))"
proof -
  have short: "short_of_end u s"
    using assms(3) by (simp add: short_of_end_def)
  obtain h a e where ex: "explained m u s h a e"
    using race_explained[OF assms(1,2) short] by blast
  have "ok (writer_step m (writer s) (shared s))" and "ok (reader_step (reader s) (shared s))"
    using explained_write[OF ex short] explained_read[OF ex short] by (auto simp: ok_def)
  then show ?thesis
    using ex by (intro exI[of _ h] exI[of _ a] exI[of _ e]) (auto simp: explained_def dirty_Nil)
qed

lemma fresh_pos: "mPacketDataBufferWPos (fresh_session i) = 0"
  by (simp add: fresh_session_def new_User_def)

text \<open>The reader has loaded the write position of an empty buffer, then a whole packet is delivered, then it goes on.\<close>

lemma late_packet:
  "race_run m (fresh_session 0) \<lparr>shared = appended two_packets (fresh_session 0), writer = WIdle, reader = RIdle,
     calls = [two_packets], results = [empty_PacketInfo]\<rparr>"
proof -
  let ?u = "fresh_session 0"
  have "race_run m ?u \<lparr>shared = ?u, writer = WTest two_packets, reader = RTest, calls = [two_packets], results = []\<rparr>"
    using race_run.more[OF race_run.more[OF race_run.idle race_step.get_call] race_step.set_call[of _ two_packets]]
    by (simp add: two_packets_def MAX_SOCKBUF_def)
  moreover have "reader_run 1 (RTest, ?u) = Inr (RRemain 0, ?u)"
    by (simp add: fresh_pos)
  ultimately have r: "race_run m ?u \<lparr>shared = ?u, writer = WTest two_packets, reader = RRemain 0, calls = [two_packets], results = []\<rparr>"
    using race_reads[of m ?u _ 1 "RRemain 0" ?u] by fastforce
  have "deliver m two_packets ?u = Inr (appended two_packets ?u)"
    using SetPacketData_eq[OF fresh_buffer_ok, of two_packets m 0]
    by (simp add: deliver_def two_packets_def fresh_pos PACKET_DATA_BUFFER_SIZE_def)
  then have "writer_run m (length two_packets + 9) (WTest two_packets, ?u) = Inr (WIdle, appended two_packets ?u)"
    using writer_alone[OF fresh_buffer_ok, of two_packets m 0] by (simp add: two_packets_def)
  then have r2: "race_run m ?u \<lparr>shared = appended two_packets ?u, writer = WIdle, reader = RRemain 0, calls = [two_packets], results = []\<rparr>"
    using race_writes[OF r] by simp
  have "reader_step (RRemain 0) (appended two_packets ?u) = Inr (RDone empty_PacketInfo, appended two_packets ?u)"
    using two_packets_session(3) by (simp add: packet_sizes)
  then have "race_run m ?u \<lparr>shared = appended two_packets ?u, writer = WIdle, reader = RDone empty_PacketInfo, calls = [two_packets], results = []\<rparr>"
    using race_run.more[OF r2 race_step.get_step] by simp
  from race_run.more[OF this race_step.get_return] show ?thesis
    by simp
qed

theorem race_sequential_witness:
  "\<exists>h. replay Disjoint_only h (fresh_session 0) = Some (appended two_packets (fresh_session 0))
    \<and> delivered_in h = [two_packets] \<and> got_in h = [empty_PacketInfo]"
proof -
  have "unat (mPacketDataBufferWPos (fresh_session 0)) + length (concat [two_packets]) < PACKET_DATA_BUFFER_SIZE"
    by (simp add: fresh_pos two_packets_def PACKET_DATA_BUFFER_SIZE_def)
  then show ?thesis
    using race_sequential[OF late_packet[of Disjoint_only] fresh_buffer_ok] by auto
qed

text \<open>
  C17. A move to the front can be seen half done: when an incomplete packet lies behind as many bytes as were
  received of it and the next delivery moves it to the front without completing it, there is an interleaving in
  which the packet thread takes it although most of it has not arrived, and it is still the first packet of the
  stream afterwards, so it is taken twice. In every sequence of the two calls it is not taken at all.
\<close>

theorem race_takes_incomplete:
  assumes ok: "buffer_ok u" and hdr: "5 \<le> length (stream u)" and n: "length bs \<le> MAX_SOCKBUF"
    and incomplete: "length (stream u @ bs) < unat (of_le16 (stream u))" and behind: "length (stream u) < unat (mPacketDataBufferRPos u)"
    and full: "PACKET_DATA_BUFFER_SIZE \<le> unat (mPacketDataBufferWPos u) + length bs"
  shows "(\<exists>s. race_run m u s \<and> writer s = WIdle \<and> reader s = RIdle \<and> calls s = [bs] \<and> results s = [packet_at u]
      \<and> stream (shared s) = stream u @ bs)
    \<and> (\<forall>h a. replay m h u = Some a \<longrightarrow> delivered_in h = [bs] \<longrightarrow> length (got_in h) = 1 \<longrightarrow> got_in h = [empty_PacketInfo])"
proof
  let ?v = "u\<lparr>mPacketDataBuffer := blit 0 (unread u) (mPacketDataBuffer u),
      mPacketDataBufferWPos := mPacketDataBufferWPos u - mPacketDataBufferRPos u\<rparr>"
  let ?v' = "advanced (ucast (of_le16 (stream u))) ?v"
  have n31: "length bs < 2 ^ 31"
    using n by (simp add: MAX_SOCKBUF_def)
  have len: "length (unread u) = length (stream u)"
    by (simp add: stream_def)
  have can: "can_compact m u" and some: "stream u \<noteq> []"
    using behind len hdr by (auto simp: can_compact_def)
  have "race_run m u \<lparr>shared = u, writer = WTest bs, reader = RIdle, calls = [bs], results = []\<rparr>"
    using race_run.more[OF race_run.idle race_step.set_call[of _ bs]] n by simp
  moreover have "writer_run m 5 (WTest bs, u) = Inr (WSetR bs, ?v)"
    using writer_move[OF ok n31 full some, of m] can by simp
  ultimately have "race_run m u \<lparr>shared = ?v, writer = WSetR bs, reader = RIdle, calls = [bs], results = []\<rparr>"
    using race_writes[of m u _ 5 "WSetR bs" ?v] by fastforce
  from race_run.more[OF this race_step.get_call]
  have r1: "race_run m u \<lparr>shared = ?v, writer = WSetR bs, reader = RTest, calls = [bs], results = []\<rparr>"
    by simp
  have "reader_run 8 (RTest, ?v) = Inr (RDone (packet_at u), ?v')"
    unfolding reader_alone half_moved[OF ok hdr behind] by simp
  then have r2: "race_run m u \<lparr>shared = ?v', writer = WSetR bs, reader = RDone (packet_at u), calls = [bs], results = []\<rparr>"
    using race_reads[OF r1, of 8] by simp
  from race_run.more[OF this race_step.get_return]
  have r3: "race_run m u \<lparr>shared = ?v', writer = WSetR bs, reader = RIdle, calls = [bs], results = [packet_at u]\<rparr>"
    by simp
  note c = compacted_ok[OF ok]
  have room: "length (unread u) + length bs \<le> PACKET_DATA_BUFFER_SIZE"
    using unread_in_buffer[OF ok] behind len n by (simp add: MAX_SOCKBUF_def PACKET_DATA_BUFFER_SIZE_def)
  have front: "?v'\<lparr>mPacketDataBufferRPos := 0\<rparr> = compacted u"
    by (simp add: advanced_def compacted_def)
  have "writer_run m (1 + (length bs + 3)) (WSetR bs, ?v') = Inr (WIdle, appended bs (compacted u))"
    unfolding writer_run_add[of m 1] using writer_place[of "compacted u" m bs] c room front by (simp add: buffer_ok_def)
  then have "race_run m u \<lparr>shared = appended bs (compacted u), writer = WIdle, reader = RIdle, calls = [bs], results = [packet_at u]\<rparr>"
    using race_writes[OF r3, of "1 + (length bs + 3)"] by simp
  moreover have "stream (appended bs (compacted u)) = stream u @ bs"
    using appended_ok(2)[OF c(1), of bs] c room by simp
  ultimately show "\<exists>s. race_run m u s \<and> writer s = WIdle \<and> reader s = RIdle \<and> calls s = [bs] \<and> results s = [packet_at u]
      \<and> stream (shared s) = stream u @ bs"
    by (intro exI conjI) (assumption | simp)+
  have wait: "spec_get (stream u) = None" "spec_get (stream u @ bs) = None"
    using incomplete hdr of_le16_append[of "stream u" bs] by (simp_all add: spec_get_def Let_def)
  show "\<forall>h a. replay m h u = Some a \<longrightarrow> delivered_in h = [bs] \<longrightarrow> length (got_in h) = 1 \<longrightarrow> got_in h = [empty_PacketInfo]"
  proof (intro allI impI)
    fix h a
    assume rp: "replay m h u = Some a" and d: "delivered_in h = [bs]" and g: "length (got_in h) = 1"
    have g0: "GetPacket u = Inr (empty_PacketInfo, u)"
      using GetPacket_eq[OF ok] wait(1) by simp
    have g1: "GetPacket v = Inr (empty_PacketInfo, v)" if "deliver m bs u = Inr v" for v
      using GetPacket_eq[of v] SetPacketData_appends[OF ok n31, of m v] that wait(2) by (simp add: deliver_def)
    obtain p where "h = [Delivered bs, Got p] \<or> h = [Got p, Delivered bs]"
      by (rule one_each[OF d g])
    then show "got_in h = [empty_PacketInfo]"
      using rp g0 g1 by (auto split: sum.splits if_splits)
  qed
qed

text \<open>
  A session comes near the end of its buffer by packets that are delivered and taken: 33 packets of 245 bytes, then
  the first ten bytes of a packet of a hundred.
\<close>

lemma pass_through:
  assumes ok: "buffer_ok u" and empty: "stream u = []" and f: "frame f" and fits: "unat (mPacketDataBufferWPos u) + length f < PACKET_DATA_BUFFER_SIZE"
  shows "\<exists>v. deliver m f u = Inr (appended f u) \<and> GetPacket (appended f u) = Inr (packet_at (appended f u), v)
    \<and> buffer_ok v \<and> stream v = [] \<and> unat (mPacketDataBufferWPos v) = unat (mPacketDataBufferWPos u) + length f"
proof -
  let ?a = "appended f u"
  have fits': "unat (mPacketDataBufferWPos u) + length f \<le> PACKET_DATA_BUFFER_SIZE"
    using fits by simp
  note a = appended_ok[OF ok fits'] and pos = appended_pos[OF ok fits']
  have g: "spec_get (stream ?a) = Some (f, [])"
    using spec_get_frame[OF f, of "[]"] a(2) empty by simp
  have n: "unat (ucast (of_le16 (stream ?a)) :: u32) = length (stream ?a)"
    using f a(2) empty by (simp add: frame_def unat_ucast_u16_u32)
  note v = advanced_ok[OF a(1), of "ucast (of_le16 (stream ?a))", unfolded n]
  have "GetPacket ?a = Inr (packet_at ?a, advanced (ucast (of_le16 (stream ?a))) ?a)"
    using GetPacket_eq[OF a(1)] g by simp
  moreover have "deliver m f u = Inr ?a"
    using SetPacketData_eq[OF ok, of f m] fits by (simp add: deliver_def PACKET_DATA_BUFFER_SIZE_def)
  ultimately show ?thesis
    using v pos(1) by (intro exI[of _ "advanced (ucast (of_le16 (stream ?a))) ?a"]) (simp add: advanced_def)
qed

lemma filled:
  assumes f: "frame f" and fits: "n * length f < PACKET_DATA_BUFFER_SIZE"
  shows "\<exists>h u. replay m h (fresh_session i) = Some u \<and> delivered_in h = replicate n f
    \<and> buffer_ok u \<and> stream u = [] \<and> unat (mPacketDataBufferWPos u) = n * length f"
  using fits
proof (induction n)
  case 0
  then show ?case
    by (intro exI[of _ "[]"] exI[of _ "fresh_session i"]) (simp add: fresh_buffer_ok fresh_stream fresh_pos)
next
  case (Suc n)
  then obtain h u where u: "replay m h (fresh_session i) = Some u" "delivered_in h = replicate n f" "buffer_ok u" "stream u = []"
    and w: "unat (mPacketDataBufferWPos u) = n * length f"
    by auto
  obtain v where v: "deliver m f u = Inr (appended f u)" "GetPacket (appended f u) = Inr (packet_at (appended f u), v)"
    "buffer_ok v" "stream v = []" "unat (mPacketDataBufferWPos v) = n * length f + length f"
    using pass_through[OF u(3,4) f, of m] w Suc.prems by (auto simp: add.commute)
  have "replay m (h @ [Delivered f, Got (packet_at (appended f u))]) (fresh_session i) = Some v"
    using replay_append[OF u(1), of "[Delivered f, Got (packet_at (appended f u))]"] v(1,2) by simp
  moreover have "delivered_in (h @ [Delivered f, Got (packet_at (appended f u))]) = replicate (Suc n) f"
    using u(2) by (simp add: replicate_append_same)
  ultimately show ?case
    using v(3-5) by (intro exI[of _ "h @ [Delivered f, Got (packet_at (appended f u))]"] exI[of _ v]) (simp add: add.commute)
qed

definition small_packet :: bytes where
  "small_packet = le16 245 @ replicate 243 1"

definition part_of_packet :: bytes where
  "part_of_packet = le16 100 @ replicate 8 0"

theorem race_takes_incomplete_witness:
  "\<exists>h u s. replay Disjoint_only h (fresh_session 0) = Some u \<and> delivered_in h = replicate 33 small_packet @ [part_of_packet]
    \<and> race_run Disjoint_only u s \<and> map DataSize (results s) = [100] \<and> reader s = RIdle \<and> writer s = WIdle
    \<and> stream (shared s) = part_of_packet @ [1]"
proof -
  have len: "length small_packet = 245" "length part_of_packet = 10" and num: "of_le16 small_packet = 245" "of_le16 part_of_packet = 100"
    unfolding small_packet_def part_of_packet_def by (simp_all add: of_le16_le16)
  have f: "frame small_packet"
    using len num by (simp add: frame_def packet_sizes)
  obtain h u where u: "replay Disjoint_only h (fresh_session 0) = Some u" "delivered_in h = replicate 33 small_packet"
    "buffer_ok u" "stream u = []" and w: "unat (mPacketDataBufferWPos u) = 8085"
    using filled[OF f, of 33 Disjoint_only 0] len by (auto simp: PACKET_DATA_BUFFER_SIZE_def)
  have fits: "unat (mPacketDataBufferWPos u) + length part_of_packet \<le> PACKET_DATA_BUFFER_SIZE"
    using w len by (simp add: PACKET_DATA_BUFFER_SIZE_def)
  let ?a = "appended part_of_packet u"
  note a = appended_ok[OF u(3) fits] and pos = appended_pos[OF u(3) fits]
  have r: "unat (mPacketDataBufferRPos u) = 8085"
    using length_stream[OF u(3)] u(3,4) w by (simp add: buffer_ok_def mem_simps)
  have d: "deliver Disjoint_only part_of_packet u = Inr ?a"
    using SetPacketData_eq[OF u(3), of part_of_packet Disjoint_only] w len by (simp add: deliver_def PACKET_DATA_BUFFER_SIZE_def)
  have rp: "replay Disjoint_only (h @ [Delivered part_of_packet]) (fresh_session 0) = Some ?a"
    using replay_append[OF u(1), of "[Delivered part_of_packet]"] d by simp
  have st: "stream ?a = part_of_packet"
    using a(2) u(4) by simp
  obtain s where "race_run Disjoint_only ?a s" "writer s = WIdle" "reader s = RIdle" "results s = [packet_at ?a]"
    "stream (shared s) = stream ?a @ [1]"
    using race_takes_incomplete[OF a(1), of "[1]" Disjoint_only] st len num pos r w
    by (auto simp: MAX_SOCKBUF_def PACKET_DATA_BUFFER_SIZE_def)
  then show ?thesis
    using rp u(2) st num by (intro exI[of _ "h @ [Delivered part_of_packet]"] exI[of _ ?a] exI[of _ s]) (simp add: packet_at_def)
qed

end
