(* ===== verification/Spec2Isabelle.thy ===== *)
theory Spec2Isabelle
  imports Server_Main Split_Turns Sample_Client Buffer_Race
begin

text \<open>
  A chat server on I/O completion ports, verified. The program (\<open>src/LHJSample\<close>) accepts up to 100 clients, cuts
  their byte streams into packets, and serves account creation, login, a lobby and ten chat rooms of four.

  The parts of the program and how they interact. \<open>main\<close> loads the configuration, opens the listening socket and
  starts a \<open>ChatServer\<close>, which is an \<open>IOCPServer\<close>. Four worker threads take completions of the port; for each one
  they call \<open>OnConnect\<close>, \<open>OnClose\<close> or \<open>OnReceive\<close>. The first two push a system packet, the third copies the bytes
  to the packet buffer of the session (\<open>User\<close>) and queues the client's number. One packet thread of the
  \<open>PacketManager\<close> takes a client number, cuts a packet from that session's buffer and calls its handler, then takes
  a system packet. Handlers are the methods of the session's state object; they use the \<open>UserManager\<close> (pool of
  sessions, directory of user ids, account database) and the \<open>RoomManager\<close>, and answer through a send function
  that ends in the send queue of the client's slot (\<open>ClientInfo\<close>). An accepter thread offers free slots to new
  clients.

  The theories, in the order of their imports:
    \<^item> \<open>LHJ_Prelude\<close>: bytes, indeterminate memory cells, faults and their monad, block copies, little-endian
      fields, C strings. A fault is what C++ leaves undefined, or an exception nobody catches.
    \<^item> \<open>Packets\<close> (\<open>Packet.h\<close>, \<open>ResultCode.h\<close>): ids, codes, packet layouts, and readers of the answers.
    \<^item> \<open>Users\<close> (\<open>User/User.*\<close>, \<open>User/State/*\<close>): the session record, its states and the table of handlers of each.
    \<^item> \<open>Packet_Buffer\<close> (\<open>User::SetPacketData\<close>, \<open>User::GetPacket\<close>): the buffer of 8096 cells and its two positions,
      and the stream it stands for. \<open>In_Flight\<close>: deliveries between the extraction of a packet and its handling.
      \<open>Buffer_Race\<close>: the steps of the two operations, interleaved.
    \<^item> \<open>Rooms\<close> (\<open>Room/*\<close>): rooms and their manager. A \<open>User*\<close> is an address of a heap of sessions, a send is an
      entry of an outbox.
    \<^item> \<open>Accounts\<close> (\<open>DB/AccountDB.cpp\<close>): the two operations on the account database. The ODBC driver is the
      parameter \<open>odbc\<close>; its result sets have the contract \<open>result_set\<close>, its handle the contract
      \<open>statement_handle\<close>. Both state what ODBC documents. A driver with a table in memory, \<open>sample_odbc\<close>, satisfies
      them; the witnesses run on it, and no property rests on it.
    \<^item> \<open>User_Manager\<close> (\<open>User/UserManager.*\<close> and the session operations that call the managers), with the
      invariant of the application state \<open>app_ok\<close>.
    \<^item> \<open>Handlers\<close> (the \<open>Process...\<close> methods of the three states).
    \<^item> \<open>Queues\<close>: the contract \<open>fifo\<close> of the program's queues; \<open>Redis_Tasks\<close> (\<open>RedisManager.*\<close>,
      \<open>RedisTaskDefine.h\<close>).
    \<^item> \<open>Packet_Manager\<close> (\<open>PacketManager.*\<close>): queues, dispatch, one turn of the packet thread.
    \<^item> \<open>Protocol\<close>: an abstract machine of what the server promises, without buffers, words and tables, with its own
      invariants and the contract \<open>authorization\<close> of messages that need another message first. \<open>Service\<close>: the
      specification of the server as a function from requests, read from the bytes a client sent, to answers.
      \<open>Protocol_Refinement\<close>: every packet, connect and disconnect is a step of the service, every turn of the packet
      thread a run of it. \<open>Handler_Faults\<close>: the faults a turn can end in.
    \<^item> \<open>Client_Info\<close> and \<open>Iocp_Server\<close> (\<open>ServerNetwork/*\<close>): slots, worker, accepter and send thread.
    \<^item> \<open>Chat_Server\<close> (\<open>ChatServer.*\<close>): the composition, its step relation and the reachable states.
    \<^item> \<open>Server_Protocol\<close>: the composition implements the service, and what follows for the clients.
      \<open>Service_Progress\<close>: the other direction, where the service has an answer the composition gives it.
      \<open>Split_Turns\<close>: the same refinement with the worker threads going on inside a turn of the packet thread.
    \<^item> \<open>Config_Loader\<close> (\<open>Config/*\<close>, \<open>AccountDB::Init\<close>) and \<open>Server_Main\<close> (\<open>main.cpp\<close>: set-up, waiting loop, shut-down).
    \<^item> \<open>Sample_Client\<close> (\<open>src/LHJSampleClient\<close>): the console client, and that the server never hears it.

  What is shown.
    \<^item> Byte stream: framing does not depend on how the network cuts the stream, the buffer is equivalent to an
      unbounded stream under a bound on the backlog, every branch of the two buffer operations, packets in flight,
      which interleavings of the two operations are harmless and which are not, and what a client does with wrong
      length fields.
    \<^item> Rooms: every branch of entering and leaving, over all histories the number of admissions of a room is bounded
      by its limit (the counter is never lowered), so a room wears out.
    \<^item> Accounts and login: the fetch loop ends, what is found, what the shared statement handle does to the call
      after an account creation, every branch of the login check, and the directory of logged-in ids.
    \<^item> Handlers: each request's effect on the state and the exact packets that are sent, in order; every handler
      keeps the invariant or ends in a fault.
    \<^item> Threads: which packets have no effect, what a disconnect does, order of the two queues, order of sends, and
      that the parts of a turn need not be atomic.
    \<^item> Whole server: the invariant over every reachable state of the step relation, which interleaves completions,
      passes of the accepter and turns of the packet thread; refinement of the service (\<open>service_of\<close>, \<open>encode\<close>) on the
      same bytes, hence nothing but account answers before a login, no notice of a room before an admission, forty
      admissions in all, and chat notices only of what a logged-in client sent; the converse, that every
      request with an answer can be served and sent, and that a turn fails exactly where the service has no
      answer; the five faults a turn can end in; unique user ids, occupancy of rooms, the ways a receive can
      fail, one connection per slot, and that the program never ends cleanly.

  Choices of the model. A step of a thread is atomic: a completion, a pass of the accepter, a turn of the packet
  thread. The code takes locks for the queues but not for the packet buffer; the two calls that use the buffer
  are cut into single loads and stores in \<open>Buffer_Race\<close>, which shows when taking them as whole calls is
  justified. The three parts of a turn are steps of their own in \<open>Split_Turns\<close>: the refinement still holds there when a
  packet is undisturbed until its handler runs, and \<open>In_Flight\<close> says which deliveries leave it so and which do not.
  Loads and stores take effect in the order of the code. The sends of a turn reach the slots at the end of the turn, in order. Results of system calls are
  arguments. A \<open>CopyMemory\<close> whose blocks overlap is a fault or a move (\<open>memcpy_mode\<close>). Loops of
  threads are one round each, with \<open>packet_rounds\<close> and \<open>task_rounds\<close> for a number of rounds; the fetch loop and
  the waiting loop of \<open>main\<close> are partial functions, and a result set that never ends is the fault
  \<open>NoReturn\<close>. The clock of the accepter is bounded by 136 years (\<open>clock_bound\<close>).

  Not modelled: the destructors of \<open>AccountDB\<close> and \<open>IOCPServer\<close> (they only release), console output, \<open>State.h\<close>
  and \<open>RawPacketData\<close> (unused), the C# client, the SQL scripts and the data base server, and the vendored libraries.
\<close>

end
